(* ===== verification/Prelude.thy ===== *)
theory Prelude
  imports Main "HOL-Library.Word" "HOL-Library.List_Lexorder" "HOL-Library.Char_ord"
begin

text \<open>
  Shared vocabulary of the development: the result type of fallible code and its sequencing
  combinators, C++ character constants and \<^verbatim>\<open>std::string\<close> searches, the machine integers of the
  Slice types, and the list and byte lemmas the component theories use.
\<close>

section \<open>Collections of facts\<close>

named_theorems stream_defs "definitions of the marshalling operations"
named_theorems reader_ok "reading operations keep the read cursor inside the buffer"

section \<open>Fallible code\<close>

text \<open>
  A C++ function that may throw returns \<open>'e + 'a\<close>, with \<open>Inl\<close> for the exception. \<open>bindE\<close>
  is sequencing of two calls, and \<open>bindS\<close> of two calls that also thread a state.
\<close>

definition bindE :: "'e + 'a \<Rightarrow> ('a \<Rightarrow> 'e + 'b) \<Rightarrow> 'e + 'b" where
  "bindE m f = (case m of Inl e \<Rightarrow> Inl e | Inr x \<Rightarrow> f x)"

definition bindS :: "'e + ('a \<times> 's) \<Rightarrow> ('a \<Rightarrow> 's \<Rightarrow> 'e + 'b) \<Rightarrow> 'e + 'b" where
  "bindS m f = (case m of Inl e \<Rightarrow> Inl e | Inr (x, s) \<Rightarrow> f x s)"

lemma bindE_simps [simp]:
  "bindE (Inl e) f = Inl e"
  "bindE (Inr x) f = f x"
  by (simp_all add: bindE_def)

lemma bindS_simps [simp]:
  "bindS (Inl e) g = Inl e"
  "bindS (Inr (x, s)) g = g x s"
  by (simp_all add: bindS_def)

lemma bindE_Inr_conv: "bindE m f = Inr y \<longleftrightarrow> (\<exists>x. m = Inr x \<and> f x = Inr y)"
  by (cases m) auto

lemma bindS_Inr_conv: "bindS m f = Inr y \<longleftrightarrow> (\<exists>x s. m = Inr (x, s) \<and> f x s = Inr y)"
  by (cases m) auto

lemma bindE_Inl_conv: "bindE m f = Inl e \<longleftrightarrow> m = Inl e \<or> (\<exists>x. m = Inr x \<and> f x = Inl e)"
  by (cases m) auto

lemma bindS_Inl_conv:
  "bindS m f = Inl e \<longleftrightarrow> m = Inl e \<or> (\<exists>x s. m = Inr (x, s) \<and> f x s = Inl e)"
  by (cases m) auto

lemmas bind_Inr_convs = bindE_Inr_conv bindS_Inr_conv
lemmas bind_Inl_convs = bindE_Inl_conv bindS_Inl_conv

section \<open>Characters\<close>

abbreviation BSLASH :: char where "BSLASH \<equiv> CHR 0x5C"
abbreviation SQUOTE :: char where "SQUOTE \<equiv> CHR 0x27"
abbreviation DQUOTE :: char where "DQUOTE \<equiv> CHR 0x22"
abbreviation BACKSP :: char where "BACKSP \<equiv> CHR 0x08"
abbreviation FORMFD :: char where "FORMFD \<equiv> CHR 0x0C"
abbreviation NEWLN :: char where "NEWLN \<equiv> CHR 0x0A"
abbreviation CARRET :: char where "CARRET \<equiv> CHR 0x0D"
abbreviation HTAB :: char where "HTAB \<equiv> CHR 0x09"
abbreviation VTAB :: char where "VTAB \<equiv> CHR 0x0B"
abbreviation SPACE :: char where "SPACE \<equiv> CHR 0x20"

text \<open>\<open>ord c\<close> is \<^verbatim>\<open>static_cast<unsigned char>(c)\<close>.\<close>

abbreviation ord :: "char \<Rightarrow> nat" where "ord c \<equiv> of_char c"

abbreviation chr :: "nat \<Rightarrow> char" where "chr n \<equiv> char_of n"

text \<open>The printable ASCII range that the string utilities test for: 32 to 126.\<close>

definition printable :: "char \<Rightarrow> bool" where
  "printable c \<longleftrightarrow> 32 \<le> ord c \<and> ord c \<le> 126"

text \<open>\<^verbatim>\<open>isspace\<close> of the C library in the C locale.\<close>

definition isspace :: "char \<Rightarrow> bool" where
  "isspace c \<longleftrightarrow> c = SPACE \<or> (9 \<le> ord c \<and> ord c \<le> 13)"

lemma ord_less_256 [simp]: "ord c < 256"
  by (metis mod_less_divisor of_char_mod_256 zero_less_numeral)

lemma ord_inject: "ord c = ord d \<longleftrightarrow> c = d"
  by simp

section \<open>std::string searches\<close>

text \<open>
  \<open>find_from P s pos\<close> is the index of the first character at or after \<open>pos\<close> that satisfies
  \<open>P\<close>; \<^verbatim>\<open>npos\<close> is \<open>None\<close>. It models \<^verbatim>\<open>find\<close> of one character and the
  \<^verbatim>\<open>find_first_of\<close> family.
\<close>

function find_from :: "(char \<Rightarrow> bool) \<Rightarrow> string \<Rightarrow> nat \<Rightarrow> nat option" where
  "find_from P s pos =
     (if pos < length s then if P (s ! pos) then Some pos else find_from P s (Suc pos) else None)"
  by pat_completeness auto
termination
  by (relation "measure (\<lambda>(P, s, pos). length s - pos)") auto

declare find_from.simps [simp del]

lemma find_from_Some:
  "find_from P s pos = Some k \<Longrightarrow>
     pos \<le> k \<and> k < length s \<and> P (s ! k) \<and> (\<forall>j. pos \<le> j \<and> j < k \<longrightarrow> \<not> P (s ! j))"
proof (induction P s pos rule: find_from.induct)
  case (1 P s pos)
  show ?case
  proof (cases "pos < length s \<and> \<not> P (s ! pos)")
    case True
    with "1.prems" have "find_from P s (Suc pos) = Some k"
      by (simp add: find_from.simps [of P s pos])
    with "1.IH" True show ?thesis
      by (metis Suc_leD Suc_leI le_neq_implies_less)
  next
    case False
    with "1.prems" show ?thesis
      by (auto simp: find_from.simps [of P s pos] split: if_splits)
  qed
qed

lemma find_from_None:
  "find_from P s pos = None \<longleftrightarrow> (\<forall>j. pos \<le> j \<and> j < length s \<longrightarrow> \<not> P (s ! j))"
proof (induction P s pos rule: find_from.induct)
  case (1 P s pos)
  show ?case
  proof (cases "pos < length s \<and> \<not> P (s ! pos)")
    case True
    with "1.IH" have "find_from P s pos = None \<longleftrightarrow>
        (\<forall>j. Suc pos \<le> j \<and> j < length s \<longrightarrow> \<not> P (s ! j))"
      by (simp add: find_from.simps [of P s pos])
    also have "\<dots> \<longleftrightarrow> (\<forall>j. pos \<le> j \<and> j < length s \<longrightarrow> \<not> P (s ! j))"
      using True by (metis Suc_leD Suc_leI le_neq_implies_less)
    finally show ?thesis .
  next
    case False
    then show ?thesis
      by (auto simp: find_from.simps [of P s pos])
  qed
qed

lemma find_from_eqI:
  assumes "pos \<le> k" "k < length s" "P (s ! k)" "\<And>j. pos \<le> j \<Longrightarrow> j < k \<Longrightarrow> \<not> P (s ! j)"
  shows "find_from P s pos = Some k"
proof (cases "find_from P s pos")
  case None
  with assms show ?thesis by (simp add: find_from_None)
next
  case (Some m)
  from find_from_Some [OF this] assms show ?thesis
    by (metis Some linorder_neqE_nat)
qed

abbreviation find_char :: "char \<Rightarrow> string \<Rightarrow> nat \<Rightarrow> nat option" where
  "find_char c \<equiv> find_from ((=) c)"

text \<open>\<^verbatim>\<open>s.substr(pos, len)\<close> for \<open>pos\<close> inside the string.\<close>

definition substr :: "string \<Rightarrow> nat \<Rightarrow> nat \<Rightarrow> string" where
  "substr s pos len = take len (drop pos s)"

section \<open>Machine integers and their bytes\<close>

type_synonym byte = "8 word"
type_synonym int16 = "16 word"
type_synonym int32 = "32 word"
type_synonym int64 = "64 word"

text \<open>
  \<open>nat_to_le n x\<close> is the little-endian representation of \<open>x\<close> in \<open>n\<close> bytes, and \<open>le_to_nat\<close>
  reads one back.
\<close>

fun nat_to_le :: "nat \<Rightarrow> nat \<Rightarrow> byte list" where
  "nat_to_le 0 x = []"
| "nat_to_le (Suc n) x = of_nat x # nat_to_le n (x div 256)"

fun le_to_nat :: "byte list \<Rightarrow> nat" where
  "le_to_nat [] = 0"
| "le_to_nat (b # bs) = unat b + 256 * le_to_nat bs"

lemma length_nat_to_le [simp]: "length (nat_to_le n x) = n"
  by (induction n arbitrary: x) auto

lemma nat_to_le_4: "nat_to_le 4 x = [of_nat x, of_nat (x div 256), of_nat (x div 256 div 256), of_nat (x div 256 div 256 div 256)]"
proof -
  have "(4 :: nat) = Suc (Suc (Suc (Suc 0)))" by simp
  then show ?thesis by (simp only: nat_to_le.simps)
qed

lemma le_to_nat_to_le: "le_to_nat (nat_to_le n x) = x mod 256 ^ n"
proof (induction n arbitrary: x)
  case 0
  then show ?case by simp
next
  case (Suc n)
  have "x mod (256 * 256 ^ n) = 256 * (x div 256 mod 256 ^ n) + x mod 256"
    by (rule mod_mult2_eq)
  with Suc show ?case by (simp add: unat_of_nat)
qed

lemma unat_byte_less [simp]: "unat (b :: byte) < 256"
  using unsigned_less [of b, where ?'a = nat] by simp

lemma uint_byte_simps [simp]:
  "255 < uint (x :: byte) \<longleftrightarrow> False"
  "uint x < 1 \<longleftrightarrow> x = 0"
  "uint x < 0 \<longleftrightarrow> False"
proof -
  have u: "uint x < 256" "0 \<le> uint x" "uint x = 0 \<longleftrightarrow> x = 0"
    using unsigned_less [of x, where ?'a = int] by (simp_all add: uint_0_iff)
  then show "255 < uint x \<longleftrightarrow> False" "uint x < 0 \<longleftrightarrow> False" by auto
  have "uint x < 1 \<longleftrightarrow> uint x = 0" using u by linarith
  then show "uint x < 1 \<longleftrightarrow> x = 0" using u by simp
qed

lemma le_to_nat_less: "le_to_nat bs < 256 ^ length bs"
proof (induction bs)
  case Nil
  then show ?case by simp
next
  case (Cons b bs)
  have "unat b < 256" by simp
  then have "unat b + 256 * le_to_nat bs < 256 * 256 ^ length bs"
    using Cons by linarith
  then show ?case by simp
qed

lemma nat_to_le_to_nat: "nat_to_le (length bs) (le_to_nat bs) = bs"
proof (induction bs)
  case Nil
  then show ?case by simp
next
  case (Cons b bs)
  have b: "unat b < 256" by simp
  then have "(unat b + 256 * le_to_nat bs) div 256 = le_to_nat bs" by simp
  moreover have "(of_nat (unat b + 256 * le_to_nat bs) :: byte) = b"
  proof -
    have "unat (of_nat (unat b + 256 * le_to_nat bs) :: byte) = (unat b + 256 * le_to_nat bs) mod 256"
      by (simp only: unat_of_nat) simp
    also have "\<dots> = unat b" using b by (simp only: mod_mult_self2 mod_less)
    finally show ?thesis by (metis word_unat_eq_iff)
  qed
  ultimately show ?case using Cons by simp
qed

lemma sint_of_nat32: "n < 2 ^ 31 \<Longrightarrow> sint (of_nat n :: int32) = int n"
  by (simp add: sint_uint signed_take_bit_int_eq_self take_bit_nat_eq_self_iff uint_nat unat_of_nat)

section \<open>Lists\<close>

text \<open>Overwriting part of a byte array in place: \<^verbatim>\<open>memcpy(&b[pos], data, n)\<close>.\<close>

definition memcpy_at :: "'a list \<Rightarrow> nat \<Rightarrow> 'a list \<Rightarrow> 'a list" where
  "memcpy_at b pos data = take pos b @ data @ drop (pos + length data) b"

lemma length_memcpy_at [simp]:
  "pos + length data \<le> length b \<Longrightarrow> length (memcpy_at b pos data) = length b"
  by (simp add: memcpy_at_def)

lemma memcpy_at_append_end:
  "length fill = length data \<Longrightarrow> memcpy_at (b @ fill) (length b) data = b @ data"
  by (simp add: memcpy_at_def)

lemma memcpy_at_middle:
  "length old = length data \<Longrightarrow> pos = length pre \<Longrightarrow>
     memcpy_at (pre @ old @ post) pos data = pre @ data @ post"
  by (simp add: memcpy_at_def)

lemma take_drop_append:
  "take n (drop (length pre) (pre @ data @ post)) = data" if "length data = n"
  using that by simp

end
