(* ===== verification/StringUtil.thy ===== *)
theory StringUtil
  imports Prelude
begin

text \<open>
  The string utilities of \<^verbatim>\<open>cpp/src/IceUtil/StringUtil.cpp\<close>: escape sequences, splitting and
  joining, trimming, quotes, one-wildcard patterns and ASCII case conversion. The functions that
  work on positions of a string keep the positions of the source.
\<close>

section \<open>Escape sequences\<close>

text \<open>
  The exceptions: \<open>NotPrintable p n\<close> is the complaint of \<open>checkChar\<close> about the character of
  ordinal \<open>n\<close> at position \<open>p\<close>; \<open>StringAssert\<close> is a violated \<^verbatim>\<open>assert\<close>; the others are the
  remaining \<^verbatim>\<open>IllegalArgumentException\<close>s.
\<close>

datatype string_error =
    NotPrintable nat nat
  | TrailingBackslash
  | OctalOutOfRange nat
  | BadSpecial
  | StringAssert

function toOctalString_loop :: "nat \<Rightarrow> string \<Rightarrow> string" where
  "toOctalString_loop n s =
     (let s' = chr (48 + n mod 8) # s; n' = n div 8
      in if n' \<noteq> 0 then toOctalString_loop n' s' else s')"
  by pat_completeness auto
termination
  by (relation "measure fst") auto

declare toOctalString_loop.simps [simp del]

definition toOctalString :: "nat \<Rightarrow> string" where
  "toOctalString n = toOctalString_loop n []"

definition encodeChar :: "char \<Rightarrow> string \<Rightarrow> string \<Rightarrow> string" where
  "encodeChar b s special =
     (if b = BSLASH then s @ [BSLASH, BSLASH]
      else if b = SQUOTE then s @ [BSLASH, SQUOTE]
      else if b = DQUOTE then s @ [BSLASH, DQUOTE]
      else if b = BACKSP then s @ [BSLASH, CHR ''b'']
      else if b = FORMFD then s @ [BSLASH, CHR ''f'']
      else if b = NEWLN then s @ [BSLASH, CHR ''n'']
      else if b = CARRET then s @ [BSLASH, CHR ''r'']
      else if b = HTAB then s @ [BSLASH, CHR ''t'']
      else if \<not> (32 \<le> ord b \<and> ord b \<le> 126) then
        (let octal = toOctalString (ord b)
         in s @ [BSLASH] @ replicate (3 - length octal) (CHR ''0'') @ octal)
      else if b \<in> set special then s @ [BSLASH, b]
      else s @ [b])"

fun escapeString_loop :: "string \<Rightarrow> string \<Rightarrow> string \<Rightarrow> string" where
  "escapeString_loop [] special result = result"
| "escapeString_loop (c # cs) special result =
     escapeString_loop cs special (encodeChar c result special)"

definition escapeString :: "string \<Rightarrow> string \<Rightarrow> string_error + string" where
  "escapeString s special =
     (if \<exists>c \<in> set special. ord c < 32 \<or> ord c > 126 then Inl BadSpecial
      else Inr (escapeString_loop s special []))"

definition checkChar :: "string \<Rightarrow> nat \<Rightarrow> string_error + char" where
  "checkChar s pos =
     (let c = s ! pos
      in if \<not> (32 \<le> ord c \<and> ord c \<le> 126) then Inl (NotPrintable pos (ord c)) else Inr c)"

text \<open>
  The loop over at most three octal digits; it returns the value and the position after the
  last digit. A character below \<open>0\<close> or above \<open>7\<close> ends it.
\<close>

function octal_loop :: "string \<Rightarrow> nat \<Rightarrow> nat \<Rightarrow> nat \<Rightarrow> nat \<Rightarrow> nat \<times> nat" where
  "octal_loop s end j start val =
     (if j < 3 \<and> start < end then
        (let charVal = int (ord (s ! start)) - 48
         in if charVal < 0 \<or> charVal > 7 then (val, start)
            else octal_loop s end (Suc j) (Suc start) (val * 8 + nat charVal))
      else (val, start))"
  by pat_completeness auto
termination
  by (relation "measure (\<lambda>(s, end, j, start, val). 3 - j)") auto

declare octal_loop.simps [simp del]

definition decodeChar :: "string \<Rightarrow> nat \<Rightarrow> nat \<Rightarrow> string_error + (char \<times> nat)" where
  "decodeChar s start end =
     (if \<not> start < end \<or> \<not> end \<le> length s then Inl StringAssert
      else if s ! start \<noteq> BSLASH then
        bindE (checkChar s start) (\<lambda>c. Inr (c, start + 1))
      else if start + 1 = end then Inl TrailingBackslash
      else
        (let d = s ! (start + 1)
         in if d = BSLASH \<or> d = SQUOTE \<or> d = DQUOTE then Inr (d, start + 2)
            else if d = CHR ''b'' then Inr (BACKSP, start + 2)
            else if d = CHR ''f'' then Inr (FORMFD, start + 2)
            else if d = CHR ''n'' then Inr (NEWLN, start + 2)
            else if d = CHR ''r'' then Inr (CARRET, start + 2)
            else if d = CHR ''t'' then Inr (HTAB, start + 2)
            else if d \<in> set ''01234567'' then
              (let (val, next) = octal_loop s end 0 (start + 1) 0
               in if val > 255 then Inl (OctalOutOfRange val) else Inr (chr val, next))
            else bindE (checkChar s (start + 1)) (\<lambda>c. Inr (c, start + 2))))"

lemma octal_loop_le: "start \<le> snd (octal_loop s end j start val)"
proof (induction s "end" j start val rule: octal_loop.induct)
  case (1 s "end" j start val)
  show ?case
  proof (cases "j < 3 \<and> start < end \<and> 48 \<le> ord (s ! start) \<and> ord (s ! start) \<le> 55")
    case True
    have "Suc start \<le> snd (octal_loop s end (Suc j) (Suc start) (val * 8 + nat (int (ord (s ! start)) - 48)))"
      by (rule "1.IH") (use True in auto)
    with True show ?thesis
      by (subst octal_loop.simps) (auto simp: Let_def)
  next
    case False
    then show ?thesis
      by (subst octal_loop.simps) (auto simp: Let_def)
  qed
qed

lemma decodeChar_progress:
  assumes "decodeChar s start end = Inr (c, next)"
  shows "start < next"
  using assms octal_loop_le [of "start + 1" s "end" 0 0]
  by (auto simp: decodeChar_def Let_def bind_Inr_convs split: if_splits prod.splits)

function decodeString :: "string \<Rightarrow> nat \<Rightarrow> nat \<Rightarrow> string \<Rightarrow> string_error + string" where
  "decodeString s start end sb =
     (if start < end then
        (case decodeChar s start end of
           Inl e \<Rightarrow> Inl e
         | Inr (c, next) \<Rightarrow> decodeString s next end (sb @ [c]))
      else Inr sb)"
  by pat_completeness auto
termination
  by (relation "measure (\<lambda>(s, start, end, sb). end - start)") (auto dest!: decodeChar_progress)

declare decodeString.simps [simp del]

definition unescapeString :: "string \<Rightarrow> nat \<Rightarrow> nat \<Rightarrow> string_error + string" where
  "unescapeString s start end =
     (if \<not> (start \<le> end \<and> end \<le> length s) then Inl StringAssert
      else decodeString s start end [])"

section \<open>Splitting, joining, trimming\<close>

text \<open>The quote character \<^verbatim>\<open>'\0'\<close>, not inside quotes, is \<open>None\<close>.\<close>

function splitString_loop ::
  "string \<Rightarrow> string \<Rightarrow> nat \<Rightarrow> char option \<Rightarrow> string \<Rightarrow> string list \<Rightarrow> bool \<times> string list" where
  "splitString_loop str delim pos quoteChar elt result =
     (if pos < length str then
        (if quoteChar = None \<and> (str ! pos = DQUOTE \<or> str ! pos = SQUOTE) then
           splitString_loop str delim (pos + 1) (Some (str ! pos)) elt result
         else if quoteChar = None \<and> str ! pos = BSLASH \<and> pos + 1 < length str \<and>
             (str ! (pos + 1) = SQUOTE \<or> str ! (pos + 1) = DQUOTE) then
           splitString_loop str delim (pos + 2) quoteChar (elt @ [str ! (pos + 1)]) result
         else if quoteChar \<noteq> None \<and> str ! pos = BSLASH \<and> pos + 1 < length str \<and>
             Some (str ! (pos + 1)) = quoteChar then
           splitString_loop str delim (pos + 2) quoteChar (elt @ [str ! (pos + 1)]) result
         else if quoteChar \<noteq> None \<and> Some (str ! pos) = quoteChar then
           splitString_loop str delim (pos + 1) None elt result
         else if str ! pos \<in> set delim \<and> quoteChar = None then
           (if elt \<noteq> [] then splitString_loop str delim (pos + 1) quoteChar [] (result @ [elt])
            else splitString_loop str delim (pos + 1) quoteChar elt result)
         else splitString_loop str delim (pos + 1) quoteChar (elt @ [str ! pos]) result)
      else (quoteChar = None, if elt \<noteq> [] then result @ [elt] else result))"
  by pat_completeness auto
termination
  by (relation "measure (\<lambda>(str, delim, pos, q, elt, result). length str - pos)") auto

declare splitString_loop.simps [simp del]

definition splitString :: "string \<Rightarrow> string \<Rightarrow> string list \<Rightarrow> bool \<times> string list" where
  "splitString str delim result = splitString_loop str delim 0 None [] result"

fun joinString_loop :: "string list \<Rightarrow> string \<Rightarrow> bool \<Rightarrow> string \<Rightarrow> string" where
  "joinString_loop [] delimiter first out = out"
| "joinString_loop (v # vs) delimiter first out =
     joinString_loop vs delimiter False ((if first then out else out @ delimiter) @ v)"

definition joinString :: "string list \<Rightarrow> string \<Rightarrow> string" where
  "joinString values delimiter = joinString_loop values delimiter True []"

fun find_last :: "(char \<Rightarrow> bool) \<Rightarrow> string \<Rightarrow> nat \<Rightarrow> nat option" where
  "find_last P s 0 = None"
| "find_last P s (Suc n) = (if P (s ! n) then Some n else find_last P s n)"

definition trim_delim :: string where
  "trim_delim = [SPACE, HTAB, CARRET, NEWLN]"

definition trim :: "string \<Rightarrow> string" where
  "trim s =
     (case find_from (\<lambda>c. c \<notin> set trim_delim) s 0 of
        None \<Rightarrow> []
      | Some beg \<Rightarrow>
          (case find_last (\<lambda>c. c \<notin> set trim_delim) s (length s) of
             None \<Rightarrow> []
           | Some end \<Rightarrow> substr s beg (end - beg + 1)))"

section \<open>Quotes and patterns\<close>

text \<open>The result \<open>None\<close> is \<^verbatim>\<open>npos\<close>; reading the position after the last character gives \<open>NUL\<close>.\<close>

function checkQuote_loop :: "string \<Rightarrow> char \<Rightarrow> nat \<Rightarrow> nat option" where
  "checkQuote_loop s quoteChar start =
     (if start < length s then
        (case find_char quoteChar s start of
           None \<Rightarrow> None
         | Some pos \<Rightarrow>
             if s ! (pos - 1) \<noteq> BSLASH then Some pos else checkQuote_loop s quoteChar (pos + 1))
      else None)"
  by pat_completeness auto
termination
  by (relation "measure (\<lambda>(s, q, start). length s - start)") (auto dest!: find_from_Some)

declare checkQuote_loop.simps [simp del]

definition checkQuote :: "string \<Rightarrow> nat \<Rightarrow> nat option" where
  "checkQuote s start =
     (let quoteChar = (if start < length s then s ! start else CHR 0x00)
      in if quoteChar = DQUOTE \<or> quoteChar = SQUOTE then checkQuote_loop s quoteChar (start + 1)
         else Some 0)"

definition match :: "string \<Rightarrow> string \<Rightarrow> bool \<Rightarrow> string_error + bool" where
  "match s pat emptyMatch =
     (if s = [] \<or> pat = [] then Inl StringAssert
      else
        (case find_char (CHR ''*'') pat 0 of
           None \<Rightarrow> Inr (s = pat)
         | Some beginIndex \<Rightarrow>
             if beginIndex > length s \<or> substr s 0 beginIndex \<noteq> substr pat 0 beginIndex then Inr False
             else
               (let endLength = length pat - beginIndex - 1
                in if endLength > length s then Inr False
                   else
                     (let endIndex = length s - endLength
                      in if endIndex < beginIndex \<or> (\<not> emptyMatch \<and> endIndex = beginIndex) then Inr False
                         else if substr s endIndex (length s)
                             \<noteq> substr pat (beginIndex + 1) (length pat) then Inr False
                         else Inr True))))"

section \<open>Case conversion and character classes\<close>

definition tolower_ascii :: "char \<Rightarrow> char" where
  "tolower_ascii c = (if 65 \<le> ord c \<and> ord c \<le> 90 then chr (ord c + 32) else c)"

definition toupper_ascii :: "char \<Rightarrow> char" where
  "toupper_ascii c = (if 97 \<le> ord c \<and> ord c \<le> 122 then chr (ord c - 32) else c)"

definition toLower :: "string \<Rightarrow> string" where
  "toLower s = map (\<lambda>c. if ord c < 128 then tolower_ascii c else c) s"

definition toUpper :: "string \<Rightarrow> string" where
  "toUpper s = map (\<lambda>c. if ord c < 128 then toupper_ascii c else c) s"

definition isAlpha :: "char \<Rightarrow> bool" where
  "isAlpha c \<longleftrightarrow> (97 \<le> ord c \<and> ord c \<le> 122) \<or> (65 \<le> ord c \<and> ord c \<le> 90)"

definition isDigit :: "char \<Rightarrow> bool" where
  "isDigit c \<longleftrightarrow> 48 \<le> ord c \<and> ord c \<le> 57"

definition removeWhitespace :: "string \<Rightarrow> string" where
  "removeWhitespace s = filter (\<lambda>c. \<not> isspace c) s"

section \<open>Escaping and unescaping are inverse\<close>

lemma encodeChar_append: "encodeChar b s special = s @ encodeChar b [] special"
  by (simp add: encodeChar_def Let_def)

text \<open>The escape sequences of a string, one after the other.\<close>

abbreviation escapes :: "string \<Rightarrow> string \<Rightarrow> string" where
  "escapes special s \<equiv> concat (map (\<lambda>c. encodeChar c [] special) s)"

lemma escapeString_loop_eq: "escapeString_loop s special result = result @ escapes special s"
proof (induction s arbitrary: result)
  case Nil
  then show ?case by simp
next
  case (Cons c s)
  show ?case by (simp add: Cons encodeChar_append [of c result])
qed

text \<open>The characters that would be misread after a backslash.\<close>

definition safe_special :: "string \<Rightarrow> bool" where
  "safe_special special \<longleftrightarrow> (\<forall>c \<in> set special. printable c \<and> c \<notin> set ''bfnrt01234567'')"

lemma escapeString_Inr:
  "safe_special special \<Longrightarrow> escapeString s special = Inr (escapes special s)"
proof -
  assume "safe_special special"
  then have "\<forall>c \<in> set special. 32 \<le> ord c \<and> ord c \<le> 126"
    unfolding safe_special_def printable_def by blast
  then have "\<not> (\<exists>c \<in> set special. ord c < 32 \<or> ord c > 126)"
    by (simp add: not_less)
  then show ?thesis by (simp add: escapeString_def escapeString_loop_eq)
qed

lemma octal_padded:
  assumes "n < 256"
  shows "replicate (3 - length (toOctalString n)) (CHR ''0'') @ toOctalString n
    = [chr (48 + n div 64), chr (48 + n div 8 mod 8), chr (48 + n mod 8)]"
proof -
  have zero: "chr 48 = CHR ''0''" by code_simp
  consider "n < 8" | "8 \<le> n" "n < 64" | "64 \<le> n" by linarith
  then show ?thesis
  proof cases
    case 1
    moreover have "replicate 2 (CHR ''0'') = [CHR ''0'', CHR ''0'']"
      by (simp add: numeral_2_eq_2)
    ultimately show ?thesis
      by (simp add: toOctalString_def toOctalString_loop.simps [of n] zero)
  next
    case 2
    then have "n div 8 < 8" "n div 8 \<noteq> 0" "n div 64 = 0" by auto
    then show ?thesis
      by (simp add: toOctalString_def toOctalString_loop.simps [of n]
          toOctalString_loop.simps [of "n div 8"] zero)
  next
    case 3
    have d: "n div 8 div 8 = n div 64" by (simp add: div_mult2_eq)
    from 3 assms have "n div 8 \<noteq> 0" "n div 64 \<noteq> 0" "n div 64 < 8" by auto
    then show ?thesis
      by (simp add: toOctalString_def toOctalString_loop.simps [of n]
          toOctalString_loop.simps [of "n div 8"] toOctalString_loop.simps [of "n div 64"] d)
  qed
qed

lemma octal_value: "(n div 64 * 8 + n div 8 mod 8) * 8 + n mod 8 = (n :: nat)"
proof -
  have "n div 64 = n div 8 div 8" by (simp add: div_mult2_eq)
  then show ?thesis by simp
qed

lemma octal_loop_three:
  assumes "s ! start = chr (48 + a)" "s ! (start + 1) = chr (48 + b)" "s ! (start + 2) = chr (48 + c)"
    and "a < 8" "b < 8" "c < 8" "start + 3 \<le> end"
  shows "octal_loop s end 0 start 0 = ((a * 8 + b) * 8 + c, start + 3)"
  using assms
  by (simp add: octal_loop.simps [of s "end" 0] octal_loop.simps [of s "end" "Suc 0"]
      octal_loop.simps [of s "end" "Suc (Suc 0)"] octal_loop.simps [of s "end" "Suc (Suc (Suc 0))"]
      Let_def)

lemma decode_encodeChar:
  assumes special: "safe_special special"
    and s: "s = pre @ encodeChar c [] special @ post"
    and e: "length pre + length (encodeChar c [] special) \<le> e" "e \<le> length s"
  shows "decodeChar s (length pre) e = Inr (c, length pre + length (encodeChar c [] special))"
proof -
  let ?n = "ord c"
  have one: "s ! (length pre + 1) = encodeChar c [] special ! 1" if "1 < length (encodeChar c [] special)"
    using that s by (simp add: nth_append)
  define N where "N = {BSLASH, SQUOTE, DQUOTE, BACKSP, FORMFD, NEWLN, CARRET, HTAB}"
  consider (named) "c \<in> N" | (octal) "c \<notin> N" "\<not> printable c"
    | (special) "c \<notin> N" "printable c" "c \<in> set special"
    | (plain) "c \<notin> N" "printable c" "c \<notin> set special"
    by blast
  then show ?thesis
  proof cases
    case named
    then show ?thesis using s e unfolding N_def
      by (elim insertE emptyE) (simp_all add: encodeChar_def decodeChar_def nth_append)
  next
    case octal
    then have enc: "encodeChar c [] special =
        [BSLASH, chr (48 + ?n div 64), chr (48 + ?n div 8 mod 8), chr (48 + ?n mod 8)]"
      using octal_padded [of ?n] by (simp add: encodeChar_def printable_def Let_def N_def)
    have d: "?n div 64 < 8" using ord_less_256 [of c] by linarith
    have "octal_loop s e 0 (length pre + 1) 0 = (?n, length pre + 4)"
      using octal_loop_three [of s "length pre + 1" "?n div 64" "?n div 8 mod 8" "?n mod 8" e]
        d s e enc octal_value [of ?n] by (simp add: nth_append)
    moreover have "s ! (length pre + 1) = chr (48 + ?n div 64)"
      using one enc by simp
    moreover have "chr (48 + ?n div 64) \<in> set ''01234567''"
    proof -
      from d have "?n div 64 \<in> {0, 1, 2, 3, 4, 5, 6, 7}" by auto
      then show ?thesis by (elim insertE emptyE) (simp_all, code_simp+)
    qed
    moreover have "\<not> 255 < ?n" using ord_less_256 [of c] by linarith
    ultimately show ?thesis using s e enc
      by (auto simp: decodeChar_def)
  next
    case special
    then have enc: "encodeChar c [] special = [BSLASH, c]" and "s ! (length pre + 1) = c"
      using one by (simp_all add: encodeChar_def printable_def N_def)
    moreover from special(3) assms(1) have "c \<notin> set ''bfnrt01234567''"
      unfolding safe_special_def by blast
    ultimately show ?thesis using special(1,2) s e
      by (simp add: decodeChar_def checkChar_def printable_def N_def)
  next
    case plain
    then show ?thesis using s e
      by (simp add: encodeChar_def decodeChar_def checkChar_def printable_def N_def)
  qed
qed

lemma decodeString_escapes:
  assumes "safe_special special"
  shows "decodeString (pre @ escapes special s @ post) (length pre)
      (length pre + length (escapes special s)) sb = Inr (sb @ s)"
proof (induction s arbitrary: pre sb)
  case Nil
  then show ?case by (simp add: decodeString.simps)
next
  case (Cons c s)
  let ?c = "encodeChar c [] special"
  let ?t = "pre @ escapes special (c # s) @ post"
  let ?e = "length pre + length (escapes special (c # s))"
  have "?c \<noteq> []" by (simp add: encodeChar_def Let_def)
  then have "length pre < ?e" by simp
  moreover have "decodeChar ?t (length pre) ?e = Inr (c, length pre + length ?c)"
    by (rule decode_encodeChar [OF assms, where post = "escapes special s @ post"]) simp_all
  ultimately have "decodeString ?t (length pre) ?e sb
      = decodeString ?t (length pre + length ?c) ?e (sb @ [c])"
    by (subst decodeString.simps) simp
  also have "\<dots> = Inr (sb @ c # s)"
    using Cons [of "pre @ ?c" "sb @ [c]"] by (simp add: add.assoc)
  finally show ?case .
qed

text \<open>
  C32. \<open>unescapeString\<close> undoes \<open>escapeString\<close>: for special characters that are printable and do not
  collide with the letters and digits of the escape sequences, escaping never fails and
  unescaping the whole result gives back the original string, whatever its bytes.
\<close>

theorem unescape_escapeString:
  assumes "safe_special special"
  shows "\<exists>t. escapeString s special = Inr t \<and> unescapeString t 0 (length t) = Inr s"
  using decodeString_escapes [OF assms, of "[]" s "[]" "[]"]
  by (simp add: escapeString_Inr [OF assms] unescapeString_def)

lemma safe_special_slash: "safe_special ''/''"
  by (simp add: safe_special_def printable_def)

theorem unescape_escapeString_witness:
  "safe_special ''/'' \<and> (\<exists>t. escapeString [CHR ''a'', CHR ''/'', BSLASH, CHR 0xE9] ''/'' = Inr t \<and>
     unescapeString t 0 (length t) = Inr [CHR ''a'', CHR ''/'', BSLASH, CHR 0xE9])"
  using unescape_escapeString [OF safe_special_slash] safe_special_slash by simp

lemma printable_encodeChar:
  assumes "safe_special special" "d \<in> set (encodeChar c [] special)"
  shows "printable d"
proof -
  have digit: "printable (chr (48 + n))" if "n < 8" for n
    using that by (simp add: printable_def)
  have oct: "printable d" if "d \<in> set (replicate (3 - length (toOctalString (ord c))) (CHR ''0'') @ toOctalString (ord c))"
  proof -
    have "ord c div 64 < 8" using ord_less_256 [of c] by linarith
    with that show ?thesis
      unfolding octal_padded [OF ord_less_256] using digit by auto
  qed
  show ?thesis
    using assms(2) oct
    by (auto simp: encodeChar_def Let_def printable_def split: if_splits)
qed

text \<open>
  The output of \<open>escapeString\<close> is printable ASCII: every character it produces is in the
  range 32 to 126, so the string can be written to a log or a configuration file.
\<close>

theorem escapeString_printable:
  assumes "safe_special special" "escapeString s special = Inr t"
  shows "list_all printable t"
  using assms printable_encodeChar by (auto simp: escapeString_Inr list_all_iff)

theorem escapeString_printable_witness:
  "escapeString [CHR 0x01, CHR ''/''] ''/'' = Inr (BSLASH # ''001'' @ [BSLASH, CHR ''/'']) \<and>
   list_all printable (BSLASH # ''001'' @ [BSLASH, CHR ''/''])"
proof -
  have "escapeString [CHR 0x01, CHR ''/''] ''/'' = Inr (BSLASH # ''001'' @ [BSLASH, CHR ''/''])"
    by code_simp
  with escapeString_printable [OF safe_special_slash this] show ?thesis by blast
qed

text \<open>
  A special character that is one of the escape letters is read back as a control character:
  the round trip really needs its hypothesis.
\<close>

lemma unescape_escapeString_collision:
  "escapeString ''n'' ''n'' = Inr [BSLASH, CHR ''n'']"
  "unescapeString [BSLASH, CHR ''n''] 0 2 = Inr [NEWLN]"
  by (simp_all add: escapeString_def encodeChar_def unescapeString_def decodeString.simps decodeChar_def)

section \<open>Splitting\<close>

text \<open>Reference tokenizer for text without quotes: maximal runs of non-delimiters.\<close>

fun tokens :: "string \<Rightarrow> string \<Rightarrow> string \<Rightarrow> string list" where
  "tokens delim [] cur = (if cur = [] then [] else [cur])"
| "tokens delim (c # cs) cur =
     (if c \<in> set delim then (if cur = [] then tokens delim cs [] else cur # tokens delim cs [])
      else tokens delim cs (cur @ [c]))"

definition quote_free :: "string \<Rightarrow> bool" where
  "quote_free s \<longleftrightarrow> DQUOTE \<notin> set s \<and> SQUOTE \<notin> set s"

lemma splitString_loop_quote_free:
  assumes "quote_free str" "pos \<le> length str"
  shows "splitString_loop str delim pos None elt result
    = (True, result @ tokens delim (drop pos str) elt)"
  using assms(2)
proof (induction "length str - pos" arbitrary: pos elt result)
  case 0
  then show ?case by (simp add: splitString_loop.simps)
next
  case (Suc n)
  then have pos: "pos < length str" by simp
  have q: "str ! j \<noteq> DQUOTE \<and> str ! j \<noteq> SQUOTE" if "j < length str" for j
    using assms(1) nth_mem [OF that] by (auto simp: quote_free_def)
  have IH: "splitString_loop str delim (Suc pos) None elt result
      = (True, result @ tokens delim (drop (Suc pos) str) elt)" for elt result
    by (rule Suc.hyps(1)) (use Suc.hyps(2) pos in auto)
  have d: "drop pos str = str ! pos # drop (Suc pos) str"
    using pos by (simp add: Cons_nth_drop_Suc)
  show ?case
    using pos q [OF pos] q [of "Suc pos"]
    by (subst splitString_loop.simps) (auto simp: IH d)
qed

text \<open>
  On text without quote characters \<open>splitString\<close> is the reference tokenizer: it appends to the
  result exactly the maximal runs of non-delimiters, in order, and reports balanced quotes.
\<close>

theorem splitString_tokens:
  assumes "quote_free str"
  shows "splitString str delim result = (True, result @ tokens delim str [])"
  using splitString_loop_quote_free [OF assms, of 0] by (simp add: splitString_def)

theorem splitString_tokens_witness:
  "quote_free ''a,, b'' \<and> splitString ''a,, b'' '', '' [] = (True, [''a'', ''b''])"
  using splitString_tokens [of "''a,, b''" "'', ''" "[]"] by (simp add: quote_free_def)

lemma tokens_append:
  assumes "set w \<inter> set delim = {}" "w @ cur \<noteq> []"
  shows "tokens delim (w @ rest) cur = tokens delim rest (cur @ w)"
  using assms
proof (induction w arbitrary: cur)
  case Nil
  then show ?case by simp
next
  case (Cons c w)
  then show ?case by simp
qed

definition plain_word :: "string \<Rightarrow> string \<Rightarrow> bool" where
  "plain_word delim w \<longleftrightarrow> w \<noteq> [] \<and> set w \<inter> set delim = {} \<and> quote_free w"

lemma joinString_loop_eq:
  "joinString_loop vs delimiter False out = out @ concat (map (\<lambda>w. delimiter @ w) vs)"
  by (induction vs arbitrary: out) simp_all

lemma joinString_Nil [simp]: "joinString [] delimiter = []"
  by (simp add: joinString_def)

lemma joinString_Cons:
  "joinString (v # vs) delimiter = v @ concat (map (\<lambda>w. delimiter @ w) vs)"
  by (simp add: joinString_def joinString_loop_eq)

lemma tokens_delimited:
  assumes "c \<in> set delim" "list_all (plain_word delim) ws" "plain_word delim cur"
  shows "tokens delim (concat (map (\<lambda>w. [c] @ w) ws)) cur = cur # ws"
  using assms(2,3)
proof (induction ws arbitrary: cur)
  case Nil
  then show ?case by (simp add: plain_word_def)
next
  case (Cons w ws)
  then have "tokens delim (concat (map (\<lambda>w. [c] @ w) ws)) w = w # ws"
    by simp
  with Cons.prems have "tokens delim (w @ concat (map (\<lambda>w. [c] @ w) ws)) [] = w # ws"
    by (simp add: tokens_append plain_word_def)
  with Cons.prems assms(1) show ?case
    by (simp add: plain_word_def)
qed

text \<open>
  Splitting undoes joining: a list of non-empty words without delimiters or quotes that is
  joined with one of the delimiters is recovered by \<open>splitString\<close>.
\<close>

theorem splitString_joinString:
  assumes "c \<in> set delim" "quote_free [c]" "list_all (plain_word delim) ws"
  shows "splitString (joinString ws [c]) delim [] = (True, ws)"
proof (cases ws)
  case Nil
  then show ?thesis by (simp add: splitString_tokens quote_free_def)
next
  case (Cons w ws')
  have "quote_free (joinString ws [c])"
    using assms(2,3) Cons
    by (auto simp: joinString_Cons quote_free_def list_all_iff plain_word_def)
  moreover have "tokens delim (joinString ws [c]) [] = ws"
    using Cons assms(3) tokens_delimited [OF assms(1), of ws' w]
    by (simp add: joinString_Cons tokens_append plain_word_def)
  ultimately show ?thesis by (simp add: splitString_tokens)
qed

theorem splitString_joinString_witness:
  "joinString [''tcp'', ''udp''] '','' = ''tcp,udp'' \<and>
   splitString (joinString [''tcp'', ''udp''] '','') '', '' [] = (True, [''tcp'', ''udp''])"
  using splitString_joinString [of "CHR '',''" "'', ''" "[''tcp'', ''udp'']"]
  by (simp add: quote_free_def plain_word_def joinString_Cons)

lemma splitString_loop_quoted:
  assumes "q \<notin> set w" "w = [] \<or> last w \<noteq> BSLASH" "q = DQUOTE \<or> q = SQUOTE" "k \<le> length w"
  shows "splitString_loop ([q] @ w @ [q]) delim (k + 1) (Some q) (take k w) result
    = (True, if w = [] then result else result @ [w])"
  using assms(4)
proof (induction "length w - k" arbitrary: k)
  case 0
  then have "k = length w" by simp
  with assms(3) show ?case
    by (subst splitString_loop.simps) (auto simp: splitString_loop.simps nth_append)
next
  case (Suc n)
  let ?s = "[q] @ w @ [q]"
  from Suc have k: "k < length w" by simp
  then have nk: "?s ! (k + 1) = w ! k" "w ! k \<noteq> q"
    using assms(1) by (auto simp: nth_append)
  have esc: "\<not> (w ! k = BSLASH \<and> ?s ! (k + 2) = q)"
  proof (cases "Suc k < length w")
    case True
    then have "?s ! (k + 2) = w ! Suc k" by (simp add: nth_append)
    with True assms(1) show ?thesis by auto
  next
    case False
    with k have "length w = Suc k" by simp
    then have "w ! k = last w" by (metis diff_Suc_1 last_conv_nth list.size(3) nat.distinct(1))
    with assms(2) k show ?thesis by auto
  qed
  have "splitString_loop ?s delim (k + 1) (Some q) (take k w) result
      = splitString_loop ?s delim (Suc k + 1) (Some q) (take (Suc k) w) result"
    using k nk esc assms(3)
    by (subst splitString_loop.simps) (auto simp: take_Suc_conv_app_nth)
  also have "\<dots> = (True, if w = [] then result else result @ [w])"
    by (rule Suc.hyps(1)) (use Suc.hyps(2) k in auto)
  finally show ?case .
qed

text \<open>
  Quotes protect delimiters: a quoted text that contains no copy of its quote character and
  does not end with a backslash is one element of the result, whatever delimiters it contains.
\<close>

theorem splitString_quoted:
  assumes "q = DQUOTE \<or> q = SQUOTE" "q \<notin> set w" "w \<noteq> []" "last w \<noteq> BSLASH"
  shows "splitString ([q] @ w @ [q]) delim [] = (True, [w])"
proof -
  have "splitString_loop ([q] @ w @ [q]) delim 0 None [] []
      = splitString_loop ([q] @ w @ [q]) delim (0 + 1) (Some q) (take 0 w) []"
    using assms(1) by (subst splitString_loop.simps) auto
  also have "\<dots> = (True, [w])"
    by (subst splitString_loop_quoted) (use assms in auto)
  finally show ?thesis by (simp add: splitString_def)
qed

theorem splitString_quoted_witness:
  "splitString ([DQUOTE] @ ''a, b'' @ [DQUOTE]) '', '' [] = (True, [''a, b''])"
  by (rule splitString_quoted) simp_all

section \<open>Trimming, quotes and patterns\<close>

lemma find_from_dropWhile:
  "find_from P s pos = (if \<exists>c \<in> set (drop pos s). P c
     then Some (pos + length (takeWhile (\<lambda>c. \<not> P c) (drop pos s))) else None)"
proof (induction P s pos rule: find_from.induct)
  case (1 P s pos)
  show ?case
  proof (cases "pos < length s")
    case True
    then have "drop pos s = s ! pos # drop (Suc pos) s" by (simp add: Cons_nth_drop_Suc)
    with True "1.IH" show ?thesis by (simp add: find_from.simps [of P s pos])
  next
    case False
    then show ?thesis by (simp add: find_from.simps [of P s pos])
  qed
qed

lemma find_last_takeWhile:
  "n \<le> length s \<Longrightarrow> find_last P s n = (if \<exists>c \<in> set (take n s). P c
     then Some (n - 1 - length (takeWhile (\<lambda>c. \<not> P c) (rev (take n s)))) else None)"
  by (induction n) (auto simp: take_Suc_conv_app_nth)

lemma length_takeWhile_lessI: "\<exists>x \<in> set xs. \<not> P x \<Longrightarrow> length (takeWhile P xs) < length xs"
  by (induction xs) auto

lemma takeWhile_length_drop: "drop (length (takeWhile P s)) s = dropWhile P s"
  by (metis append_eq_conv_conj takeWhile_dropWhile_id)

text \<open>
  \<open>trim\<close> removes exactly the leading and trailing blanks, tabs, carriage returns and line feeds.
\<close>

lemma trim_eq:
  "trim s = rev (dropWhile (\<lambda>c. c \<in> set trim_delim) (rev (dropWhile (\<lambda>c. c \<in> set trim_delim) s)))"
proof (cases "\<exists>c \<in> set s. c \<notin> set trim_delim")
  case False
  then show ?thesis
    by (auto simp: trim_def find_from_dropWhile dropWhile_eq_Nil_conv dest: set_dropWhileD)
next
  case True
  let ?w = "\<lambda>c. c \<in> set trim_delim"
  let ?b = "length (takeWhile ?w s)"
  let ?t = "length (takeWhile ?w (rev s))"
  obtain x where x: "x \<in> set s" "\<not> ?w x" using True by blast
  have t: "?t < length s" by (rule length_takeWhile_lessI [of "rev s", simplified]) (use x in auto)
  have split: "s = takeWhile ?w s @ dropWhile ?w s" by simp
  have ne: "\<exists>c \<in> set (dropWhile ?w s). \<not> ?w c"
    using x by (metis hd_dropWhile hd_in_set set_dropWhileD dropWhile_eq_Nil_conv)
  then obtain y where y: "y \<in> set (rev (dropWhile ?w s))" "\<not> ?w y" by auto
  have tw: "takeWhile ?w (rev s) = takeWhile ?w (rev (dropWhile ?w s))"
    by (subst split, unfold rev_append) (rule takeWhile_append1 [where P = ?w, OF y])
  have "trim s = take (length s - 1 - ?t - ?b + 1) (dropWhile ?w s)"
    using x by (auto simp: trim_def find_from_dropWhile find_last_takeWhile substr_def takeWhile_length_drop)
  also have "length s - 1 - ?t - ?b + 1 = length (dropWhile ?w s) - ?t"
  proof -
    have "length s = ?b + length (dropWhile ?w s)"
      by (metis length_append split)
    moreover have "?t < length (dropWhile ?w s)"
      using ne tw length_takeWhile_lessI [of "rev (dropWhile ?w s)" ?w] by auto
    ultimately show ?thesis by simp
  qed
  also have "take (length (dropWhile ?w s) - ?t) (dropWhile ?w s)
      = rev (drop ?t (rev (dropWhile ?w s)))"
    by (simp add: rev_drop)
  also have "\<dots> = rev (dropWhile ?w (rev (dropWhile ?w s)))"
    by (simp add: tw takeWhile_length_drop)
  finally show ?thesis .
qed

lemma find_char_split:
  assumes "c \<notin> set pre"
  shows "find_char c (pre @ c # post) 0 = Some (length pre)"
  by (rule find_from_eqI) (use assms in \<open>auto simp: nth_append\<close>)

lemma find_char_None: "find_char c s 0 = None \<longleftrightarrow> c \<notin> set s"
  by (auto simp: find_from_None in_set_conv_nth)

text \<open>
  Pattern matching: a pattern without a wildcard matches only itself, and a pattern whose first
  wildcard stands between \<open>pre\<close> and \<open>post\<close> matches the strings that extend \<open>pre\<close> to \<open>post\<close> with a
  middle part, which may be empty only if \<open>emptyMatch\<close> is set. A further star in \<open>post\<close> stands
  for itself, and the middle part may contain any character, periods included.
\<close>

theorem match_iff:
  assumes "s \<noteq> []" "CHR ''*'' \<notin> set pre"
  shows "(pre \<noteq> [] \<longrightarrow> match s pre emptyMatch = Inr (s = pre)) \<and>
    match s (pre @ CHR ''*'' # post) emptyMatch
      = Inr (\<exists>mid. s = pre @ mid @ post \<and> (mid \<noteq> [] \<or> emptyMatch))"
proof (intro conjI impI)
  show "match s pre emptyMatch = Inr (s = pre)" if "pre \<noteq> []"
    using that assms by (simp add: match_def find_char_None [THEN iffD2])
next
  let ?n = "length s - length post"
  have "match s (pre @ CHR ''*'' # post) emptyMatch
      = Inr (length pre + length post \<le> length s \<and> (length pre < ?n \<or> emptyMatch)
          \<and> take (length pre) s = pre \<and> drop ?n s = post)"
    using assms by (auto simp: match_def find_char_split substr_def Let_def)
  moreover have "(length pre + length post \<le> length s \<and> (length pre < ?n \<or> emptyMatch)
          \<and> take (length pre) s = pre \<and> drop ?n s = post)
      \<longleftrightarrow> (\<exists>mid. s = pre @ mid @ post \<and> (mid \<noteq> [] \<or> emptyMatch))" (is "?l \<longleftrightarrow> ?r")
  proof
    assume l: ?l
    let ?mid = "drop (length pre) (take ?n s)"
    have "s = take ?n s @ post" using l by (metis append_take_drop_id)
    also have "take ?n s = pre @ ?mid"
      using l by (metis add_le_imp_le_diff append_take_drop_id min.absorb1 take_take)
    finally have "s = pre @ ?mid @ post" by simp
    moreover have "?mid \<noteq> [] \<or> emptyMatch" using l by auto
    ultimately show ?r by blast
  qed auto
  ultimately show "match s (pre @ CHR ''*'' # post) emptyMatch
      = Inr (\<exists>mid. s = pre @ mid @ post \<and> (mid \<noteq> [] \<or> emptyMatch))"
    by simp
qed

theorem match_iff_witness:
  "match ''Ice.Default.Host'' ''Ice.*.Host'' False = Inr True \<and>
   match ''Ice.'' ''Ice.*'' False = Inr False"
  using match_iff [of "''Ice.Default.Host''" "''Ice.''" False "''.Host''"]
    match_iff [of "''Ice.''" "''Ice.''" False "[]"]
  by (auto intro: exI [of _ "''Default''"])

lemma checkQuote_loop_Some:
  "checkQuote_loop s q start = Some pos \<Longrightarrow>
     start \<le> pos \<and> pos < length s \<and> s ! pos = q \<and> s ! (pos - 1) \<noteq> BSLASH \<and>
     (\<forall>j. start \<le> j \<and> j < pos \<and> s ! j = q \<longrightarrow> s ! (j - 1) = BSLASH)"
proof (induction s q start rule: checkQuote_loop.induct)
  case (1 s q start)
  from "1.prems" obtain p where start: "start < length s" and p: "find_char q s start = Some p"
    by (auto simp: checkQuote_loop.simps [of s q start] split: if_splits option.splits)
  note fp = find_from_Some [OF p]
  show ?case
  proof (cases "s ! (p - 1) \<noteq> BSLASH")
    case True
    with "1.prems" start p have "pos = p" by (simp add: checkQuote_loop.simps [of s q start])
    with fp True show ?thesis by auto
  next
    case False
    with "1.prems" start p have "checkQuote_loop s q (p + 1) = Some pos"
      by (simp add: checkQuote_loop.simps [of s q start])
    from "1.IH" [OF start p False this] fp False show ?thesis
      by (metis Suc_eq_plus1 Suc_leI le_trans less_imp_le_nat linorder_not_le nat_less_le not_less_eq_eq)
  qed
qed

lemma checkQuote_loop_None:
  "checkQuote_loop s q start = None \<Longrightarrow> start \<le> j \<Longrightarrow> j < length s \<Longrightarrow> s ! j = q \<Longrightarrow>
     s ! (j - 1) = BSLASH"
proof (induction s q start rule: checkQuote_loop.induct)
  case (1 s q start)
  show ?case
  proof (cases "find_char q s start")
    case None
    with "1.prems" show ?thesis by (auto simp: find_from_None)
  next
    case (Some p)
    note fp = find_from_Some [OF this]
    from "1.prems" have start: "start < length s" by simp
    have "(if s ! (p - 1) \<noteq> BSLASH then Some p else checkQuote_loop s q (p + 1)) = None"
      using "1.prems"(1) Some start by (subst (asm) checkQuote_loop.simps) simp
    then have bs: "s ! (p - 1) = BSLASH" and rest: "checkQuote_loop s q (p + 1) = None"
      by (simp_all split: if_splits)
    consider "j < p" | "j = p" | "p + 1 \<le> j" by linarith
    then show ?thesis
    proof cases
      case 3
      with "1.IH" [OF start Some _ rest] bs "1.prems" show ?thesis by simp
    qed (use bs fp "1.prems" in auto)
  qed
qed

text \<open>The positions of the closing quotes: a copy of the quote character that no backslash precedes.\<close>

definition closes_quote :: "string \<Rightarrow> char \<Rightarrow> nat \<Rightarrow> nat \<Rightarrow> bool" where
  "closes_quote s q start pos \<longleftrightarrow>
     start < pos \<and> pos < length s \<and> s ! pos = q \<and> s ! (pos - 1) \<noteq> BSLASH"

text \<open>
  On a quoted position \<open>checkQuote\<close> returns the first closing quote, or \<^verbatim>\<open>npos\<close> when there is none;
  on a position that is not quoted it returns 0.
\<close>

theorem checkQuote_spec:
  assumes "start < length s"
  shows "(if s ! start = DQUOTE \<or> s ! start = SQUOTE then
       (case checkQuote s start of
          None \<Rightarrow> \<forall>j. \<not> closes_quote s (s ! start) start j
        | Some pos \<Rightarrow> closes_quote s (s ! start) start pos \<and>
            (\<forall>j < pos. \<not> closes_quote s (s ! start) start j))
     else checkQuote s start = Some 0)"
proof (cases "s ! start = DQUOTE \<or> s ! start = SQUOTE")
  case False
  with assms show ?thesis by (simp add: checkQuote_def)
next
  case True
  with assms have c: "checkQuote s start = checkQuote_loop s (s ! start) (start + 1)"
    by (simp add: checkQuote_def Let_def)
  show ?thesis
  proof (cases "checkQuote s start")
    case None
    with c checkQuote_loop_None [of s "s ! start" "start + 1"] True show ?thesis
      by (auto simp: closes_quote_def)
  next
    case (Some pos)
    from checkQuote_loop_Some [of s "s ! start" "start + 1" pos] Some c True show ?thesis
      by (auto simp: closes_quote_def)
  qed
qed

theorem checkQuote_spec_witness:
  "checkQuote [DQUOTE, CHR ''a'', BSLASH, DQUOTE, DQUOTE] 0 = Some 4 \<and>
   closes_quote [DQUOTE, CHR ''a'', BSLASH, DQUOTE, DQUOTE] DQUOTE 0 4"
proof -
  let ?s = "[DQUOTE, CHR ''a'', BSLASH, DQUOTE, DQUOTE]"
  have "checkQuote ?s 0 = Some 4" by code_simp
  with checkQuote_spec [of 0 ?s] show ?thesis by simp
qed

end
