(* ===== verification/InputUtil.thy ===== *)
theory InputUtil
  imports StringUtil
begin

text \<open>
  Number parsing of \<^verbatim>\<open>cpp/src/IceUtil/InputUtil.cpp\<close>: the portable replacement of \<^verbatim>\<open>strtoll\<close> that the
  MinGW build uses, and \<open>stringToInt64\<close> over whichever conversion the platform has. An \<^verbatim>\<open>Int64\<close> is
  an integer whose arithmetic wraps (\<open>wrap64\<close>). A C string is the list of its characters before the
  terminating \<open>NUL\<close>, and a pointer into it is an index.
\<close>

section \<open>Definitions\<close>

datatype errno = NoError | EINVAL | ERANGE

definition I64_MAX :: int where "I64_MAX = 2 ^ 63 - 1"
definition I64_MIN :: int where "I64_MIN = - (2 ^ 63)"

definition wrap64 :: "int \<Rightarrow> int" where
  "wrap64 x = (x + 2 ^ 63) mod 2 ^ 64 - 2 ^ 63"

definition allDigits :: string where
  "allDigits = ''0123456789ABCDEFGHIJKLMNOPQRSTUVWXYZ''"

definition digitVal :: "int list" where
  "digitVal = [0, 1, 2, 3, 4, 5, 6, 7, 8, 9, 100, 100, 100, 100, 100, 100, 100,
     10, 11, 12, 13, 14, 15, 16, 17, 18, 19, 20, 21, 22, 23, 24, 25, 26, 27, 28, 29,
     30, 31, 32, 33, 34, 35]"

definition cstr_at :: "string \<Rightarrow> nat \<Rightarrow> char" where
  "cstr_at s i = (if i < length s then s ! i else CHR 0x00)"

definition valid_digit :: "nat \<Rightarrow> char \<Rightarrow> bool" where
  "valid_digit base c \<longleftrightarrow> toupper_ascii c \<in> set (take base allDigits)"

definition digit_of :: "char \<Rightarrow> int" where
  "digit_of c = digitVal ! (ord (toupper_ascii c) - 48)"

function skip_spaces :: "string \<Rightarrow> nat \<Rightarrow> nat" where
  "skip_spaces s i =
     (if i < length s \<and> cstr_at s i \<noteq> CHR 0x00 \<and> isspace (cstr_at s i) then skip_spaces s (i + 1) else i)"
  by pat_completeness auto
termination
  by (relation "measure (\<lambda>(s, i). length s - i)") auto

declare skip_spaces.simps [simp del]

function digits_loop ::
  "string \<Rightarrow> nat \<Rightarrow> int \<Rightarrow> nat \<Rightarrow> int \<Rightarrow> bool \<Rightarrow> bool \<Rightarrow> int \<times> bool \<times> bool \<times> nat" where
  "digits_loop s base sign i result overflow digitFound =
     (if i < length s \<and> cstr_at s i \<noteq> CHR 0x00 \<and> valid_digit base (cstr_at s i) then
        (if \<not> overflow then
           (let digit = digit_of (cstr_at s i)
            in if result < I64_MAX div int base then
                 digits_loop s base sign (i + 1) (wrap64 (result * int base + digit)) False True
               else if digit \<le> I64_MAX mod int base \<or> (sign = -1 \<and> digit = I64_MAX mod int base + 1) then
                 digits_loop s base sign (i + 1) (wrap64 (result * int base + digit)) False True
               else
                 digits_loop s base sign (i + 1) (if sign = -1 then I64_MIN else I64_MAX) True True)
         else digits_loop s base sign (i + 1) result overflow True)
      else (result, overflow, digitFound, i))"
  by pat_completeness auto
termination
  by (relation "measure (\<lambda>(s, base, sign, i, r). length s - i)") auto

declare digits_loop.simps [simp del]

text \<open>The part after the base is known: the result, the end pointer and \<^verbatim>\<open>errno\<close>.\<close>

definition convert_digits :: "string \<Rightarrow> nat \<Rightarrow> int \<Rightarrow> nat \<Rightarrow> nat \<Rightarrow> int \<times> nat \<times> errno" where
  "convert_digits s base sign i endptr =
     (if cstr_at s i = CHR 0x00 then (0, endptr, NoError)
      else
        (let (result, overflow, digitFound, j) = digits_loop s base sign i 0 False False
         in (if overflow then result else wrap64 (result * sign),
             if digitFound then j else endptr,
             if overflow then ERANGE else NoError)))"

definition strToInt64Impl :: "string \<Rightarrow> nat \<Rightarrow> int \<times> nat \<times> errno" where
  "strToInt64Impl s base =
     (let i = skip_spaces s 0;
          (sign, i) = (if cstr_at s i = CHR ''+'' then (1, i + 1)
                       else if cstr_at s i = CHR ''-'' then (-1, i + 1) else (1, i))
      in if base = 0 then
           (if cstr_at s i = CHR ''0'' then
              (if cstr_at s (i + 1) = CHR ''x'' \<or> cstr_at s (i + 1) = CHR ''X''
               then convert_digits s 16 sign (i + 2) (i + 1)
               else convert_digits s 8 sign (i + 1) (i + 1))
            else convert_digits s 10 sign i 0)
         else if base < 2 \<or> base > 36 then (0, 0, EINVAL)
         else convert_digits s base sign i 0)"

text \<open>\<open>conv\<close> is the platform's \<open>strToInt64\<close>: \<open>strToInt64Impl\<close> or the C library's.\<close>

definition stringToInt64 :: "(string \<Rightarrow> nat \<Rightarrow> int \<times> nat \<times> errno) \<Rightarrow> string \<Rightarrow> int \<times> bool" where
  "stringToInt64 conv s =
     (let (result, end, err) = conv s 0 in (result, err = NoError \<and> end \<noteq> 0))"

section \<open>Digits\<close>

lemma digitVal_allDigits: "\<forall>k < 36. digitVal ! (ord (allDigits ! k) - 48) = int k"
  by code_simp

lemma allDigits_ord: "\<forall>d \<in> set allDigits. 48 \<le> ord d"
  by code_simp

lemma length_allDigits [simp]: "length allDigits = 36"
  by (simp add: allDigits_def)

lemma valid_digitD:
  assumes "valid_digit base c"
  shows "0 \<le> digit_of c" "digit_of c < int base" "48 \<le> ord c"
proof -
  from assms obtain k where k: "k < base" "k < 36" "toupper_ascii c = allDigits ! k"
    unfolding valid_digit_def in_set_conv_nth by auto
  with digitVal_allDigits have "digit_of c = int k" by (simp add: digit_of_def)
  with k show "0 \<le> digit_of c" "digit_of c < int base" by auto
  have "48 \<le> ord (toupper_ascii c)" using allDigits_ord k by simp
  then show "48 \<le> ord c" by (auto simp: toupper_ascii_def split: if_splits)
qed

text \<open>The number a list of digits denotes.\<close>

fun digits_value :: "int \<Rightarrow> string \<Rightarrow> int \<Rightarrow> int" where
  "digits_value base [] acc = acc"
| "digits_value base (c # cs) acc = digits_value base cs (acc * base + digit_of c)"

lemma digits_value_ge:
  assumes "2 \<le> base" "0 \<le> acc" "list_all (\<lambda>c. 0 \<le> digit_of c) cs"
  shows "acc \<le> digits_value base cs acc"
  using assms(2,3)
proof (induction cs arbitrary: acc)
  case (Cons c cs)
  have "acc \<le> acc * base + digit_of c"
    using Cons.prems assms(1) mult_left_mono [of 1 base acc] by simp
  also have "\<dots> \<le> digits_value base cs (acc * base + digit_of c)"
    using Cons.prems assms(1) by (intro Cons.IH) auto
  finally show ?case by simp
qed simp

lemma wrap64_id: "I64_MIN \<le> x \<Longrightarrow> x \<le> I64_MAX \<Longrightarrow> wrap64 x = x"
  by (simp add: wrap64_def I64_MIN_def I64_MAX_def)

text \<open>The overflow test lets a digit through whenever the number read so far still fits.\<close>

lemma fits_digit:
  fixes acc d b :: int
  assumes "2 \<le> b" "0 \<le> d" "\<not> acc < I64_MAX div b"
    and "acc * b + d \<le> I64_MAX \<or> (sign = (-1 :: int) \<and> acc * b + d \<le> I64_MAX + 1)"
  shows "d \<le> I64_MAX mod b \<or> (sign = -1 \<and> d = I64_MAX mod b + 1)"
proof -
  let ?q = "I64_MAX div b" and ?r = "I64_MAX mod b"
  have m: "I64_MAX = ?q * b + ?r" by simp
  have r: "0 \<le> ?r" "?r < b" using assms(1) by simp_all
  have "?q * b \<le> acc * b" using assms(1,3) by (intro mult_right_mono) auto
  show ?thesis
  proof (cases "acc = ?q")
    case True
    with assms(4) m have "?q * b + d \<le> ?q * b + ?r \<or> (sign = -1 \<and> ?q * b + d \<le> ?q * b + ?r + 1)"
      by metis
    then have "d \<le> ?r \<or> (sign = -1 \<and> d \<le> ?r + 1)" by (simp only: add.assoc add_le_cancel_left)
    then show ?thesis by linarith
  next
    case False
    then have "(?q + 1) * b \<le> acc * b" using assms(1,3) by (intro mult_right_mono) auto
    then have "?q * b + b \<le> acc * b" by (simp add: distrib_right)
    with assms(2,4) m r show ?thesis by linarith
  qed
qed

lemma digits_loop_exact:
  assumes base: "2 \<le> base"
    and fits: "digits_value (int base) cs acc \<le> I64_MAX \<or>
        (sign = -1 \<and> digits_value (int base) cs acc \<le> I64_MAX + 1)"
    and cs: "drop i s = cs" "list_all (valid_digit base) cs" and acc: "0 \<le> acc"
  shows "digits_loop s base sign i (wrap64 acc) False f
    = (wrap64 (digits_value (int base) cs acc), False, f \<or> cs \<noteq> [], max i (length s))"
  using cs acc fits
proof (induction cs arbitrary: i acc f)
  case Nil
  then show ?case by (subst digits_loop.simps) auto
next
  case (Cons c cs)
  let ?b = "int base" and ?d = "digit_of c"
  let ?acc' = "acc * ?b + ?d"
  have i: "i < length s" "s ! i = c" "drop (i + 1) s = cs"
    using Cons.prems(1) by (metis drop_all linorder_not_le list.discI,
        metis Cons_nth_drop_Suc drop_all linorder_not_le list.discI list.inject,
        metis drop_Suc list.sel(3) tl_drop Suc_eq_plus1)
  have c: "0 \<le> ?d" "48 \<le> ord c" using Cons.prems(2) valid_digitD by auto
  then have at: "cstr_at s i = c" "c \<noteq> CHR 0x00" using i by (auto simp: cstr_at_def)
  have acc': "0 \<le> ?acc'" using Cons.prems(3) c by simp
  have "?acc' \<le> digits_value ?b cs ?acc'"
    using base acc' Cons.prems(2) valid_digitD(1)
    by (intro digits_value_ge) (auto simp: list_all_iff)
  then have le: "?acc' \<le> I64_MAX \<or> (sign = -1 \<and> ?acc' \<le> I64_MAX + 1)"
    using Cons.prems(4) by auto
  have "acc * 2 \<le> acc * ?b" using Cons.prems(3) base by (intro mult_left_mono) auto
  with le c have small: "acc * 2 \<le> I64_MAX + 1" by linarith
  then have w: "wrap64 acc = acc"
    using Cons.prems(3) by (intro wrap64_id) (simp_all add: I64_MAX_def I64_MIN_def)
  have "digits_loop s base sign i (wrap64 acc) False f
      = digits_loop s base sign (i + 1) (wrap64 ?acc') False True"
    using i(1) at w Cons.prems(2) fits_digit [of ?b ?d acc sign] base c le
    by (subst digits_loop.simps) (auto simp: Let_def)
  also have "\<dots> = (wrap64 (digits_value ?b cs ?acc'), False, True, max (i + 1) (length s))"
    using Cons.IH [OF i(3) _ acc'] Cons.prems(2,4) by auto
  finally show ?case using i(1) by (simp add: max_def)
qed

text \<open>
  C35. The portable \<open>strToInt64\<close> is exact on the whole 64-bit range: for a base from 2 to 36 and a
  non-empty string of digits of that base, optionally preceded by a minus sign, whose value
  (negated, if signed) fits into an \<open>Int64\<close>, it returns that value, consumes the whole string and
  reports no error; the smallest \<open>Int64\<close> is included.
\<close>

theorem strToInt64Impl_exact:
  fixes neg :: bool
  assumes base: "2 \<le> base" "base \<le> 36" and ds: "ds \<noteq> []" "list_all (valid_digit base) ds"
    and fits: "digits_value (int base) ds 0 \<le> (if neg then I64_MAX + 1 else I64_MAX)"
  shows "strToInt64Impl ((if neg then ''-'' else []) @ ds) base
    = ((if neg then -1 else 1) * digits_value (int base) ds 0,
       length ((if neg then ''-'' else []) @ ds), NoError)"
proof -
  let ?s = "(if neg then ''-'' else []) @ ds"
  let ?i = "if neg then 1 else 0 :: nat" and ?sign = "if neg then -1 else 1 :: int"
  let ?V = "digits_value (int base) ds 0"
  obtain d ds' where d: "ds = d # ds'" using ds(1) by (cases ds) auto
  have ord: "48 \<le> ord d" using ds(2) d valid_digitD(3) [of base d] by simp
  then have notsp: "\<not> isspace d" "d \<noteq> CHR ''+''" "d \<noteq> CHR ''-''" "d \<noteq> CHR 0x00"
    by (auto simp: isspace_def)
  have sp: "skip_spaces ?s 0 = 0"
    using notsp d by (subst skip_spaces.simps) (auto simp: cstr_at_def isspace_def)
  have V: "0 \<le> ?V"
    using digits_value_ge [of "int base" 0 ds] base(1) ds(2) valid_digitD(1) by (auto simp: list_all_iff)
  have w0: "wrap64 0 = 0" by (simp add: wrap64_def)
  have loop: "digits_loop ?s base ?sign ?i 0 False False = (wrap64 ?V, False, True, length ?s)"
    using digits_loop_exact [OF base(1), of ds 0 ?sign ?i ?s False] fits ds w0 by auto
  have "wrap64 (wrap64 ?V * ?sign) = ?sign * ?V"
  proof (cases "?V = I64_MAX + 1")
    case True
    then show ?thesis using fits by (auto simp: wrap64_def I64_MAX_def split: if_splits)
  next
    case False
    with fits V have "wrap64 ?V = ?V"
      by (intro wrap64_id) (auto simp: I64_MIN_def I64_MAX_def split: if_splits)
    with False fits V show ?thesis
      by (simp, intro impI conjI wrap64_id) (auto simp: I64_MIN_def I64_MAX_def split: if_splits)
  qed
  then have conv: "convert_digits ?s base ?sign ?i 0 = (?sign * ?V, length ?s, NoError)"
    using notsp d loop by (auto simp: convert_digits_def cstr_at_def)
  show ?thesis
    using base sp conv notsp d
    by (auto simp: strToInt64Impl_def cstr_at_def split: if_splits)
qed

theorem strToInt64Impl_exact_witness:
  "strToInt64Impl ''-9223372036854775808'' 10 = (- 9223372036854775808, 20, NoError)"
proof -
  have "digits_value (int 10) ''9223372036854775808'' 0 = 9223372036854775808"
    by code_simp
  then show ?thesis
    using strToInt64Impl_exact [of 10 "''9223372036854775808''" True]
    by (simp add: I64_MAX_def valid_digit_def toupper_ascii_def allDigits_def)
qed

text \<open>
  The overflow test misses values: when the number read so far already exceeds the largest
  \<open>Int64\<close> divided by the base, a small digit passes the second test, and the multiplication
  overflows. The decimal string for \<open>9223372036854775810\<close>, which is out of range, is converted to a
  negative number without an error.
\<close>

theorem strToInt64Impl_missed_overflow:
  "strToInt64Impl ''9223372036854775810'' 10 = (- 9223372036854775806, 19, NoError) \<and>
   digits_value 10 ''9223372036854775810'' 0 > I64_MAX"
  by code_simp

end
