(* ===== verification/Base64.thy ===== *)
theory Base64
  imports Prelude
begin

text \<open>
  The Base64 codec of \<^verbatim>\<open>cpp/src/Ice/Base64.cpp\<close>: \<open>encode\<close> works on groups of three bytes and breaks
  the text into lines of 76 characters, \<open>decode\<close> drops every character outside the alphabet first.
  An \<^verbatim>\<open>unsigned char\<close> is an 8-bit word.
\<close>

unbundle bit_operations_syntax

section \<open>Definitions\<close>

definition isBase64 :: "char \<Rightarrow> bool" where
  "isBase64 c \<longleftrightarrow>
     (65 \<le> ord c \<and> ord c \<le> 90) \<or> (97 \<le> ord c \<and> ord c \<le> 122) \<or> (48 \<le> ord c \<and> ord c \<le> 57) \<or>
     c = CHR ''+'' \<or> c = CHR ''/'' \<or> c = CHR ''=''"

definition encode_char :: "byte \<Rightarrow> char" where
  "encode_char uc =
     (if unat uc < 26 then chr (65 + unat uc)
      else if unat uc < 52 then chr (97 + (unat uc - 26))
      else if unat uc < 62 then chr (48 + (unat uc - 52))
      else if unat uc = 62 then CHR ''+''
      else CHR ''/'')"

definition decode_char :: "char \<Rightarrow> byte" where
  "decode_char c =
     (if 65 \<le> ord c \<and> ord c \<le> 90 then of_nat (ord c - 65)
      else if 97 \<le> ord c \<and> ord c \<le> 122 then of_nat (ord c - 97 + 26)
      else if 48 \<le> ord c \<and> ord c \<le> 57 then of_nat (ord c - 48 + 52)
      else if c = CHR ''+'' then 62
      else 63)"

function encode_groups :: "byte list \<Rightarrow> nat \<Rightarrow> string \<Rightarrow> string" where
  "encode_groups plainSeq i retval =
     (if i < length plainSeq then
        (let by1 = plainSeq ! i;
             by2 = (if i + 1 < length plainSeq then plainSeq ! (i + 1) else 0);
             by3 = (if i + 2 < length plainSeq then plainSeq ! (i + 2) else 0);
             by4 = drop_bit 2 by1;
             by5 = push_bit 4 (by1 AND 0x3) OR drop_bit 4 by2;
             by6 = push_bit 2 (by2 AND 0xf) OR drop_bit 6 by3;
             by7 = by3 AND 0x3f
         in encode_groups plainSeq (i + 3)
              (retval @ [encode_char by4, encode_char by5,
                 if i + 1 < length plainSeq then encode_char by6 else CHR ''='',
                 if i + 2 < length plainSeq then encode_char by7 else CHR ''='']))
      else retval)"
  by pat_completeness auto
termination
  by (relation "measure (\<lambda>(p, i, r). length p - i)") auto

declare encode_groups.simps [simp del]

text \<open>The loop that copies 76 characters at a time and ends each full line with CR LF.\<close>

function break_lines :: "string \<Rightarrow> nat \<Rightarrow> string \<Rightarrow> string" where
  "break_lines retval iter outString =
     (if length retval - iter > 76 then
        break_lines retval (iter + 76) (outString @ take 76 (drop iter retval) @ [CARRET, NEWLN])
      else outString @ drop iter retval)"
  by pat_completeness auto
termination
  by (relation "measure (\<lambda>(r, iter, out). length r - iter)") auto

declare break_lines.simps [simp del]

definition encode :: "byte list \<Rightarrow> string" where
  "encode plainSeq =
     (if length plainSeq = 0 then [] else break_lines (encode_groups plainSeq 0 []) 0 [])"

function decode_groups :: "string \<Rightarrow> nat \<Rightarrow> byte list \<Rightarrow> byte list" where
  "decode_groups newStr i retval =
     (if i < length newStr then
        (let c1 = newStr ! i;
             c2 = (if i + 1 < length newStr then newStr ! (i + 1) else CHR ''A'');
             c3 = (if i + 2 < length newStr then newStr ! (i + 2) else CHR ''A'');
             c4 = (if i + 3 < length newStr then newStr ! (i + 3) else CHR ''A'');
             by1 = decode_char c1; by2 = decode_char c2; by3 = decode_char c3; by4 = decode_char c4
         in decode_groups newStr (i + 4)
              (retval @ [push_bit 2 by1 OR drop_bit 4 by2]
                @ (if c3 \<noteq> CHR ''='' then [push_bit 4 (by2 AND 0xf) OR drop_bit 2 by3] else [])
                @ (if c4 \<noteq> CHR ''='' then [push_bit 6 (by3 AND 0x3) OR by4] else [])))
      else retval)"
  by pat_completeness auto
termination
  by (relation "measure (\<lambda>(s, i, r). length s - i)") auto

declare decode_groups.simps [simp del]

definition decode :: "string \<Rightarrow> byte list" where
  "decode str =
     (let newStr = filter isBase64 str
      in if length newStr = 0 then [] else decode_groups newStr 0 [])"

section \<open>The alphabet\<close>

lemma decode_encode_char:
  assumes "unat x < 64"
  shows "decode_char (encode_char x) = x"
proof -
  have num: "x = of_nat (unat x)" by simp
  consider "unat x < 26" | "26 \<le> unat x" "unat x < 52" | "52 \<le> unat x" "unat x < 62"
    | "unat x = 62" | "unat x = 63"
    using assms by linarith
  then show ?thesis
  proof cases
    case 4
    then show ?thesis using num by (simp add: encode_char_def decode_char_def)
  next
    case 5
    then show ?thesis using num by (simp add: encode_char_def decode_char_def)
  qed (auto simp: encode_char_def decode_char_def)
qed

lemma encode_char_alphabet: "unat x < 64 \<Longrightarrow> isBase64 (encode_char x) \<and> encode_char x \<noteq> CHR ''=''"
proof -
  assume x: "unat x < 64"
  have eq: "c = CHR ''='' \<longleftrightarrow> ord c = 61" for c :: char
    using ord_inject [of c "CHR ''=''"] by simp
  show ?thesis
    using x by (auto simp: isBase64_def encode_char_def eq)
qed

section \<open>Six-bit groups\<close>

lemma byte_eqI: "(\<And>n. n < 8 \<Longrightarrow> bit a n = bit b n) \<Longrightarrow> a = (b :: byte)"
  by (rule bit_word_eqI) simp

lemma less_8_cases: "n < 8 \<Longrightarrow> n \<in> {0, 1, 2, 3, 4, 5, 6, 7 :: nat}"
  by auto

lemma sextetI:
  fixes x :: byte
  assumes "\<not> bit x 6" "\<not> bit x 7"
  shows "unat x < 64"
proof -
  have "take_bit 6 x = x"
  proof (rule byte_eqI)
    fix n :: nat assume "n < 8"
    then have "n < 6 \<or> n = 6 \<or> n = 7" by linarith
    with assms show "bit (take_bit 6 x) n = bit x n" by (auto simp: bit_simps)
  qed
  then have "unat x = take_bit 6 (unat x)" by (metis unsigned_take_bit_eq)
  then show ?thesis using take_bit_nat_less_exp [of 6 "unat x"] by simp
qed

text \<open>The four sextets of three bytes, and the three bytes of four sextets.\<close>

definition sextet1 :: "byte \<Rightarrow> byte" where "sextet1 a = drop_bit 2 a"
definition sextet2 :: "byte \<Rightarrow> byte \<Rightarrow> byte" where "sextet2 a b = push_bit 4 (a AND 0x3) OR drop_bit 4 b"
definition sextet3 :: "byte \<Rightarrow> byte \<Rightarrow> byte" where "sextet3 b c = push_bit 2 (b AND 0xf) OR drop_bit 6 c"
definition sextet4 :: "byte \<Rightarrow> byte" where "sextet4 c = c AND 0x3f"
definition octet1 :: "byte \<Rightarrow> byte \<Rightarrow> byte" where "octet1 w x = push_bit 2 w OR drop_bit 4 x"
definition octet2 :: "byte \<Rightarrow> byte \<Rightarrow> byte" where "octet2 x y = push_bit 4 (x AND 0xf) OR drop_bit 2 y"
definition octet3 :: "byte \<Rightarrow> byte \<Rightarrow> byte" where "octet3 y z = push_bit 6 (y AND 0x3) OR z"

lemmas sextet_defs = sextet1_def sextet2_def sextet3_def sextet4_def
lemmas octet_defs = octet1_def octet2_def octet3_def

lemma sextet_bounds:
  "unat (sextet1 a) < 64" "unat (sextet2 a b) < 64" "unat (sextet3 b c) < 64" "unat (sextet4 c) < 64"
  unfolding sextet_defs
  by (rule sextetI; auto simp: bit_simps dest: bit_imp_le_length)+

lemma octet_sextet:
  "octet1 (sextet1 a) (sextet2 a b) = a"
  "octet2 (sextet2 a b) (sextet3 b c) = b"
  "octet3 (sextet3 b c) (sextet4 c) = c"
  unfolding sextet_defs octet_defs
  by (rule byte_eqI, drule less_8_cases, elim insertE emptyE; simp add: bit_simps)+

section \<open>Groups as lists\<close>

text \<open>The encoding and decoding of groups by structural recursion.\<close>

fun enc :: "byte list \<Rightarrow> string" where
  "enc [] = []"
| "enc [a] = [encode_char (sextet1 a), encode_char (sextet2 a 0), CHR ''='', CHR ''='']"
| "enc [a, b] = [encode_char (sextet1 a), encode_char (sextet2 a b), encode_char (sextet3 b 0), CHR ''='']"
| "enc (a # b # c # bs) = [encode_char (sextet1 a), encode_char (sextet2 a b), encode_char (sextet3 b c),
     encode_char (sextet4 c)] @ enc bs"

lemma drop_group:
  assumes "i < length xs"
  shows "drop i xs = xs ! i # drop (i + 1) xs"
  using assms by (simp add: Cons_nth_drop_Suc)

lemma encode_groups_enc: "encode_groups plainSeq i retval = retval @ enc (drop i plainSeq)"
proof (induction plainSeq i retval rule: encode_groups.induct)
  case (1 p i r)
  consider "length p \<le> i" | "i < length p" "length p \<le> i + 1" | "i + 1 < length p" "length p \<le> i + 2"
    | "i + 2 < length p" by linarith
  then show ?case
  proof cases
    case 1
    then show ?thesis by (simp add: encode_groups.simps [of p i r])
  next
    case 2
    then have "drop i p = [p ! i]" by (simp add: drop_group)
    with 2 "1.IH" show ?thesis by (simp add: encode_groups.simps [of p i r] Let_def sextet_defs)
  next
    case 3
    then have "drop i p = [p ! i, p ! (i + 1)]" by (simp add: drop_group)
    with 3 "1.IH" show ?thesis by (simp add: encode_groups.simps [of p i r] Let_def sextet_defs)
  next
    case 4
    then have "drop i p = p ! i # p ! (i + 1) # p ! (i + 2) # drop (i + 3) p"
      by (simp add: drop_group numeral_3_eq_3)
    with 4 "1.IH" show ?thesis by (simp add: encode_groups.simps [of p i r] Let_def sextet_defs)
  qed
qed

fun dec :: "string \<Rightarrow> byte list" where
  "dec (c1 # c2 # c3 # c4 # s) =
     [octet1 (decode_char c1) (decode_char c2)]
     @ (if c3 \<noteq> CHR ''='' then [octet2 (decode_char c2) (decode_char c3)] else [])
     @ (if c4 \<noteq> CHR ''='' then [octet3 (decode_char c3) (decode_char c4)] else [])
     @ dec s"
| "dec _ = []"

lemma decode_groups_dec:
  "4 dvd length s \<Longrightarrow> 4 dvd i \<Longrightarrow> decode_groups s i retval = retval @ dec (drop i s)"
proof (induction "length s - i" arbitrary: i retval rule: less_induct)
  case less
  show ?case
  proof (cases "i < length s")
    case False
    then show ?thesis by (simp add: decode_groups.simps [of s i retval])
  next
    case True
    have i4: "i + 4 \<le> length s"
    proof -
      obtain m k where "length s = 4 * m" "i = 4 * k" using less.prems by (auto elim!: dvdE)
      with True show ?thesis by simp
    qed
    then have d: "drop i s = s ! i # s ! (i + 1) # s ! (i + 2) # s ! (i + 3) # drop (i + 4) s"
      by (simp add: drop_group eval_nat_numeral)
    have IH: "decode_groups s (i + 4) r = r @ dec (drop (i + 4) s)" for r
      by (rule less.hyps) (use True less.prems in auto)
    show ?thesis
      using True i4 by (subst decode_groups.simps) (simp add: Let_def IH d octet_defs)
  qed
qed

lemma enc_length: "4 dvd length (enc bs)"
proof (induction bs rule: enc.induct)
  case (4 a b c bs)
  then show ?case by (auto elim!: dvdE intro: dvdI [of _ _ "Suc _"])
qed (simp_all add: eval_nat_numeral)

lemma enc_alphabet: "list_all isBase64 (enc bs)"
  using encode_char_alphabet sextet_bounds
  by (induction bs rule: enc.induct) (auto simp: isBase64_def [of "CHR ''=''"])

lemma dec_enc: "dec (enc bs) = bs"
  by (induction bs rule: enc.induct)
    (simp_all add: decode_encode_char sextet_bounds encode_char_alphabet octet_sextet)

text \<open>The lines: each full one has 76 characters, and together they are the encoded groups.\<close>

lemma break_lines_eq:
  "\<exists>ls l. break_lines retval iter outString = outString @ concat (map (\<lambda>x. x @ [CARRET, NEWLN]) ls) @ l \<and>
     list_all (\<lambda>x. length x = 76) ls \<and> length l \<le> 76 \<and> concat ls @ l = drop iter retval"
proof (induction retval iter outString rule: break_lines.induct)
  case (1 r iter out)
  show ?case
  proof (cases "length r - iter > 76")
    case False
    then show ?thesis
      by (intro exI [of _ "[]"] exI [of _ "drop iter r"]) (simp add: break_lines.simps [of r iter out])
  next
    case True
    then obtain ls l where
      b: "break_lines r iter out = (out @ take 76 (drop iter r) @ [CARRET, NEWLN])
          @ concat (map (\<lambda>x. x @ [CARRET, NEWLN]) ls) @ l" and
      p: "list_all (\<lambda>x. length x = 76) ls" "length l \<le> 76" "concat ls @ l = drop (iter + 76) r"
      using "1.IH" by (auto simp: break_lines.simps [of r iter out])
    have "take 76 (drop iter r) @ drop (iter + 76) r = drop iter r"
      by (metis add.commute append_take_drop_id drop_drop)
    with b p True show ?thesis
      by (intro exI [of _ "take 76 (drop iter r) # ls"] exI [of _ l]) simp
  qed
qed

lemma encode_enc:
  "\<exists>ls l. encode bs = concat (map (\<lambda>x. x @ [CARRET, NEWLN]) ls) @ l \<and>
     list_all (\<lambda>x. length x = 76) ls \<and> length l \<le> 76 \<and> concat ls @ l = enc bs"
proof (cases "bs = []")
  case True
  then show ?thesis by (intro exI [of _ "[]"]) (simp add: encode_def)
next
  case False
  then show ?thesis
    using break_lines_eq [of "encode_groups bs 0 []" 0 "[]"] by (simp add: encode_def encode_groups_enc)
qed

lemma filter_lines: "filter isBase64 (concat (map (\<lambda>x. x @ [CARRET, NEWLN]) ls) @ l) = filter isBase64 (concat ls @ l)"
  by (induction ls) (simp_all add: isBase64_def [of CARRET] isBase64_def [of NEWLN])

lemma decode_of_encode: "decode (encode bs) = bs"
proof -
  obtain ls l where "encode bs = concat (map (\<lambda>x. x @ [CARRET, NEWLN]) ls) @ l" "concat ls @ l = enc bs"
    using encode_enc by blast
  then have f: "filter isBase64 (encode bs) = enc bs"
    using enc_alphabet [of bs] by (simp only: filter_lines) (simp add: list_all_iff)
  have "enc bs = [] \<longleftrightarrow> bs = []" by (cases bs rule: enc.cases) auto
  then show ?thesis
    using decode_groups_dec [OF enc_length, of 0 bs "[]"]
    by (simp add: decode_def f dec_enc)
qed

text \<open>
  C33. Decoding inverts encoding for every sequence of bytes, of any length: the padding and the line
  breaks that \<open>encode\<close> adds are removed by \<open>decode\<close>.
\<close>

theorem decode_encode: "decode (encode bs) = bs"
  by (rule decode_of_encode)

text \<open>
  The text \<open>encode\<close> produces is lines of the alphabet separated by CR LF, each of at most 76
  characters and every one but the last of exactly 76.
\<close>

theorem encode_lines:
  "\<exists>ls l. encode bs = concat (map (\<lambda>x. x @ [CARRET, NEWLN]) ls) @ l \<and>
     list_all (\<lambda>x. length x = 76 \<and> list_all isBase64 x) ls \<and> length l \<le> 76 \<and> list_all isBase64 l"
proof -
  obtain ls l where e: "encode bs = concat (map (\<lambda>x. x @ [CARRET, NEWLN]) ls) @ l"
    and w: "list_all (\<lambda>x. length x = 76) ls" "length l \<le> 76" and c: "concat ls @ l = enc bs"
    using encode_enc by blast
  have "list_all isBase64 (concat ls @ l)" using enc_alphabet c by simp
  with e w show ?thesis by (intro exI [of _ ls] exI [of _ l]) (auto simp: list_all_iff)
qed

end
