(* ===== verification/Buffer.thy ===== *)
theory Buffer
  imports Prelude
begin

text \<open>
  The growable byte container under every stream: \<^verbatim>\<open>cpp/src/Ice/Buffer.cpp\<close> and
  \<^verbatim>\<open>cpp/include/Ice/Buffer.h\<close>. Memory is explicit: \<open>buf\<close> is the allocated block, \<open>None\<close> for the null
  pointer, and has \<open>capacity\<close> bytes of which the first \<open>sz\<close> are in use. Whether
  \<^verbatim>\<open>realloc\<close> succeeds is an argument (\<open>ok\<close>, asked with the number of bytes); the bytes it adds are
  indeterminate in C and are taken to be zero here. An operation returns the exception it throws, if
  any, together with the state it leaves. Sizes are natural numbers: \<^verbatim>\<open>size_t\<close> does not overflow.
\<close>

section \<open>State and operations\<close>

datatype buffer_error = BadAlloc | AssertionFailed

record container =
  buf :: "byte list option"
  sz :: nat
  capacity :: nat
  maxCapacity :: nat
  shrinkCounter :: nat

definition container_new :: "nat \<Rightarrow> container" where
  "container_new maxCap =
     \<lparr>buf = None, sz = 0, capacity = 0, maxCapacity = maxCap, shrinkCounter = 0\<rparr>"

text \<open>A read-only view of memory the container does not own.\<close>

definition container_view :: "byte list \<Rightarrow> container" where
  "container_view bs =
     \<lparr>buf = Some bs, sz = length bs, capacity = 0, maxCapacity = 0, shrinkCounter = 0\<rparr>"

text \<open>The assertion every mutating operation starts with: a container that is a view is never changed.\<close>

definition owned :: "container \<Rightarrow> bool" where
  "owned c \<longleftrightarrow> buf c = None \<or> capacity c > 0"

definition realloc :: "byte list option \<Rightarrow> nat \<Rightarrow> byte list" where
  "realloc p n = (case p of None \<Rightarrow> replicate n 0
                  | Some m \<Rightarrow> take n m @ replicate (n - length m) 0)"

definition swap :: "container \<Rightarrow> container \<Rightarrow> (buffer_error + container \<times> container)" where
  "swap c d =
     (if \<not> owned c then Inl AssertionFailed
      else Inr (c\<lparr>buf := buf d, sz := sz d, capacity := capacity d, shrinkCounter := shrinkCounter d\<rparr>,
                d\<lparr>buf := buf c, sz := sz c, capacity := capacity c, shrinkCounter := shrinkCounter c\<rparr>))"

definition clear :: "container \<Rightarrow> buffer_error option \<times> container" where
  "clear c = (if \<not> owned c then (Some AssertionFailed, c)
              else (None, c\<lparr>buf := None, sz := 0, capacity := 0\<rparr>))"

definition reserve :: "(nat \<Rightarrow> bool) \<Rightarrow> nat \<Rightarrow> container \<Rightarrow> buffer_error option \<times> container" where
  "reserve ok n c =
     (if \<not> owned c then (Some AssertionFailed, c)
      else if n = capacity c then (None, c)
      else
        (let newcap = (if n > capacity c
                       then max 240 (max n (min (2 * capacity c) (maxCapacity c)))
                       else n)
         in if \<not> ok newcap then (Some BadAlloc, c)
            else (None, c\<lparr>buf := Some (realloc (buf c) newcap), capacity := newcap\<rparr>)))"

definition resize_container :: "(nat \<Rightarrow> bool) \<Rightarrow> nat \<Rightarrow> container \<Rightarrow> buffer_error option \<times> container" where
  "resize_container ok n c =
     (if \<not> owned c then (Some AssertionFailed, c)
      else
        (let (e, c1) = (if n = 0 then clear c else if n > capacity c then reserve ok n c else (None, c))
         in if e = None then (None, c1\<lparr>sz := n\<rparr>) else (e, c1)))"

definition reset :: "(nat \<Rightarrow> bool) \<Rightarrow> container \<Rightarrow> buffer_error option \<times> container" where
  "reset ok c =
     (if \<not> owned c then (Some AssertionFailed, c)
      else if sz c > 0 \<and> sz c * 2 < capacity c then
        (let c1 = c\<lparr>shrinkCounter := shrinkCounter c + 1\<rparr>
         in if shrinkCounter c1 > 2 then
              (let (e, c2) = reserve ok (sz c1) c1
               in if e = None then (None, c2\<lparr>shrinkCounter := 0, sz := 0\<rparr>) else (e, c2))
            else (None, c1\<lparr>sz := 0\<rparr>))
      else (None, c\<lparr>shrinkCounter := 0, sz := 0\<rparr>))"

definition push_back :: "(nat \<Rightarrow> bool) \<Rightarrow> byte \<Rightarrow> container \<Rightarrow> buffer_error option \<times> container" where
  "push_back ok v c =
     (let (e, c1) = resize_container ok (sz c + 1) c
      in if e = None then (None, c1\<lparr>buf := map_option (\<lambda>m. m[sz c1 - 1 := v]) (buf c1)\<rparr>) else (e, c1))"

text \<open>\<^verbatim>\<open>operator[]\<close> for reading.\<close>

definition at :: "container \<Rightarrow> nat \<Rightarrow> buffer_error + byte" where
  "at c n = (case buf c of Some m \<Rightarrow> if n < sz c then Inr (m ! n) else Inl AssertionFailed
             | None \<Rightarrow> Inl AssertionFailed)"

section \<open>Abstraction and invariant\<close>

text \<open>The bytes in use, and the relation between block, capacity and size.\<close>

definition contents :: "container \<Rightarrow> byte list" where
  "contents c = (case buf c of None \<Rightarrow> [] | Some m \<Rightarrow> take (sz c) m)"

definition container_inv :: "container \<Rightarrow> bool" where
  "container_inv c \<longleftrightarrow>
     sz c \<le> capacity c \<and>
     (case buf c of None \<Rightarrow> capacity c = 0 | Some m \<Rightarrow> capacity c > 0 \<and> length m = capacity c)"

lemmas container_defs = owned_def clear_def reserve_def resize_container_def reset_def push_back_def
  contents_def container_inv_def realloc_def

lemma container_inv_owned: "container_inv c \<Longrightarrow> owned c"
  by (auto simp: container_defs split: option.splits)

lemma length_contents: "container_inv c \<Longrightarrow> length (contents c) = sz c"
  by (auto simp: container_defs split: option.splits)

lemma reserve_inv: "container_inv c \<Longrightarrow> sz c \<le> n \<Longrightarrow> 0 < n \<Longrightarrow> container_inv (snd (reserve ok n c))"
  by (auto simp: container_defs Let_def split: option.splits)

lemma reserve_contents:
  "container_inv c \<Longrightarrow> sz c \<le> n \<Longrightarrow>
     contents (snd (reserve ok n c)) = contents c \<and> sz (snd (reserve ok n c)) = sz c"
  by (auto simp: container_defs Let_def split: option.splits)

lemma reserve_capacity: "container_inv c \<Longrightarrow> reserve ok n c = (None, c1) \<Longrightarrow> n \<le> capacity c1"
  by (auto simp: container_defs Let_def split: option.splits if_splits)

lemma resize_inv: "container_inv c \<Longrightarrow> container_inv (snd (resize_container ok n c))"
  by (auto simp: container_defs Let_def split: option.splits if_splits)

lemma resize_shrinks:
  "container_inv c \<Longrightarrow> n \<le> sz c \<Longrightarrow>
     fst (resize_container ok n c) = None \<and> contents (snd (resize_container ok n c)) = take n (contents c)"
  by (auto simp: container_defs Let_def min_def split: option.splits if_splits)

lemma resize_grows:
  assumes "container_inv c" "sz c \<le> n" "resize_container ok n c = (None, c1)"
  shows "take (sz c) (contents c1) = contents c" "length (contents c1) = n"
  using assms by (auto simp: container_defs Let_def min_def split: option.splits if_splits)

lemma resize_fails: "resize_container ok n c = (Some e, c1) \<Longrightarrow> c1 = c"
  by (auto simp: container_defs Let_def split: option.splits if_splits)

section \<open>The vector interface\<close>

text \<open>
  What the streams rely on: an append-only byte vector whose \<open>push\<close> either appends the byte or fails
  and leaves the vector as it was.
\<close>

locale byte_vector =
  fixes inv :: "'c \<Rightarrow> bool" and bytes :: "'c \<Rightarrow> byte list"
    and push :: "byte \<Rightarrow> 'c \<Rightarrow> 'e option \<times> 'c"
  assumes push_inv: "inv c \<Longrightarrow> inv (snd (push v c))"
    and push_ok: "inv c \<Longrightarrow> push v c = (None, c1) \<Longrightarrow> bytes c1 = bytes c @ [v]"
    and push_fail: "inv c \<Longrightarrow> push v c = (Some e, c1) \<Longrightarrow> c1 = c"
begin

fun push_all :: "byte list \<Rightarrow> 'c \<Rightarrow> 'e option \<times> 'c" where
  "push_all [] c = (None, c)"
| "push_all (v # vs) c = (case push v c of (None, c1) \<Rightarrow> push_all vs c1 | (Some e, c1) \<Rightarrow> (Some e, c1))"

lemma push_all_bytes:
  "inv c \<Longrightarrow> \<exists>n \<le> length vs. inv (snd (push_all vs c)) \<and>
     bytes (snd (push_all vs c)) = bytes c @ take n vs \<and> (fst (push_all vs c) = None \<longrightarrow> n = length vs)"
proof (induction vs arbitrary: c)
  case (Cons v vs)
  obtain r c1 where p: "push v c = (r, c1)" by force
  show ?case
  proof (cases r)
    case None
    with p Cons.prems push_inv [of c v] push_ok [of c v c1] have 1: "inv c1" "bytes c1 = bytes c @ [v]"
      by auto
    from Cons.IH [OF 1(1)] obtain n where "n \<le> length vs" "inv (snd (push_all vs c1))"
      "bytes (snd (push_all vs c1)) = bytes c1 @ take n vs"
      "fst (push_all vs c1) = None \<longrightarrow> n = length vs" by (elim exE conjE)
    with p None 1(2) show ?thesis by (intro exI [of _ "Suc n"]) simp
  next
    case (Some e)
    with p Cons.prems push_fail [of c v e c1] show ?thesis by (intro exI [of _ 0]) simp
  qed
qed simp

end

lemma push_back_ok:
  assumes "container_inv c" "push_back ok v c = (None, c1)"
  shows "contents c1 = contents c @ [v]"
proof -
  from assms(2) obtain c' where r: "resize_container ok (sz c + 1) c = (None, c')"
    and c1: "c1 = c'\<lparr>buf := map_option (\<lambda>m. m[sz c' - 1 := v]) (buf c')\<rparr>"
    by (auto simp: push_back_def split: prod.splits if_splits)
  have s: "sz c' = sz c + 1" using r assms(1) by (auto simp: container_defs Let_def split: if_splits prod.splits)
  have "container_inv c'" using resize_inv [OF assms(1), of ok "sz c + 1"] r by simp
  then obtain m where m: "buf c' = Some m" "length m = capacity c'" "sz c' \<le> capacity c'"
    using s by (cases "buf c'") (auto simp: container_inv_def)
  have "take (sz c) (take (sz c + 1) m) = contents c"
    using resize_grows(1) [OF assms(1) _ r] m s by (simp add: contents_def)
  then have "take (sz c) m = contents c" by (simp add: min_def)
  moreover have "take (sz c + 1) (m[sz c := v]) = take (sz c) m @ [v]"
    using m s by (simp add: take_Suc_conv_app_nth)
  ultimately show ?thesis using c1 m s by (simp add: contents_def)
qed

lemma push_back_inv: "container_inv c \<Longrightarrow> container_inv (snd (push_back ok v c))"
  using resize_inv [of c ok "sz c + 1"]
  by (auto simp: push_back_def container_inv_def split: prod.splits option.splits)

interpretation cvec: byte_vector container_inv contents "push_back ok" for ok
proof
  fix c v c1 e
  assume "container_inv c"
  then show "container_inv (snd (push_back ok v c))" by (rule push_back_inv)
  show "contents c1 = contents c @ [v]" if "push_back ok v c = (None, c1)"
    using \<open>container_inv c\<close> that by (rule push_back_ok)
  show "c1 = c" if "push_back ok v c = (Some e, c1)"
    using that by (auto simp: push_back_def split: prod.splits if_splits dest: resize_fails)
qed

section \<open>Properties\<close>

text \<open>
  C34. The container implements a byte vector, whatever the allocator does: pushing bytes keeps the
  block consistent with size and capacity, and leaves exactly the old bytes followed by the bytes pushed
  before the first allocation failure; if no call throws these are all of them.
\<close>

theorem push_all_refines:
  assumes "container_inv c"
  shows "\<exists>n \<le> length vs. container_inv (snd (cvec.push_all ok vs c)) \<and>
     contents (snd (cvec.push_all ok vs c)) = contents c @ take n vs \<and>
     (fst (cvec.push_all ok vs c) = None \<longrightarrow> n = length vs)"
  using assms by (rule cvec.push_all_bytes)

theorem push_all_refines_witness:
  "contents (snd (cvec.push_all (\<lambda>n. n < 1000) [1, 2, 3] (container_new 4096))) = [1, 2, 3]"
proof -
  have "container_inv (container_new 4096)" by (simp add: container_new_def container_inv_def)
  from push_all_refines [OF this, of "[1, 2, 3]" "\<lambda>n. n < 1000"] show ?thesis
    by (auto simp: container_new_def container_defs Let_def)
qed

text \<open>
  The allocation policy: growing always yields at least the requested number of bytes, never more than
  the largest of the request, the maximum message size and 240, and at least twice the old capacity
  unless the maximum message size is smaller; a failed allocation changes nothing.
\<close>

theorem resize_growth:
  assumes "container_inv c" "capacity c < n"
  shows "(case resize_container ok n c of
     (None, c1) \<Rightarrow> n \<le> capacity c1 \<and> capacity c1 \<le> max 240 (max n (maxCapacity c)) \<and>
        min (2 * capacity c) (maxCapacity c) \<le> capacity c1 \<and> sz c1 = n
   | (Some e, c1) \<Rightarrow> c1 = c \<and> e = BadAlloc \<and> \<not> ok (max 240 (max n (min (2 * capacity c) (maxCapacity c)))))"
  using assms container_inv_owned [OF assms(1)]
  by (auto simp: resize_container_def reserve_def Let_def split: if_splits)

theorem resize_growth_witness:
  "fst (resize_container (\<lambda>n. True) 10 (container_new 4096)) = None \<and>
   capacity (snd (resize_container (\<lambda>n. True) 10 (container_new 4096))) = 240"
proof -
  have "container_inv (container_new 4096)" "capacity (container_new 4096) < 10"
    by (simp_all add: container_new_def container_inv_def)
  from resize_growth [OF this, of "\<lambda>n. True"] show ?thesis
    by (auto simp: container_new_def container_defs Let_def)
qed

text \<open>
  Shrinking: emptying the container keeps its memory, except at the third consecutive reset that
  finds less than half of the capacity in use: then the block shrinks to the bytes that were in use. In
  every case the container is empty and consistent afterwards, if the allocator can shrink a block.
\<close>

theorem reset_shrinks:
  assumes "container_inv c" "\<And>n. ok n"
  shows "fst (reset ok c) = None \<and> container_inv (snd (reset ok c)) \<and> contents (snd (reset ok c)) = [] \<and>
    capacity (snd (reset ok c))
      = (if 0 < sz c \<and> sz c * 2 < capacity c \<and> 2 \<le> shrinkCounter c then sz c else capacity c) \<and>
    shrinkCounter (snd (reset ok c))
      = (if 0 < sz c \<and> sz c * 2 < capacity c \<and> shrinkCounter c < 2 then shrinkCounter c + 1 else 0)"
  using assms by (auto simp: container_defs Let_def split: option.splits if_splits)

theorem reset_shrinks_witness:
  "capacity (snd (reset (\<lambda>n. True)
     \<lparr>buf = Some (replicate 240 0), sz = 10, capacity = 240, maxCapacity = 4096, shrinkCounter = 2\<rparr>)) = 10"
proof -
  have "container_inv \<lparr>buf = Some (replicate 240 0), sz = 10, capacity = 240, maxCapacity = 4096, shrinkCounter = 2\<rparr>"
    by (simp add: container_inv_def)
  from reset_shrinks [OF this, of "\<lambda>n. True"] show ?thesis by simp
qed

end
