(* ===== verification/StringConverter.thy ===== *)
theory StringConverter
  imports Prelude
begin

text \<open>
  Conversion between the native narrow or wide encoding and UTF-8, after
  \<^verbatim>\<open>cpp/include/Ice/StringConverter.h\<close> and \<^verbatim>\<open>cpp/src/Ice/StringConverter.cpp\<close>. A converter is supplied
  by the application (a plug-in, \<^verbatim>\<open>iconv\<close>, the Windows API), and is a parameter here. Its \<open>toUTF8\<close> is
  described by what it does to the \<^verbatim>\<open>UTF8Buffer\<close> it is given: a list of calls of \<open>getMoreBytes\<close>,
  each with the number of bytes it asks for and the bytes it then stores there; the pointer it
  returns is the end of the last stored bytes.
\<close>

datatype conv_error = StringConversionFailed | ConverterOverrun | ConverterBadAlloc

record 'c converter =
  toUTF8 :: "'c list \<Rightarrow> conv_error + (nat \<times> byte list) list"
  fromUTF8 :: "byte list \<Rightarrow> conv_error + 'c list"

text \<open>
  What the buffer of \<^verbatim>\<open>nativeToUTF8\<close> (\<^verbatim>\<open>UTF8BufferI\<close>) holds: each call drops the unused tail of the
  previous block and makes room for more. A converter that stores more than it asked for overruns
  the heap block.
\<close>

fun utf8_buffer :: "(nat \<times> byte list) list \<Rightarrow> byte list \<Rightarrow> conv_error + byte list" where
  "utf8_buffer [] buffer = Inr buffer"
| "utf8_buffer ((howMany, bs) # calls) buffer =
     (if length bs \<le> howMany then utf8_buffer calls (buffer @ bs) else Inl ConverterOverrun)"

definition chars_of_bytes :: "byte list \<Rightarrow> string" where
  "chars_of_bytes bs = map (\<lambda>b. chr (unat b)) bs"

definition bytes_of_chars :: "string \<Rightarrow> byte list" where
  "bytes_of_chars s = map (\<lambda>c. of_nat (ord c)) s"

definition nativeToUTF8 :: "char converter option \<Rightarrow> string \<Rightarrow> conv_error + string" where
  "nativeToUTF8 conv str =
     (case conv of
        None \<Rightarrow> Inr str
      | Some c \<Rightarrow>
          if str = [] then Inr str
          else bindE (toUTF8 c str) (\<lambda>calls. bindE (utf8_buffer calls []) (\<lambda>bs. Inr (chars_of_bytes bs))))"

definition UTF8ToNative :: "char converter option \<Rightarrow> string \<Rightarrow> conv_error + string" where
  "UTF8ToNative conv str =
     (case conv of
        None \<Rightarrow> Inr str
      | Some c \<Rightarrow> if str = [] then Inr str else fromUTF8 c (bytes_of_chars str))"

section \<open>The contract of a converter\<close>

text \<open>
  The documented behaviour: a conversion to UTF-8 asks for at least one block, for a positive number of
  bytes each time, and stores no more than it asked for.
\<close>

definition well_behaved :: "'c converter \<Rightarrow> bool" where
  "well_behaved c \<longleftrightarrow> (\<forall>s calls. toUTF8 c s = Inr calls \<longrightarrow>
     calls \<noteq> [] \<and> list_all (\<lambda>(n, bs). 0 < n \<and> length bs \<le> n) calls)"

text \<open>The UTF-8 form of a string: everything the converter stored.\<close>

definition stored :: "(nat \<times> byte list) list \<Rightarrow> byte list" where
  "stored calls = concat (map snd calls)"

text \<open>On the given string the converter succeeds, gives some output, and can undo it.\<close>

definition converts :: "'c converter \<Rightarrow> 'c list \<Rightarrow> bool" where
  "converts c s \<longleftrightarrow> (\<exists>calls. toUTF8 c s = Inr calls \<and> stored calls \<noteq> [] \<and> fromUTF8 c (stored calls) = Inr s)"

lemma utf8_buffer_stored:
  "list_all (\<lambda>(n, bs). 0 < n \<and> length bs \<le> n) calls \<Longrightarrow> utf8_buffer calls buffer = Inr (buffer @ stored calls)"
  by (induction calls buffer rule: utf8_buffer.induct) (auto simp: stored_def)

lemma bytes_of_chars_of_bytes [simp]: "bytes_of_chars (chars_of_bytes bs) = bs"
  by (induction bs) (auto simp: bytes_of_chars_def chars_of_bytes_def)

lemma chars_of_bytes_of_chars [simp]: "chars_of_bytes (bytes_of_chars s) = s"
proof (induction s)
  case (Cons c s)
  have "unat (of_nat (ord c) :: byte) = ord c" by (simp add: unat_of_nat)
  with Cons show ?case by (simp add: bytes_of_chars_def chars_of_bytes_def)
qed (simp add: bytes_of_chars_def chars_of_bytes_def)

lemma length_bytes_of_chars [simp]: "length (bytes_of_chars s) = length s"
  by (simp add: bytes_of_chars_def)

lemma length_chars_of_bytes [simp]: "length (chars_of_bytes s) = length s"
  by (simp add: chars_of_bytes_def)

text \<open>A string survives the conversion, with no converter, or with one that converts it.\<close>

definition convertible :: "char converter option \<Rightarrow> string \<Rightarrow> bool" where
  "convertible conv s \<longleftrightarrow> (case conv of None \<Rightarrow> True | Some c \<Rightarrow> well_behaved c \<and> (s = [] \<or> converts c s))"

lemma UTF8ToNative_nativeToUTF8:
  assumes "convertible conv s"
  shows "\<exists>u. nativeToUTF8 conv s = Inr u \<and> UTF8ToNative conv u = Inr s \<and> (u = [] \<longleftrightarrow> s = [])"
proof (cases conv)
  case None
  then show ?thesis by (simp add: nativeToUTF8_def UTF8ToNative_def)
next
  case (Some c)
  show ?thesis
  proof (cases "s = []")
    case True
    with Some show ?thesis by (simp add: nativeToUTF8_def UTF8ToNative_def)
  next
    case False
    with Some assms obtain calls where c: "toUTF8 c s = Inr calls" "stored calls \<noteq> []"
      "fromUTF8 c (stored calls) = Inr s" "well_behaved c"
      by (auto simp: convertible_def converts_def)
    then have "utf8_buffer calls [] = Inr (stored calls)"
      by (simp add: well_behaved_def utf8_buffer_stored)
    moreover have "chars_of_bytes (stored calls) \<noteq> []" using c(2) by (simp add: chars_of_bytes_def)
    ultimately show ?thesis using Some False c
      by (simp add: nativeToUTF8_def UTF8ToNative_def)
  qed
qed

text \<open>
  A converter for ISO 8859-1, which needs two bytes of UTF-8 for the upper half of its characters:
  it asks for twice the number of source characters in one call.
\<close>

definition latin1_bytes :: "char \<Rightarrow> byte list" where
  "latin1_bytes c = (if ord c < 128 then [of_nat (ord c)]
     else [of_nat (192 + ord c div 64), of_nat (128 + ord c mod 64)])"

fun latin1_chars :: "byte list \<Rightarrow> conv_error + string" where
  "latin1_chars [] = Inr []"
| "latin1_chars (b # bs) =
     (if unat b < 128 then bindE (latin1_chars bs) (\<lambda>s. Inr (chr (unat b) # s))
      else (case bs of
              [] \<Rightarrow> Inl StringConversionFailed
            | b2 # bs2 \<Rightarrow>
                bindE (latin1_chars bs2) (\<lambda>s. Inr (chr ((unat b - 192) * 64 + (unat b2 - 128)) # s))))"

definition latin1 :: "char converter" where
  "latin1 = \<lparr>toUTF8 = (\<lambda>s. Inr [(2 * length s + 1, concat (map latin1_bytes s))]), fromUTF8 = latin1_chars\<rparr>"

lemma latin1_chars_bytes: "latin1_chars (concat (map latin1_bytes s)) = Inr s"
proof (induction s)
  case (Cons c s)
  have u: "unat (of_nat n :: byte) = n" if "n < 256" for n
    using that by (simp add: unat_of_nat)
  have "ord c < 256" by simp
  moreover have "ord c div 64 < 64" using calculation by linarith
  moreover have "ord c div 64 * 64 + ord c mod 64 = ord c" by simp
  ultimately show ?case using Cons
    by (cases "ord c < 128") (simp_all add: latin1_bytes_def u del: of_nat_add of_nat_numeral)
qed simp

lemma length_latin1_bytes: "length (concat (map latin1_bytes s)) \<le> 2 * length s"
  by (induction s) (auto simp: latin1_bytes_def)

lemma latin1_well_behaved: "well_behaved latin1"
  by (auto simp: well_behaved_def latin1_def intro: le_SucI length_latin1_bytes)

lemma latin1_converts: "s \<noteq> [] \<Longrightarrow> converts latin1 s"
  using latin1_chars_bytes [of s]
  by (cases s) (auto simp: converts_def latin1_def stored_def latin1_bytes_def)

end
