(* ===== verification/Identity.thy ===== *)
theory Identity
  imports StringUtil StringConverter
begin

text \<open>
  Object identities and their stringified form: \<open>stringToIdentity\<close> and \<open>identityToString\<close> of
  \<^verbatim>\<open>cpp/src/Ice/Instance.cpp\<close>. \<^verbatim>\<open>Ice::Identity\<close> is the struct of a name and a category, ordered
  by name first, as the generated \<^verbatim>\<open>operator<\<close> does.
\<close>

datatype identity = Identity (iname: string) (icategory: string)

instantiation identity :: linorder
begin

definition less_eq_identity :: "identity \<Rightarrow> identity \<Rightarrow> bool" where
  "less_eq_identity x y \<longleftrightarrow> iname x < iname y \<or> (iname x = iname y \<and> icategory x \<le> icategory y)"

definition less_identity :: "identity \<Rightarrow> identity \<Rightarrow> bool" where
  "less_identity x y \<longleftrightarrow> iname x < iname y \<or> (iname x = iname y \<and> icategory x < icategory y)"

instance
  by standard (auto simp: less_eq_identity_def less_identity_def identity.expand)

end

section \<open>Definitions\<close>

text \<open>The exceptions of the two functions.\<close>

datatype identity_error =
    ExtraSlash string
  | InvalidIdentityName string string_error
  | InvalidName string string_error
  | InvalidCategory string string_error
  | EscapeFailed string_error
  | ConversionFailed conv_error

text \<open>The loop that looks for the separator: the position of the only unescaped slash.\<close>

lemma find_slash_progress: "find_char c s pos = Some p \<Longrightarrow> pos \<le> p \<and> p < length s"
  using find_from_Some by blast

function find_slash :: "string \<Rightarrow> nat \<Rightarrow> nat option \<Rightarrow> identity_error + nat option" where
  "find_slash s pos slash =
     (case find_char CHR ''/'' s pos of
        None \<Rightarrow> Inr slash
      | Some p \<Rightarrow>
          if p = 0 \<or> s ! (p - 1) \<noteq> BSLASH then
            (if slash = None then find_slash s (p + 1) (Some p) else Inl (ExtraSlash s))
          else find_slash s (p + 1) slash)"
  by pat_completeness auto
termination
  by (relation "measure (\<lambda>(s, pos, slash). length s - pos)") (auto dest!: find_slash_progress)

declare find_slash.simps [simp del]

definition mapError :: "('e \<Rightarrow> 'f) \<Rightarrow> 'e + 'a \<Rightarrow> 'f + 'a" where
  "mapError f m = (case m of Inl e \<Rightarrow> Inl (f e) | Inr x \<Rightarrow> Inr x)"

definition stringToIdentity :: "char converter option \<Rightarrow> string \<Rightarrow> identity_error + identity" where
  "stringToIdentity conv s =
     bindE (find_slash s 0 None) (\<lambda>slash.
     bindE (case slash of
              None \<Rightarrow>
                bindE (mapError (InvalidIdentityName s) (unescapeString s 0 (length s))) (\<lambda>name. Inr (name, []))
            | Some p \<Rightarrow>
                bindE (mapError (InvalidCategory s) (unescapeString s 0 p)) (\<lambda>category.
                if p + 1 < length s
                then bindE (mapError (InvalidName s) (unescapeString s (p + 1) (length s)))
                       (\<lambda>name. Inr (name, category))
                else Inr ([], category))) (\<lambda>(name, category).
     bindE (mapError ConversionFailed (UTF8ToNative conv name)) (\<lambda>name.
     bindE (mapError ConversionFailed (UTF8ToNative conv category)) (\<lambda>category.
     Inr (Identity name category)))))"

definition identityToString :: "char converter option \<Rightarrow> identity \<Rightarrow> identity_error + string" where
  "identityToString conv ident =
     bindE (mapError ConversionFailed (nativeToUTF8 conv (iname ident))) (\<lambda>name.
     bindE (mapError ConversionFailed (nativeToUTF8 conv (icategory ident))) (\<lambda>category.
     if category = [] then mapError EscapeFailed (escapeString name ''/'')
     else
       bindE (mapError EscapeFailed (escapeString category ''/'')) (\<lambda>c.
       bindE (mapError EscapeFailed (escapeString name ''/'')) (\<lambda>n.
       Inr (c @ ''/'' @ n)))))"

section \<open>The separator\<close>

lemma mapError_simps [simp]: "mapError f (Inl e) = Inl (f e)" "mapError f (Inr x) = Inr x"
  by (simp_all add: mapError_def)

lemma mapError_Inr: "mapError f x = Inr y \<longleftrightarrow> x = Inr y"
  by (cases x) auto


















section \<open>Properties\<close>




text \<open>
  A category that ends in a backslash does not survive: the separator after it is taken for an
  escaped slash, and the text of the identity with category \<open>c\<close>-backslash and name \<open>n\<close> parses as an
  identity without a category.
\<close>

theorem stringToIdentity_backslash_category:
  "identityToString None (Identity ''n'' [CHR ''c'', BSLASH]) = Inr [CHR ''c'', BSLASH, BSLASH, CHR ''/'', CHR ''n''] \<and>
   stringToIdentity None [CHR ''c'', BSLASH, BSLASH, CHR ''/'', CHR ''n'']
     = Inr (Identity [CHR ''c'', BSLASH, CHR ''/'', CHR ''n''] [])"
  by code_simp

end
