(* ===== verification/Protocol.thy ===== *)
theory Protocol
  imports StringUtil
begin

text \<open>
  Protocol constants, versions and version negotiation: \<^verbatim>\<open>cpp/include/Ice/Protocol.h\<close> and
  \<^verbatim>\<open>cpp/src/Ice/Protocol.cpp\<close>. \<^verbatim>\<open>ProtocolVersion\<close> and \<^verbatim>\<open>EncodingVersion\<close> are structs of two
  bytes, so that one record serves both.
\<close>

section \<open>Versions and constants\<close>

record version =
  major :: byte
  minor :: byte

abbreviation Version :: "byte \<Rightarrow> byte \<Rightarrow> version" where
  "Version ma mi \<equiv> \<lparr>major = ma, minor = mi\<rparr>"

definition headerSize :: nat where "headerSize = 14"
definition protocolMajor :: byte where "protocolMajor = 1"
definition protocolMinor :: byte where "protocolMinor = 0"
definition protocolEncodingMajor :: byte where "protocolEncodingMajor = 1"
definition protocolEncodingMinor :: byte where "protocolEncodingMinor = 0"
definition encodingMajor :: byte where "encodingMajor = 1"
definition encodingMinor :: byte where "encodingMinor = 1"

definition requestMsg :: byte where "requestMsg = 0"
definition requestBatchMsg :: byte where "requestBatchMsg = 1"
definition replyMsg :: byte where "replyMsg = 2"
definition validateConnectionMsg :: byte where "validateConnectionMsg = 3"
definition closeConnectionMsg :: byte where "closeConnectionMsg = 4"

definition magic :: "byte list" where "magic = [0x49, 0x63, 0x65, 0x50]"

definition requestHdr :: "byte list" where
  "requestHdr = [magic ! 0, magic ! 1, magic ! 2, magic ! 3, protocolMajor, protocolMinor,
     protocolEncodingMajor, protocolEncodingMinor, requestMsg, 0, 0, 0, 0, 0, 0, 0, 0, 0]"

definition requestBatchHdr :: "byte list" where
  "requestBatchHdr = [magic ! 0, magic ! 1, magic ! 2, magic ! 3, protocolMajor, protocolMinor,
     protocolEncodingMajor, protocolEncodingMinor, requestBatchMsg, 0, 0, 0, 0, 0, 0, 0, 0, 0]"

definition replyHdr :: "byte list" where
  "replyHdr = [magic ! 0, magic ! 1, magic ! 2, magic ! 3, protocolMajor, protocolMinor,
     protocolEncodingMajor, protocolEncodingMinor, replyMsg, 0, 0, 0, 0, 0]"

definition Encoding_1_0 :: version where "Encoding_1_0 = Version 1 0"
definition Encoding_1_1 :: version where "Encoding_1_1 = Version 1 1"
definition Protocol_1_0 :: version where "Protocol_1_0 = Version 1 0"
definition currentProtocol :: version where "currentProtocol = Version protocolMajor protocolMinor"
definition currentProtocolEncoding :: version where
  "currentProtocolEncoding = Version protocolEncodingMajor protocolEncodingMinor"
definition currentEncoding :: version where "currentEncoding = Version encodingMajor encodingMinor"

section \<open>Negotiation\<close>

definition isSupported :: "version \<Rightarrow> version \<Rightarrow> bool" where
  "isSupported v supported \<longleftrightarrow> major v = major supported \<and> minor v \<le> minor supported"

datatype version_error =
    UnsupportedProtocol version version
  | UnsupportedEncoding version version

definition checkSupportedProtocol :: "version \<Rightarrow> version_error + unit" where
  "checkSupportedProtocol v =
     (if \<not> isSupported v currentProtocol then Inl (UnsupportedProtocol v currentProtocol) else Inr ())"

definition checkSupportedProtocolEncoding :: "version \<Rightarrow> version_error + unit" where
  "checkSupportedProtocolEncoding v =
     (if \<not> isSupported v currentProtocolEncoding
      then Inl (UnsupportedEncoding v currentProtocolEncoding) else Inr ())"

definition checkSupportedEncoding :: "version \<Rightarrow> version_error + unit" where
  "checkSupportedEncoding v =
     (if \<not> isSupported v currentEncoding then Inl (UnsupportedEncoding v currentEncoding) else Inr ())"

definition getCompatibleProtocol :: "version \<Rightarrow> version" where
  "getCompatibleProtocol v =
     (if major v \<noteq> major currentProtocol then v
      else if minor v < minor currentProtocol then v else currentProtocol)"

definition getCompatibleEncoding :: "version \<Rightarrow> version" where
  "getCompatibleEncoding v =
     (if major v \<noteq> major currentEncoding then v
      else if minor v < minor currentEncoding then v else currentEncoding)"

section \<open>Version strings\<close>

text \<open>Formatted output of a non-negative \<^verbatim>\<open>int\<close>: \<^verbatim>\<open>operator<<(ostream&, int)\<close>.\<close>

fun dec_string :: "nat \<Rightarrow> string" where
  "dec_string n = (if n < 10 then [chr (48 + n)] else dec_string (n div 10) @ [chr (48 + n mod 10)])"

declare dec_string.simps [simp del]

definition dec_value :: "string \<Rightarrow> int" where
  "dec_value ds = foldl (\<lambda>acc d. acc * 10 + (int (ord d) - 48)) 0 ds"

text \<open>
  Formatted input of an \<^verbatim>\<open>int\<close>: \<^verbatim>\<open>operator>>(istream&, int&)\<close> skips white space, takes an optional sign
  and decimal digits, and fails without digits or outside the range of \<^verbatim>\<open>int\<close>. The result is
  the value and the stream's \<^verbatim>\<open>eof\<close> flag, which is set when the digits reach the end.
\<close>

definition istream_int :: "string \<Rightarrow> (int \<times> bool) option" where
  "istream_int s =
     (let s1 = dropWhile isspace s;
          neg = (s1 \<noteq> [] \<and> hd s1 = CHR ''-'');
          s2 = (if s1 \<noteq> [] \<and> (hd s1 = CHR ''-'' \<or> hd s1 = CHR ''+'') then tl s1 else s1);
          ds = takeWhile isDigit s2;
          v = (if neg then - dec_value ds else dec_value ds)
      in if ds = [] \<or> v < - (2 ^ 31) \<or> v \<ge> 2 ^ 31 then None
         else Some (v, dropWhile isDigit s2 = []))"

text \<open>The four \<^verbatim>\<open>VersionParseException\<close>s, with the string they quote.\<close>

datatype version_parse_error =
    Malformed string
  | InvalidMajor string
  | InvalidMinor string
  | RangeError string

definition stringToMajorMinor :: "string \<Rightarrow> version_parse_error + byte \<times> byte" where
  "stringToMajorMinor str =
     (case find_char CHR ''.'' str 0 of
        None \<Rightarrow> Inl (Malformed str)
      | Some pos \<Rightarrow>
          (case istream_int (take pos str) of
             Some (majVersion, True) \<Rightarrow>
               (case istream_int (drop (pos + 1) str) of
                  Some (minVersion, True) \<Rightarrow>
                    if majVersion < 1 \<or> majVersion > 255 \<or> minVersion < 0 \<or> minVersion > 255
                    then Inl (RangeError str)
                    else Inr (of_int majVersion, of_int minVersion)
                | _ \<Rightarrow> Inl (InvalidMinor str))
           | _ \<Rightarrow> Inl (InvalidMajor str)))"

definition stringToVersion :: "string \<Rightarrow> version_parse_error + version" where
  "stringToVersion str = bindE (stringToMajorMinor str) (\<lambda>(ma, mi). Inr (Version ma mi))"

definition versionToString :: "version \<Rightarrow> string" where
  "versionToString v = dec_string (unat (major v)) @ ''.'' @ dec_string (unat (minor v))"

section \<open>Properties\<close>

lemma dec_string_digits: "list_all isDigit (dec_string n) \<and> dec_string n \<noteq> []"
proof (induction n rule: dec_string.induct)
  case (1 n)
  have "isDigit (chr (48 + m))" if "m < 10" for m :: nat
    using that by (simp add: isDigit_def of_char_of)
  then show ?case using 1 by (subst (1 2) dec_string.simps) auto
qed

lemma dec_value_snoc: "dec_value (ds @ [d]) = dec_value ds * 10 + (int (ord d) - 48)"
  by (simp add: dec_value_def)

lemma dec_value_dec_string: "dec_value (dec_string n) = int n"
proof (induction n rule: dec_string.induct)
  case (1 n)
  show ?case
  proof (cases "n < 10")
    case True
    then show ?thesis by (subst dec_string.simps) (simp add: dec_value_def of_char_of)
  next
    case False
    have "dec_value (dec_string n) = int (n div 10) * 10 + int (n mod 10)"
      using 1 False by (subst dec_string.simps) (simp add: dec_value_snoc of_char_of)
    also have "\<dots> = int n" by (metis div_mult_mod_eq of_nat_add of_nat_mult of_nat_numeral)
    finally show ?thesis .
  qed
qed

lemma isDigit_not: "isDigit c \<Longrightarrow> \<not> isspace c \<and> c \<noteq> CHR ''-'' \<and> c \<noteq> CHR ''+'' \<and> c \<noteq> CHR ''.''"
  by (auto simp: isDigit_def isspace_def)

lemma istream_int_dec_string:
  assumes "n < 2 ^ 31" shows "istream_int (dec_string n) = Some (int n, True)"
proof -
  let ?s = "dec_string n"
  have d: "list_all isDigit ?s" "?s \<noteq> []" using dec_string_digits by auto
  then have "isDigit (hd ?s)" by (cases ?s) auto
  then have h: "\<not> isspace (hd ?s)" "hd ?s \<noteq> CHR ''-''" "hd ?s \<noteq> CHR ''+''" using isDigit_not by auto
  have "dropWhile isspace ?s = ?s" using d(2) h(1) by (cases ?s) auto
  moreover have t: "takeWhile isDigit ?s = ?s" "dropWhile isDigit ?s = []"
    using d(1) by (auto simp: list_all_iff takeWhile_eq_all_conv)
  ultimately show ?thesis
    using assms d(2) h by (simp del: dropWhile_eq_Nil_conv takeWhile_eq_all_conv add: istream_int_def Let_def dec_value_dec_string)
qed

lemma find_dot_dec_string: "find_char CHR ''.'' (dec_string n @ ''.'' @ t) 0 = Some (length (dec_string n))"
proof (rule find_from_eqI)
  fix j assume "0 \<le> j" "j < length (dec_string n)"
  then have "isDigit ((dec_string n @ ''.'' @ t) ! j)"
    using dec_string_digits [of n] by (simp add: nth_append list_all_length)
  then show "CHR ''.'' \<noteq> (dec_string n @ ''.'' @ t) ! j" using isDigit_not by metis
qed auto

text \<open>
  Printing a protocol or encoding version and parsing the text gives the version back, for
  every version whose major number is not zero; the text of a version with major number zero is
  refused with the range error.
\<close>

theorem stringToVersion_versionToString:
  "stringToVersion (versionToString v)
   = (if major v = 0 then Inl (RangeError (versionToString v)) else Inr v)"
proof -
  let ?ma = "unat (major v)" and ?mi = "unat (minor v)"
  have less: "?ma < 256" "?mi < 256" by simp_all
  have "unat x < 2 ^ 31" for x :: byte by (rule less_trans [OF unat_byte_less]) simp
  then have "istream_int (dec_string ?ma) = Some (int ?ma, True)" "istream_int (dec_string ?mi) = Some (int ?mi, True)"
    by (simp_all only: istream_int_dec_string)
  moreover have "(of_nat ?ma :: byte) = major v" "(of_nat ?mi :: byte) = minor v" by simp_all
  ultimately show ?thesis
    using find_dot_dec_string [of ?ma "dec_string ?mi"]
    by (auto simp: stringToVersion_def stringToMajorMinor_def versionToString_def)
qed

text \<open>
  Encoding negotiation picks the greatest supported version that does not exceed the peer's: with the
  same major number the result is supported and carries the smaller of the two minor numbers,
  and it is the peer's own version exactly if that one is supported; with another major number the
  version is returned as it is and \<open>checkSupportedEncoding\<close> refuses it.
\<close>

theorem getCompatibleEncoding_greatest:
  "getCompatibleEncoding v
     = (if major v = major currentEncoding then Version (major v) (min (minor v) (minor currentEncoding)) else v) \<and>
   (isSupported (getCompatibleEncoding v) currentEncoding \<longleftrightarrow> major v = major currentEncoding) \<and>
   (getCompatibleEncoding v = v \<longleftrightarrow> isSupported v currentEncoding \<or> major v \<noteq> major currentEncoding) \<and>
   (major v \<noteq> major currentEncoding \<longleftrightarrow>
      checkSupportedEncoding (getCompatibleEncoding v) = Inl (UnsupportedEncoding v currentEncoding))"
proof -
  have eq: "getCompatibleEncoding v
     = (if major v = major currentEncoding then Version (major v) (min (minor v) (minor currentEncoding)) else v)"
    by (cases v) (auto simp: getCompatibleEncoding_def currentEncoding_def min_def)
  show ?thesis
    unfolding eq by (cases v) (auto simp: isSupported_def checkSupportedEncoding_def min_def)
qed

lemma getCompatibleEncoding_greatest_witness:
  "getCompatibleEncoding (Version 1 7) = Encoding_1_1 \<and>
   checkSupportedEncoding (getCompatibleEncoding (Version 2 0))
     = Inl (UnsupportedEncoding (Version 2 0) currentEncoding)"
  using getCompatibleEncoding_greatest [of "Version 1 7"] getCompatibleEncoding_greatest [of "Version 2 0"]
  by (auto simp add: currentEncoding_def Encoding_1_1_def encodingMajor_def encodingMinor_def)

end
