(* ===== verification/BasicStream.thy ===== *)
theory BasicStream
  imports Protocol StringConverter
begin

text \<open>
  The marshalling stream: \<^verbatim>\<open>cpp/include/Ice/BasicStream.h\<close> and \<^verbatim>\<open>cpp/src/Ice/BasicStream.cpp\<close>. This theory has
  the state of a stream, its constructors, the scalar types, sizes, blobs and the sequence
  size check. The buffer is the byte list that \<open>Buffer.contents\<close> abstracts to; the iterator \<open>i\<close> is an
  offset into it. Pointers are compared as addresses of one flat memory, as the code does. A read
  or store outside the buffer, and an \<^verbatim>\<open>int\<close> computation that overflows, are undefined in C++
  and give the error \<open>CxxUndefined\<close>. The byte order of the host is part of the state.
\<close>

section \<open>State\<close>

datatype stream_error =
    UnmarshalOutOfBounds
  | EncapsulationError
  | MemoryLimit nat nat
  | MarshalError string
  | VersionError version_error
  | ConversionError conv_error
  | AssertFailed
  | CxxUndefined

text \<open>
  The configurations the sources are compiled for: \<open>X86\<close> stands for the little-endian processors on which
  unaligned access is allowed, \<open>BigEndian\<close> for \<^verbatim>\<open>ICE_BIG_ENDIAN\<close>, \<open>LittleByteBigWord\<close> for
  \<^verbatim>\<open>ICE_LITTLEBYTE_BIGWORD\<close>, the ARM format with the halves of a double exchanged.
\<close>

datatype endian = X86 | LittleEndian | BigEndian | LittleByteBigWord

datatype format_type = DefaultFormat | CompactFormat | SlicedFormat

record read_encaps =
  rstart :: nat
  rsz :: int
  rencoding :: version

record write_encaps =
  wstart :: nat
  wencoding :: version
  wformat :: format_type

text \<open>
  The encapsulation pointers with their \<^verbatim>\<open>previous\<close> chains are lists, innermost first, whose last
  element is the pre-allocated one. The wide characters of the platform have 32 bits.
\<close>

record stream =
  b :: "byte list"
  i :: nat
  closure :: nat
  encoding :: version
  readEncapsStack :: "read_encaps list"
  writeEncapsStack :: "write_encaps list"
  sliceObjects :: bool
  messageSizeMax :: nat
  unlimited :: bool
  stringConverter :: "char converter option"
  wstringConverter :: "int32 converter"
  startSeq :: int
  minSeqSize :: int
  sizePos :: int
  host :: endian

type_synonym 'a reader = "stream \<Rightarrow> stream_error + 'a \<times> stream"
type_synonym writer = "stream \<Rightarrow> stream_error + stream"

definition BasicStream_new ::
  "endian \<Rightarrow> nat \<Rightarrow> char converter option \<Rightarrow> int32 converter \<Rightarrow> version \<Rightarrow> bool \<Rightarrow> stream" where
  "BasicStream_new h maxSize conv wconv enc unlim =
     \<lparr>b = [], i = 0, closure = 0, encoding = enc, readEncapsStack = [], writeEncapsStack = [],
      sliceObjects = True, messageSizeMax = maxSize, unlimited = unlim, stringConverter = conv,
      wstringConverter = wconv, startSeq = -1, minSeqSize = 0, sizePos = -1, host = h\<rparr>"

text \<open>A wide-string converter that refuses everything, for streams that carry no wide strings.\<close>

definition no_wconv :: "int32 converter" where
  "no_wconv = \<lparr>toUTF8 = (\<lambda>w. Inl StringConversionFailed), fromUTF8 = (\<lambda>x. Inl StringConversionFailed)\<rparr>"

definition BasicStream_view ::
  "endian \<Rightarrow> nat \<Rightarrow> char converter option \<Rightarrow> int32 converter \<Rightarrow> version \<Rightarrow> byte list \<Rightarrow> stream" where
  "BasicStream_view h maxSize conv wconv enc bytes =
     (BasicStream_new h maxSize conv wconv enc False)\<lparr>b := bytes\<rparr>"

text \<open>Popping the encapsulations above the pre-allocated one.\<close>

definition preallocated :: "'a list \<Rightarrow> 'a list" where
  "preallocated st = (if st = [] then [] else [last st])"

definition clear :: "stream \<Rightarrow> stream" where
  "clear s = s\<lparr>readEncapsStack := preallocated (readEncapsStack s),
               writeEncapsStack := preallocated (writeEncapsStack s),
               startSeq := -1, sizePos := -1, sliceObjects := True\<rparr>"

definition resetEncaps :: "stream \<Rightarrow> stream" where
  "resetEncaps s = s\<lparr>readEncapsStack := preallocated (readEncapsStack s),
                     writeEncapsStack := preallocated (writeEncapsStack s)\<rparr>"

text \<open>
  \<^verbatim>\<open>swap\<close>: the buffers and the closures are exchanged, both streams lose their encapsulations, and the
  counters are exchanged; encoding and converters stay.
\<close>

definition swap :: "stream \<Rightarrow> stream \<Rightarrow> stream \<times> stream" where
  "swap s t =
     (let s1 = resetEncaps (s\<lparr>b := b t, i := i t, closure := closure t\<rparr>);
          t1 = resetEncaps (t\<lparr>b := b s, i := i s, closure := closure s\<rparr>)
      in (s1\<lparr>unlimited := unlimited t1, startSeq := startSeq t1, minSeqSize := minSeqSize t1, sizePos := sizePos t1\<rparr>,
          t1\<lparr>unlimited := unlimited s1, startSeq := startSeq s1, minSeqSize := minSeqSize s1, sizePos := sizePos s1\<rparr>))"

section \<open>Bytes in and out\<close>

text \<open>The bytes a growing buffer gains are indeterminate; they are overwritten before use.\<close>

definition resize :: "nat \<Rightarrow> writer" where
  "resize n s =
     (if \<not> unlimited s \<and> n > messageSizeMax s then Inl (MemoryLimit n (messageSizeMax s))
      else Inr (s\<lparr>b := take n (b s) @ replicate (n - length (b s)) 0\<rparr>))"

definition store :: "nat \<Rightarrow> byte list \<Rightarrow> writer" where
  "store pos bs s =
     (if pos + length bs \<le> length (b s) then Inr (s\<lparr>b := memcpy_at (b s) pos bs\<rparr>) else Inl CxxUndefined)"

text \<open>\<open>n\<close> bytes at the iterator, which moves past them.\<close>

definition fetch :: "nat \<Rightarrow> byte list reader" where
  "fetch n s =
     (if i s + n \<le> length (b s) then Inr (take n (drop (i s) (b s)), s\<lparr>i := i s + n\<rparr>) else Inl CxxUndefined)"

text \<open>A check \<^verbatim>\<open>b.end() - i < n\<close>, which throws.\<close>

definition need :: "nat \<Rightarrow> stream \<Rightarrow> stream_error + unit" where
  "need n s = (if int (length (b s)) - int (i s) < int n then Inl UnmarshalOutOfBounds else Inr ())"

definition writeByte :: "byte \<Rightarrow> writer" where
  "writeByte v s = Inr (s\<lparr>b := b s @ [v]\<rparr>)"

definition readByte :: "byte reader" where
  "readByte s =
     (if i s \<ge> length (b s) then Inl UnmarshalOutOfBounds else Inr (b s ! i s, s\<lparr>i := i s + 1\<rparr>))"

definition writeBool :: "bool \<Rightarrow> writer" where
  "writeBool v s = Inr (s\<lparr>b := b s @ [if v then 1 else 0]\<rparr>)"

definition readBool :: "bool reader" where
  "readBool s =
     (if i s \<ge> length (b s) then Inl UnmarshalOutOfBounds else Inr (0 \<noteq> b s ! i s, s\<lparr>i := i s + 1\<rparr>))"

section \<open>Fixed-width numbers\<close>

text \<open>
  The object representation of a value of \<open>w\<close> bytes, and of a double. Floating-point values are their
  bit patterns.
\<close>

definition mem_image :: "endian \<Rightarrow> nat \<Rightarrow> nat \<Rightarrow> byte list" where
  "mem_image e w x = (if e = BigEndian then rev (nat_to_le w x) else nat_to_le w x)"

definition mem_value :: "endian \<Rightarrow> byte list \<Rightarrow> nat" where
  "mem_value e mem = le_to_nat (if e = BigEndian then rev mem else mem)"

definition double_image :: "endian \<Rightarrow> nat \<Rightarrow> byte list" where
  "double_image e x =
     (case e of BigEndian \<Rightarrow> rev (nat_to_le 8 x)
      | LittleByteBigWord \<Rightarrow> drop 4 (nat_to_le 8 x) @ take 4 (nat_to_le 8 x)
      | _ \<Rightarrow> nat_to_le 8 x)"

definition double_value :: "endian \<Rightarrow> byte list \<Rightarrow> nat" where
  "double_value e mem =
     le_to_nat (case e of BigEndian \<Rightarrow> rev mem
                | LittleByteBigWord \<Rightarrow> drop 4 mem @ take 4 mem
                | _ \<Rightarrow> mem)"

text \<open>
  The unrolled copies between memory and the wire: downwards (\<^verbatim>\<open>*dest++ = *src--\<close>, and
  \<^verbatim>\<open>*dest-- = *src++\<close>) with \<^verbatim>\<open>ICE_BIG_ENDIAN\<close>, upwards otherwise; for a double with exchanged halves, by
  index.
\<close>

definition copy_num :: "endian \<Rightarrow> byte list \<Rightarrow> byte list" where
  "copy_num e src = (if e = BigEndian then rev src else src)"

definition copy_double :: "endian \<Rightarrow> byte list \<Rightarrow> byte list" where
  "copy_double e src =
     (case e of BigEndian \<Rightarrow> rev src
      | LittleByteBigWord \<Rightarrow>
          [src ! 4, src ! 5, src ! 6, src ! 7, src ! 0, src ! 1, src ! 2, src ! 3]
      | _ \<Rightarrow> src)"

definition write_scalar :: "(endian \<Rightarrow> byte list \<Rightarrow> byte list) \<Rightarrow> byte list \<Rightarrow> writer" where
  "write_scalar copy mem s =
     (let pos = length (b s)
      in bindE (resize (pos + length mem) s) (\<lambda>s1. store pos (copy (host s) mem) s1))"

definition read_scalar :: "(endian \<Rightarrow> byte list \<Rightarrow> byte list) \<Rightarrow> nat \<Rightarrow> byte list reader" where
  "read_scalar copy w s =
     bindE (need w s) (\<lambda>_. bindS (fetch w s) (\<lambda>src s1. Inr (copy (host s) src, s1)))"

definition writeShort :: "int16 \<Rightarrow> writer" where
  "writeShort v s = write_scalar copy_num (mem_image (host s) 2 (unat v)) s"

definition readShort :: "int16 reader" where
  "readShort s = bindS (read_scalar copy_num 2 s) (\<lambda>mem s1. Inr (of_nat (mem_value (host s) mem), s1))"

text \<open>\<^verbatim>\<open>write(Int, dest)\<close> stores at a given position, \<^verbatim>\<open>write(Int)\<close> appends.\<close>

definition writeInt_at :: "int32 \<Rightarrow> nat \<Rightarrow> writer" where
  "writeInt_at v dest s = store dest (copy_num (host s) (mem_image (host s) 4 (unat v))) s"

definition writeInt :: "int32 \<Rightarrow> writer" where
  "writeInt v s = (let pos = length (b s) in bindE (resize (pos + 4) s) (\<lambda>s1. writeInt_at v pos s1))"

definition readInt :: "int32 reader" where
  "readInt s = bindS (read_scalar copy_num 4 s) (\<lambda>mem s1. Inr (of_nat (mem_value (host s) mem), s1))"

definition writeLong :: "int64 \<Rightarrow> writer" where
  "writeLong v s = write_scalar copy_num (mem_image (host s) 8 (unat v)) s"

definition readLong :: "int64 reader" where
  "readLong s = bindS (read_scalar copy_num 8 s) (\<lambda>mem s1. Inr (of_nat (mem_value (host s) mem), s1))"

definition writeFloat :: "int32 \<Rightarrow> writer" where
  "writeFloat v s = write_scalar copy_num (mem_image (host s) 4 (unat v)) s"

definition readFloat :: "int32 reader" where
  "readFloat s = bindS (read_scalar copy_num 4 s) (\<lambda>mem s1. Inr (of_nat (mem_value (host s) mem), s1))"

definition writeDouble :: "int64 \<Rightarrow> writer" where
  "writeDouble v s = write_scalar copy_double (double_image (host s) (unat v)) s"

definition readDouble :: "int64 reader" where
  "readDouble s = bindS (read_scalar copy_double 8 s) (\<lambda>mem s1. Inr (of_nat (double_value (host s) mem), s1))"

section \<open>Sizes\<close>

definition writeSize :: "int32 \<Rightarrow> writer" where
  "writeSize v s =
     (if sint v < 0 then Inl AssertFailed
      else if sint v > 254 then bindE (writeByte 255 s) (writeInt v)
      else writeByte (ucast v) s)"

definition rewriteSize :: "int32 \<Rightarrow> nat \<Rightarrow> writer" where
  "rewriteSize v dest s =
     (if sint v < 0 then Inl AssertFailed
      else if sint v > 254 then bindE (store dest [255] s) (writeInt_at v (dest + 1))
      else store dest [ucast v] s)"

definition readSize :: "nat reader" where
  "readSize s =
     bindS (readByte s) (\<lambda>byte s1.
     if unat byte = 255 then
       bindS (readInt s1) (\<lambda>v s2. if sint v < 0 then Inl UnmarshalOutOfBounds else Inr (nat (sint v), s2))
     else Inr (unat byte, s1))"

text \<open>
  \<open>startSize\<close> leaves room for a fixed-width size that \<open>endSize\<close> fills in; conversions to
  \<^verbatim>\<open>Ice::Int\<close> wrap.
\<close>

definition as_int :: "int \<Rightarrow> int" where
  "as_int x = (x + 2 ^ 31) mod 2 ^ 32 - 2 ^ 31"

definition startSize :: writer where
  "startSize s = writeInt 0 (s\<lparr>sizePos := as_int (int (length (b s)))\<rparr>)"

definition rewrite :: "int32 \<Rightarrow> nat \<Rightarrow> writer" where
  "rewrite value p = writeInt_at value p"

definition endSize :: writer where
  "endSize s =
     (if sizePos s < 0 then Inl AssertFailed
      else bindE (rewrite (of_int (as_int (int (length (b s))) - sizePos s - 4)) (nat (sizePos s)) s)
             (\<lambda>s1. Inr (s1\<lparr>sizePos := -1\<rparr>)))"

section \<open>The sequence size check\<close>

text \<open>The range of a C++ \<^verbatim>\<open>int\<close>.\<close>

definition int_ok :: "int \<Rightarrow> bool" where
  "int_ok x \<longleftrightarrow> - (2 ^ 31) \<le> x \<and> x < 2 ^ 31"

definition readAndCheckSeqSize :: "nat \<Rightarrow> nat reader" where
  "readAndCheckSeqSize minSize s =
     bindS (readSize s) (\<lambda>sz s1.
     if sz = 0 then Inr (sz, s1)
     else
       (let bump = int sz * int minSize;
            s2 = (if startSeq s1 = -1 \<or> int (i s1) > startSeq s1 + minSeqSize s1
                  then s1\<lparr>startSeq := as_int (int (i s1)), minSeqSize := bump\<rparr>
                  else s1\<lparr>minSeqSize := minSeqSize s1 + bump\<rparr>)
        in if \<not> int_ok bump \<or> \<not> int_ok (minSeqSize s2) \<or> \<not> int_ok (startSeq s2 + minSeqSize s2)
           then Inl CxxUndefined
           else if startSeq s2 + minSeqSize s2 > as_int (int (length (b s2))) then Inl UnmarshalOutOfBounds
           else Inr (sz, s2)))"

section \<open>Blobs and skipping\<close>

text \<open>The two overloads of \<^verbatim>\<open>writeBlob\<close> store a byte vector and a pointer with a size.\<close>

definition writeBlob :: "byte list \<Rightarrow> writer" where
  "writeBlob v s =
     (if v \<noteq> [] then
        (let pos = length (b s) in bindE (resize (pos + length v) s) (\<lambda>s1. store pos v s1))
      else Inr s)"

definition readBlob :: "int \<Rightarrow> byte list reader" where
  "readBlob sz s =
     (if sz > 0 then
        (if int (length (b s)) - int (i s) < sz then Inl UnmarshalOutOfBounds else fetch (nat sz) s)
      else Inr ([], s))"

text \<open>
  \<^verbatim>\<open>skip(size_type)\<close>: the address \<^verbatim>\<open>i + size\<close> wraps, so that the conversion of a negative \<^verbatim>\<open>Int\<close> moves the
  iterator back. Before the start of the buffer it would point outside of it.
\<close>

definition skip :: "int \<Rightarrow> writer" where
  "skip n s =
     (if int (i s) + n > int (length (b s)) then Inl UnmarshalOutOfBounds
      else if int (i s) + n < 0 then Inl CxxUndefined
      else Inr (s\<lparr>i := nat (int (i s) + n)\<rparr>))"

definition skipSize :: writer where
  "skipSize s = bindS (readByte s) (\<lambda>byte s1. if unat byte = 255 then skip 4 s1 else Inr s1)"

section \<open>Enumerators\<close>

definition getReadEncoding :: "stream \<Rightarrow> version" where
  "getReadEncoding s = (case readEncapsStack s of [] \<Rightarrow> encoding s | e # _ \<Rightarrow> rencoding e)"

definition getWriteEncoding :: "stream \<Rightarrow> version" where
  "getWriteEncoding s = (case writeEncapsStack s of [] \<Rightarrow> encoding s | e # _ \<Rightarrow> wencoding e)"

definition readEnum :: "int \<Rightarrow> int reader" where
  "readEnum maxValue s =
     (if getReadEncoding s = Encoding_1_0 then
        (if maxValue < 127 then bindS (readByte s) (\<lambda>v s1. Inr (uint v, s1))
         else if maxValue < 32767 then bindS (readShort s) (\<lambda>v s1. Inr (sint v, s1))
         else bindS (readInt s) (\<lambda>v s1. Inr (sint v, s1)))
      else bindS (readSize s) (\<lambda>v s1. Inr (int v, s1)))"

definition writeEnum :: "int \<Rightarrow> int \<Rightarrow> writer" where
  "writeEnum v maxValue s =
     (if getWriteEncoding s = Encoding_1_0 then
        (if maxValue < 127 then writeByte (of_int v) s
         else if maxValue < 32767 then writeShort (of_int v) s
         else writeInt (of_int v) s)
      else writeSize (of_int v) s)"

text \<open>The stream helper for enumerations checks the range on both sides.\<close>

definition enum_write :: "int \<Rightarrow> int \<Rightarrow> int \<Rightarrow> writer" where
  "enum_write minValue maxValue v s =
     (if v < minValue \<or> v > maxValue then Inl (MarshalError ''enumerator out of range'')
      else writeEnum v maxValue s)"

definition enum_read :: "int \<Rightarrow> int \<Rightarrow> int reader" where
  "enum_read minValue maxValue s =
     bindS (readEnum maxValue s) (\<lambda>v s1.
     if v < minValue \<or> v > maxValue then Inl (MarshalError ''enumerator out of range'') else Inr (v, s1))"

end
