(* ===== verification/StdMap.thy ===== *)
theory StdMap
  imports Prelude
begin

text \<open>
  \<^verbatim>\<open>std::map\<close> as the sources use it: the entries in the order of their keys, so that iteration, iterators
  kept as hints, and \<^verbatim>\<open>erase(p++)\<close> can be followed exactly. The locale is the interface the
  components rely on, and the ordered list is its implementation.
\<close>

section \<open>The interface\<close>

lemma alist_from_keys: "distinct (map fst xs) \<Longrightarrow> map (\<lambda>k. (k, the (map_of xs k))) (map fst xs) = xs"
  by (auto intro!: map_idI simp: map_of_is_SomeI)

lemma sorted_alist_unique:
  fixes xs ys :: "('k :: linorder \<times> 'v) list"
  assumes "sorted_wrt (<) (map fst xs)" "sorted_wrt (<) (map fst ys)" "map_of xs = map_of ys"
  shows "xs = ys"
proof -
  have "set (map fst xs) = set (map fst ys)"
    using assms(3) by (metis dom_map_of_conv_image_fst set_map)
  then have "map fst xs = map fst ys" using assms(1,2) by (metis strict_sorted_equal)
  moreover have "distinct (map fst xs)" "distinct (map fst ys)"
    using assms(1,2) by (simp_all only: strict_sorted_iff)
  ultimately show ?thesis using alist_from_keys assms(3) by metis
qed

locale ordered_map =
  fixes empty :: 'm and lookup :: "'m \<Rightarrow> 'k :: linorder \<Rightarrow> 'v option"
    and put :: "'k \<Rightarrow> 'v \<Rightarrow> 'm \<Rightarrow> 'm" and erase :: "'k \<Rightarrow> 'm \<Rightarrow> 'm"
    and entries :: "'m \<Rightarrow> ('k \<times> 'v) list" and inv :: "'m \<Rightarrow> bool"
  assumes empty_inv: "inv empty" and empty_lookup: "lookup empty = Map.empty"
    and put_inv: "inv m \<Longrightarrow> inv (put k v m)"
    and put_lookup: "inv m \<Longrightarrow> lookup (put k v m) = (lookup m)(k \<mapsto> v)"
    and erase_inv: "inv m \<Longrightarrow> inv (erase k m)"
    and erase_lookup: "inv m \<Longrightarrow> lookup (erase k m) = (lookup m)(k := None)"
    and entries_lookup: "inv m \<Longrightarrow> map_of (entries m) = lookup m"
    and entries_sorted: "inv m \<Longrightarrow> sorted_wrt (<) (map fst (entries m))"
begin

text \<open>Inserting entries one after the other, the last entry of a key wins.\<close>

fun put_all :: "('k \<times> 'v) list \<Rightarrow> 'm \<Rightarrow> 'm" where
  "put_all [] m = m"
| "put_all ((k, v) # kvs) m = put_all kvs (put k v m)"

lemma put_all_lookup:
  "inv m \<Longrightarrow> inv (put_all kvs m) \<and> lookup (put_all kvs m) = lookup m ++ map_of (rev kvs)"
proof (induction kvs arbitrary: m)
  case (Cons kv kvs)
  obtain k v where kv: "kv = (k, v)" by force
  from Cons.IH [OF put_inv [OF Cons.prems]] show ?case
    using put_lookup [OF Cons.prems] kv by (auto simp: map_add_def fun_eq_iff split: option.splits)
qed simp

text \<open>Two maps with the same associations have the same entries in the same order.\<close>

lemma entries_unique:
  assumes "inv m" "inv n" "lookup m = lookup n"
  shows "entries m = entries n"
proof -
  have "map_of (entries m) = map_of (entries n)" using assms entries_lookup by metis
  with entries_sorted assms show ?thesis by (metis sorted_alist_unique)
qed

end

section \<open>The ordered list\<close>

definition smap_inv :: "('k :: linorder \<times> 'v) list \<Rightarrow> bool" where
  "smap_inv m \<longleftrightarrow> sorted_wrt (<) (map fst m)"

abbreviation smap_find :: "('k :: linorder \<times> 'v) list \<Rightarrow> 'k \<Rightarrow> 'v option" where
  "smap_find \<equiv> map_of"

fun smap_put :: "'k :: linorder \<Rightarrow> 'v \<Rightarrow> ('k \<times> 'v) list \<Rightarrow> ('k \<times> 'v) list" where
  "smap_put k v [] = [(k, v)]"
| "smap_put k v ((k', v') # m) =
     (if k < k' then (k, v) # (k', v') # m
      else if k = k' then (k, v) # m
      else (k', v') # smap_put k v m)"

definition smap_erase :: "'k :: linorder \<Rightarrow> ('k \<times> 'v) list \<Rightarrow> ('k \<times> 'v) list" where
  "smap_erase k m = filter (\<lambda>(k', v'). k' \<noteq> k) m"

text \<open>The key after \<open>k\<close> in iteration order: where \<^verbatim>\<open>erase(p++)\<close> leaves the iterator.\<close>

definition smap_next :: "'k :: linorder \<Rightarrow> ('k \<times> 'v) list \<Rightarrow> 'k option" where
  "smap_next k m = (case filter (\<lambda>(k', v'). k < k') m of [] \<Rightarrow> None | (k', v') # _ \<Rightarrow> Some k')"

lemma set_smap_put: "fst ` set (smap_put k v m) = insert k (fst ` set m)"
  by (induction k v m rule: smap_put.induct) auto

lemma smap_put_inv: "smap_inv m \<Longrightarrow> smap_inv (smap_put k v m)"
proof (induction k v m rule: smap_put.induct)
  case (2 k v k' v' m)
  then show ?case using set_smap_put [of k v m] by (fastforce simp: smap_inv_def)
qed (simp add: smap_inv_def)

lemma smap_put_find: "smap_inv m \<Longrightarrow> map_of (smap_put k v m) = (map_of m)(k \<mapsto> v)"
  by (induction k v m rule: smap_put.induct) (auto simp: smap_inv_def fun_eq_iff)

lemma smap_erase_inv: "smap_inv m \<Longrightarrow> smap_inv (smap_erase k m)"
proof (induction m)
  case (Cons kv m)
  then show ?case by (cases kv) (auto simp: smap_inv_def smap_erase_def)
qed (simp add: smap_inv_def smap_erase_def)

lemma smap_erase_find: "map_of (smap_erase k m) = (map_of m)(k := None)"
  by (induction m) (auto simp: smap_erase_def fun_eq_iff)

interpretation smap: ordered_map "[]" map_of smap_put smap_erase "\<lambda>m. m" smap_inv
  by unfold_locales
    (simp_all add: smap_put_inv smap_put_find smap_erase_inv smap_erase_find, simp_all add: smap_inv_def)

lemma smap_inv_Nil [simp]: "smap_inv []"
  by (rule smap.empty_inv)

lemma smap_inv_Cons: "smap_inv ((k, v) # m) \<longleftrightarrow> (\<forall>k' \<in> fst ` set m. k < k') \<and> smap_inv m"
  by (auto simp: smap_inv_def)

lemma smap_inv_distinct: "smap_inv m \<Longrightarrow> distinct (map fst m)"
  by (auto simp: smap_inv_def strict_sorted_iff)

lemma smap_put_same: "map_of m k = Some v \<Longrightarrow> smap_inv m \<Longrightarrow> smap_put k v m = m"
  by (induction k v m rule: smap_put.induct) (fastforce simp: smap_inv_Cons dest: map_of_SomeD split: if_splits)+

text \<open>Appending a greater key at the end: \<^verbatim>\<open>insert(v.end(), p)\<close> for ascending keys.\<close>

lemma smap_put_end: "(\<forall>k' \<in> fst ` set m. k' < k) \<Longrightarrow> smap_put k v m = m @ [(k, v)]"
  by (induction k v m rule: smap_put.induct) auto

section \<open>Iterators kept as hints\<close>

text \<open>
  A hint is \<^verbatim>\<open>end()\<close> or points to an element that is in the map. Inserting keeps it valid, and so does moving it to
  the next element when its own is erased.
\<close>

definition hint_ok :: "'k option \<Rightarrow> ('k :: linorder \<times> 'v) list \<Rightarrow> bool" where
  "hint_ok hint m \<longleftrightarrow> (case hint of None \<Rightarrow> True | Some h \<Rightarrow> smap_find m h \<noteq> None)"

lemma smap_next_Some:
  assumes "smap_next k m = Some k'" shows "k < k' \<and> smap_find m k' \<noteq> None"
proof -
  from assms obtain v rest where "filter (\<lambda>(k', v'). k < k') m = (k', v) # rest"
    by (auto simp: smap_next_def split: list.splits)
  then have "(k', v) \<in> set (filter (\<lambda>(k', v'). k < k') m)" by simp
  then show ?thesis by (force simp: map_of_eq_None_iff image_iff)
qed

lemma hint_ok_simps [simp]: "hint_ok None m" "hint_ok (Some k) m \<longleftrightarrow> smap_find m k \<noteq> None"
  by (simp_all add: hint_ok_def)

lemma hint_ok_put: "smap_inv m \<Longrightarrow> hint_ok h m \<Longrightarrow> hint_ok h (smap_put k v m)"
  by (auto simp: hint_ok_def smap_put_find split: option.splits)

lemma hint_ok_erase:
  assumes "hint_ok h m" shows "hint_ok (if h = Some k then smap_next k m else h) (smap_erase k m)"
proof (cases "h = Some k")
  case True
  then show ?thesis using smap_next_Some [of k m] by (auto simp: hint_ok_def smap_erase_find split: option.splits)
next
  case False
  then show ?thesis using assms by (auto simp: hint_ok_def smap_erase_find split: option.splits)
qed

end
