(* ===== verification/StreamCodec.thy ===== *)
theory StreamCodec
  imports BasicStream StdMap
begin

text \<open>
  What the scalar operations of a stream do to its bytes, and the contract of a marshalled type: the locale
  \<open>codec\<close>, interpreted for every built-in type, with the generic sequence and dictionary helpers of
  \<^verbatim>\<open>cpp/include/Ice/StreamHelpers.h\<close> as its clients.
\<close>

section \<open>The effect of the scalar operations\<close>

abbreviation room :: "nat \<Rightarrow> stream \<Rightarrow> bool" where
  "room n s \<equiv> unlimited s \<or> length (b s) + n \<le> messageSizeMax s"

abbreviation appended :: "byte list \<Rightarrow> stream \<Rightarrow> stream_error + stream" where
  "appended bs s \<equiv> Inr (s\<lparr>b := b s @ bs\<rparr>)"

lemma append_store:
  assumes "length bs = n"
  shows "bindE (resize (length (b s) + n) s) (\<lambda>s1. store (length (b s)) bs s1)
    = (if room n s then appended bs s else Inl (MemoryLimit (length (b s) + n) (messageSizeMax s)))"
  using assms by (auto simp: resize_def store_def memcpy_at_append_end not_less)

lemma copy_num_image [simp]: "copy_num e (mem_image e w x) = nat_to_le w x"
  by (simp add: copy_num_def mem_image_def)

lemma mem_value_copy_num [simp]: "mem_value e (copy_num e bs) = le_to_nat bs"
  by (simp add: copy_num_def mem_value_def)

lemma length_mem_image [simp]: "length (mem_image e w x) = w"
  by (simp add: mem_image_def)

lemma length_double_image [simp]: "length (double_image e x) = 8"
  by (simp add: double_image_def split: endian.split)

lemma length_8_cases: "length xs = 8 \<longleftrightarrow> (\<exists>a b c d e f g h. xs = [a, b, c, d, e, f, g, h])"
  by (auto simp: numeral_eq_Suc length_Suc_conv)

lemma copy_double_image [simp]: "copy_double e (double_image e x) = nat_to_le 8 x"
proof -
  obtain xs where xs: "nat_to_le 8 x = xs" "length xs = 8" by (metis length_nat_to_le)
  then show ?thesis
    unfolding double_image_def copy_double_def xs(1) by (auto simp: length_8_cases split: endian.split)
qed

lemma double_value_copy [simp]: "length bs = 8 \<Longrightarrow> double_value e (copy_double e bs) = le_to_nat bs"
  by (auto simp: length_8_cases double_value_def copy_double_def split: endian.split)

lemma write_scalar_eq:
  assumes "length (copy (host s) mem) = length mem"
  shows "write_scalar copy mem s = (if room (length mem) s then appended (copy (host s) mem) s
     else Inl (MemoryLimit (length (b s) + length mem) (messageSizeMax s)))"
  unfolding write_scalar_def Let_def using append_store [OF assms] .

lemma write_num_eq:
  "writeShort v s = (if room 2 s then appended (nat_to_le 2 (unat v)) s
     else Inl (MemoryLimit (length (b s) + 2) (messageSizeMax s)))"
  "writeInt v' s = (if room 4 s then appended (nat_to_le 4 (unat v')) s
     else Inl (MemoryLimit (length (b s) + 4) (messageSizeMax s)))"
  "writeLong w s = (if room 8 s then appended (nat_to_le 8 (unat w)) s
     else Inl (MemoryLimit (length (b s) + 8) (messageSizeMax s)))"
  "writeFloat v' s = (if room 4 s then appended (nat_to_le 4 (unat v')) s
     else Inl (MemoryLimit (length (b s) + 4) (messageSizeMax s)))"
  "writeDouble w s = (if room 8 s then appended (nat_to_le 8 (unat w)) s
     else Inl (MemoryLimit (length (b s) + 8) (messageSizeMax s)))"
proof -
  have h: "host s1 = host s" if "resize n s = Inr s1" for n s1
    using that by (auto simp: resize_def split: if_splits)
  have "writeInt v' s = bindE (resize (length (b s) + 4) s)
      (\<lambda>s1. store (length (b s)) (nat_to_le 4 (unat v')) s1)"
    unfolding writeInt_def writeInt_at_def Let_def
    by (cases "resize (length (b s) + 4) s") (simp_all add: h)
  then show "writeInt v' s = (if room 4 s then appended (nat_to_le 4 (unat v')) s
     else Inl (MemoryLimit (length (b s) + 4) (messageSizeMax s)))"
    using append_store [of "nat_to_le 4 (unat v')" 4 s] by simp
qed (simp_all add: writeShort_def writeLong_def writeFloat_def writeDouble_def write_scalar_eq)

lemma read_scalar_eq:
  "read_scalar copy w s =
     (if i s + w \<le> length (b s) then Inr (copy (host s) (take w (drop (i s) (b s))), s\<lparr>i := i s + w\<rparr>)
      else Inl UnmarshalOutOfBounds)"
  by (auto simp: read_scalar_def need_def fetch_def)

lemma read_num_eq:
  "readShort s = (if i s + 2 \<le> length (b s)
     then Inr (of_nat (le_to_nat (take 2 (drop (i s) (b s)))), s\<lparr>i := i s + 2\<rparr>) else Inl UnmarshalOutOfBounds)"
  "readInt s = (if i s + 4 \<le> length (b s)
     then Inr (of_nat (le_to_nat (take 4 (drop (i s) (b s)))), s\<lparr>i := i s + 4\<rparr>) else Inl UnmarshalOutOfBounds)"
  "readLong s = (if i s + 8 \<le> length (b s)
     then Inr (of_nat (le_to_nat (take 8 (drop (i s) (b s)))), s\<lparr>i := i s + 8\<rparr>) else Inl UnmarshalOutOfBounds)"
  "readFloat s = (if i s + 4 \<le> length (b s)
     then Inr (of_nat (le_to_nat (take 4 (drop (i s) (b s)))), s\<lparr>i := i s + 4\<rparr>) else Inl UnmarshalOutOfBounds)"
  "readDouble s = (if i s + 8 \<le> length (b s)
     then Inr (of_nat (le_to_nat (take 8 (drop (i s) (b s)))), s\<lparr>i := i s + 8\<rparr>) else Inl UnmarshalOutOfBounds)"
  by (simp_all add: readShort_def readInt_def readLong_def readFloat_def readDouble_def read_scalar_eq)

text \<open>A word in \<open>n\<close> bytes and back.\<close>

lemma word_of_le [simp]:
  "of_nat (le_to_nat (nat_to_le 2 (unat (v :: int16)))) = v"
  "of_nat (le_to_nat (nat_to_le 4 (unat (w :: int32)))) = w"
  "of_nat (le_to_nat (nat_to_le 8 (unat (x :: int64)))) = x"
proof -
  have "unat v < 2 ^ 16" "unat w < 2 ^ 32" "unat x < 2 ^ 64"
    using unsigned_less [of v, where ?'a = nat] unsigned_less [of w, where ?'a = nat]
      unsigned_less [of x, where ?'a = nat] by simp_all
  then show "of_nat (le_to_nat (nat_to_le 2 (unat v))) = v" "of_nat (le_to_nat (nat_to_le 4 (unat w))) = w"
    "of_nat (le_to_nat (nat_to_le 8 (unat x))) = x"
    by (simp_all add: le_to_nat_to_le)
qed

section \<open>Sizes on the wire\<close>

definition size_bytes :: "nat \<Rightarrow> byte list" where
  "size_bytes n = (if n \<le> 254 then [of_nat n] else 255 # nat_to_le 4 n)"

lemma size_bytes_length: "1 \<le> length (size_bytes n)" "length (size_bytes n) \<le> 5"
  by (simp_all add: size_bytes_def)

lemma unat_of_nat32: "n < 2 ^ 31 \<Longrightarrow> unat (of_nat n :: int32) = n"
  by (simp add: unat_of_nat)

lemma writeSize_eq:
  assumes "n < 2 ^ 31" "room (length (size_bytes n)) s"
  shows "writeSize (of_nat n) s = appended (size_bytes n) s"
  using assms
  by (auto simp: writeSize_def writeByte_def size_bytes_def write_num_eq sint_of_nat32 unat_of_nat32
      unsigned_of_nat word_of_nat_eq_iff take_bit_eq_mod)

lemma readSize_eq:
  assumes "n < 2 ^ 31" "drop (i s) (b s) = size_bytes n @ post"
  shows "readSize s = Inr (n, s\<lparr>i := i s + length (size_bytes n)\<rparr>)"
proof -
  have lt: "i s < length (b s)" using assms(2) by (metis append_is_Nil_conv drop_all leI list.size(3)
        not_one_le_zero size_bytes_length(1))
  have len: "length (b s) = i s + length (size_bytes n) + length post"
    using assms(2) lt by (metis add.assoc le_add_diff_inverse length_append length_drop less_imp_le)
  have hd: "b s ! i s = hd (size_bytes n)"
    using assms(2) lt size_bytes_length(1) [of n]
    by (metis hd_append2 hd_drop_conv_nth list.size(3) not_one_le_zero)
  show ?thesis
  proof (cases "n \<le> 254")
    case True
    then show ?thesis using lt hd
      by (auto simp: readSize_def readByte_def size_bytes_def unat_of_nat)
  next
    case False
    have "drop (i s + 1) (b s) = nat_to_le 4 n @ post"
      using assms(2) False by (simp add: size_bytes_def drop_Suc flip: tl_drop drop_drop)
    then have "take 4 (drop (i s + 1) (b s)) = nat_to_le 4 n" by simp
    moreover have "n mod 256 ^ 4 = n" using assms(1) by simp
    ultimately show ?thesis using lt hd len False assms(1)
      by (simp add: readSize_def readByte_def size_bytes_def read_num_eq le_to_nat_to_le sint_of_nat32)
  qed
qed

section \<open>Reading at the iterator\<close>

text \<open>
  A reading operation changes the iterator and the two counters of the sequence size check, and nothing
  else.
\<close>

definition frame :: "stream \<Rightarrow> stream \<Rightarrow> bool" where
  "frame s s' \<longleftrightarrow> s' = s\<lparr>i := i s', startSeq := startSeq s', minSeqSize := minSeqSize s'\<rparr>"

lemma frame_refl [simp]: "frame s s"
  by (simp add: frame_def)

lemma frame_trans: "frame s s' \<Longrightarrow> frame s' s'' \<Longrightarrow> frame s s''"
  by (cases s; cases s'; cases s'') (simp add: frame_def)

lemma frame_simps [simp]:
  "frame s (s\<lparr>i := k\<rparr>)"
  "frame s (s\<lparr>i := k, startSeq := x, minSeqSize := y\<rparr>)"
  "frame s (s\<lparr>startSeq := x, minSeqSize := y\<rparr>)"
  "frame s (s\<lparr>minSeqSize := y\<rparr>)"
  by (simp_all add: frame_def)

lemma frameD:
  assumes "frame s s'"
  shows "b s' = b s" "stringConverter s' = stringConverter s" "readEncapsStack s' = readEncapsStack s"
    "encoding s' = encoding s" "host s' = host s"
  using assms by (cases s; cases s'; simp add: frame_def)+

text \<open>
  \<open>ahead bs post s\<close>: the bytes \<open>bs\<close> are next and \<open>post\<close> follows them up to the end of the buffer; the
  buffer is one that the Ice protocol can carry (sizes are 31-bit), and narrow strings need no
  conversion.
\<close>

definition ahead :: "byte list \<Rightarrow> byte list \<Rightarrow> stream \<Rightarrow> bool" where
  "ahead bs post s \<longleftrightarrow> drop (i s) (b s) = bs @ post \<and> i s \<le> length (b s) \<and>
     length (b s) < 2 ^ 31 \<and> stringConverter s = None"

lemma ahead_length: "ahead bs post s \<Longrightarrow> length (b s) = i s + length bs + length post"
  unfolding ahead_def by (metis add.assoc le_add_diff_inverse length_append length_drop)

lemma ahead_advance:
  assumes "ahead (xs @ ys) post s" "frame s s'" "i s' = i s + length xs"
  shows "ahead ys post s'"
proof -
  have "drop (i s + length xs) (b s) = ys @ post"
    using assms(1) by (simp add: ahead_def add.commute [of "i s"] flip: drop_drop)
  with assms ahead_length [OF assms(1)] show ?thesis
    by (auto simp: ahead_def dest: frameD)
qed

lemma ahead_take: "ahead bs post s \<Longrightarrow> length bs = n \<Longrightarrow> take n (drop (i s) (b s)) = bs"
  by (simp add: ahead_def)

lemma ahead_shift: "ahead (xs @ ys) post s \<longleftrightarrow> ahead xs (ys @ post) s"
  by (simp add: ahead_def)

text \<open>
  \<open>owes d s\<close>: of the bytes that the sequence size check has announced, at most \<open>d\<close> are still to be read.
\<close>

definition owes :: "nat \<Rightarrow> stream \<Rightarrow> bool" where
  "owes d s \<longleftrightarrow> startSeq s = -1 \<or>
     (0 \<le> startSeq s \<and> 0 \<le> minSeqSize s \<and> startSeq s + minSeqSize s \<le> int (i s) + int d)"

lemma owes_advance: "owes (n + d) s \<Longrightarrow> n \<le> k \<Longrightarrow> owes d (s\<lparr>i := i s + k\<rparr>)"
  by (auto simp: owes_def)

lemma as_int_id: "int_ok x \<Longrightarrow> as_int x = x"
  by (simp add: as_int_def int_ok_def)

text \<open>Data that is really there always passes the size check.\<close>

lemma readAndCheckSeqSize_accepts:
  assumes n: "n < 2 ^ 31" and a: "ahead (size_bytes n @ bs) post s" and o: "owes (1 + d) s"
    and bs: "n * w \<le> length bs" and d: "d \<le> length post"
  obtains s' where "readAndCheckSeqSize w s = Inr (n, s')" "frame s s'"
    "i s' = i s + length (size_bytes n)" "owes (n * w + d) s'"
proof -
  let ?s1 = "s\<lparr>i := i s + length (size_bytes n)\<rparr>"
  have r: "readSize s = Inr (n, ?s1)"
    by (rule readSize_eq [OF n]) (use a in \<open>simp add: ahead_def\<close>)
  have o1: "owes d ?s1" using owes_advance [OF o size_bytes_length(1)] .
  have len: "length (b s) = i s + length (size_bytes n) + length bs + length post"
    using ahead_length [OF a] by simp
  have len31: "length (b s) < 2 ^ 31" using a by (simp add: ahead_def)
  show ?thesis
  proof (cases "n = 0")
    case True
    with r o1 that [of ?s1] show ?thesis by (simp add: readAndCheckSeqSize_def)
  next
    case False
    define fresh where "fresh \<longleftrightarrow> startSeq s = -1 \<or> int (i ?s1) > startSeq s + minSeqSize s"
    define st where "st = (if fresh then int (i ?s1) else startSeq s)"
    define mn where "mn = (if fresh then 0 else minSeqSize s) + int n * int w"
    let ?s2 = "?s1\<lparr>startSeq := st, minSeqSize := mn\<rparr>"
    have nw: "int n * int w \<le> int (length bs)" "0 \<le> int n * int w"
      using bs by (metis of_nat_le_iff of_nat_mult, simp)
    have ok1: "as_int (int (i ?s1)) = int (i ?s1)" "as_int (int (length (b s))) = int (length (b s))"
      using len len31 by (auto intro!: as_int_id simp: int_ok_def)
    have inv: "0 \<le> st" "0 \<le> mn" "st + mn \<le> int (i ?s1) + int d + int n * int w"
      using o1 by (auto simp: owes_def st_def mn_def fresh_def)
    have le: "st + mn \<le> int (length (b s))" using inv(3) nw len d by simp
    have ok: "int_ok mn" "int_ok (st + mn)"
      using inv le len len31 by (auto simp: int_ok_def)
    have "int_ok (int n * int w)"
      unfolding int_ok_def using nw len len31 by (intro conjI order_trans [OF _ nw(2)]) auto
    note ok = this ok
    have "readAndCheckSeqSize w s = Inr (n, ?s2)"
      using False r ok1 ok le
      by (cases fresh) (simp_all add: readAndCheckSeqSize_def Let_def fresh_def st_def mn_def)
    moreover have "frame s ?s2" "i ?s2 = i s + length (size_bytes n)" by (simp_all add: frame_def)
    moreover have "owes (n * w + d) ?s2" using inv by (simp add: owes_def algebra_simps)
    ultimately show ?thesis by (rule that)
  qed
qed

section \<open>The contract of a marshalled type\<close>

text \<open>
  The operations of a Slice type: its values, its writer and reader, its encoding and its minimum size on
  the wire. Writing appends the encoding if there is room; reading in front of an encoding
  gives the value back, moves past it, and settles the announced minimum size.
\<close>

locale codec =
  fixes ok :: "'a \<Rightarrow> bool" and wr :: "'a \<Rightarrow> writer" and rd :: "'a reader"
    and enc :: "'a \<Rightarrow> byte list" and mw :: nat
  assumes enc_min: "ok v \<Longrightarrow> mw \<le> length (enc v)"
    and wr_enc: "ok v \<Longrightarrow> stringConverter s = None \<Longrightarrow> room (length (enc v)) s \<Longrightarrow> wr v s = appended (enc v) s"
    and rd_enc: "ok v \<Longrightarrow> ahead (enc v) post s \<Longrightarrow> owes (mw + d) s \<Longrightarrow> d \<le> length post \<Longrightarrow>
      \<exists>s'. rd s = Inr (v, s') \<and> frame s s' \<and> i s' = i s + length (enc v) \<and> owes d s'"

text \<open>
  The sequence helper of \<^verbatim>\<open>StreamHelpers.h\<close> for an element type with writer \<open>wr\<close> and reader \<open>rd\<close>:
  the size, then the elements; the reader checks the size against the elements' minimum wire
  size.
\<close>

fun write_each :: "('a \<Rightarrow> writer) \<Rightarrow> 'a list \<Rightarrow> writer" where
  "write_each wr [] s = Inr s"
| "write_each wr (v # vs) s = bindE (wr v s) (write_each wr vs)"

fun read_n :: "'a reader \<Rightarrow> nat \<Rightarrow> 'a list reader" where
  "read_n rd 0 s = Inr ([], s)"
| "read_n rd (Suc n) s = bindS (rd s) (\<lambda>v s1. bindS (read_n rd n s1) (\<lambda>vs s2. Inr (v # vs, s2)))"

definition seq_write :: "('a \<Rightarrow> writer) \<Rightarrow> 'a list \<Rightarrow> writer" where
  "seq_write wr v s = bindE (writeSize (of_nat (length v)) s) (write_each wr v)"

definition seq_read :: "nat \<Rightarrow> 'a reader \<Rightarrow> 'a list reader" where
  "seq_read minWireSize rd s = bindS (readAndCheckSeqSize minWireSize s) (\<lambda>sz s1. read_n rd sz s1)"

text \<open>
  The dictionary helper: entries in the order of the keys; reading inserts a default value under the key
  and reads into it, so that a repeated key keeps the last value. The size is not checked.
\<close>

fun dict_write_each :: "('k \<Rightarrow> writer) \<Rightarrow> ('v \<Rightarrow> writer) \<Rightarrow> ('k \<times> 'v) list \<Rightarrow> writer" where
  "dict_write_each wk wv [] s = Inr s"
| "dict_write_each wk wv ((k, v) # m) s =
     bindE (wk k s) (\<lambda>s1. bindE (wv v s1) (dict_write_each wk wv m))"

definition dict_write :: "('k \<Rightarrow> writer) \<Rightarrow> ('v \<Rightarrow> writer) \<Rightarrow> ('k \<times> 'v) list \<Rightarrow> writer" where
  "dict_write wk wv m s = bindE (writeSize (of_nat (length m)) s) (dict_write_each wk wv m)"

fun dict_read_n ::
  "'k :: linorder reader \<Rightarrow> 'v reader \<Rightarrow> nat \<Rightarrow> ('k \<times> 'v) list \<Rightarrow> ('k \<times> 'v) list reader" where
  "dict_read_n rk rv 0 m s = Inr (m, s)"
| "dict_read_n rk rv (Suc n) m s =
     bindS (rk s) (\<lambda>k s1. bindS (rv s1) (\<lambda>v s2. dict_read_n rk rv n (smap_put k v m) s2))"

definition dict_read :: "'k :: linorder reader \<Rightarrow> 'v reader \<Rightarrow> ('k \<times> 'v) list reader" where
  "dict_read rk rv s = bindS (readSize s) (\<lambda>sz s1. dict_read_n rk rv sz [] s1)"

definition seq_bytes :: "('a \<Rightarrow> byte list) \<Rightarrow> 'a list \<Rightarrow> byte list" where
  "seq_bytes enc vs = size_bytes (length vs) @ concat (map enc vs)"

context codec
begin

lemma write_each_enc:
  "list_all ok vs \<Longrightarrow> stringConverter s = None \<Longrightarrow> room (length (concat (map enc vs))) s \<Longrightarrow>
     write_each wr vs s = appended (concat (map enc vs)) s"
proof (induction vs arbitrary: s)
  case (Cons v vs)
  have "wr v s = appended (enc v) s" using Cons.prems by (intro wr_enc) auto
  moreover have "write_each wr vs (s\<lparr>b := b s @ enc v\<rparr>)
      = appended (concat (map enc vs)) (s\<lparr>b := b s @ enc v\<rparr>)"
    using Cons.prems by (intro Cons.IH) auto
  ultimately show ?case by simp
qed simp

lemma elements_min: "list_all ok vs \<Longrightarrow> length vs * mw \<le> length (concat (map enc vs))"
  by (induction vs) (auto dest: enc_min)

lemma read_n_enc:
  "list_all ok vs \<Longrightarrow> ahead (concat (map enc vs)) post s \<Longrightarrow> owes (length vs * mw + d) s \<Longrightarrow>
     d \<le> length post \<Longrightarrow>
     \<exists>s'. read_n rd (length vs) s = Inr (vs, s') \<and> frame s s' \<and>
        i s' = i s + length (concat (map enc vs)) \<and> owes d s'"
proof (induction vs arbitrary: s)
  case (Cons v vs)
  let ?rest = "concat (map enc vs)"
  have "ahead (enc v) (?rest @ post) s" using Cons.prems(2) by (simp add: ahead_def)
  moreover have "owes (mw + (length vs * mw + d)) s" using Cons.prems(3) by (simp add: algebra_simps)
  moreover have "length vs * mw + d \<le> length (?rest @ post)"
    using elements_min [of vs] Cons.prems(1,4) by simp
  moreover have "ok v" using Cons.prems(1) by simp
  ultimately obtain s1 where 1: "rd s = Inr (v, s1)" "frame s s1" "i s1 = i s + length (enc v)"
    "owes (length vs * mw + d) s1"
    using rd_enc [of v] by blast
  have "ahead ?rest post s1" by (rule ahead_advance [OF _ 1(2,3)]) (use Cons.prems(2) in simp)
  from Cons.IH [OF _ this 1(4) Cons.prems(4)] Cons.prems(1) obtain s2 where
    2: "read_n rd (length vs) s1 = Inr (vs, s2)" "frame s1 s2" "i s2 = i s1 + length ?rest" "owes d s2"
    by auto
  then show ?case using 1 frame_trans [OF 1(2) 2(2)] by auto
qed simp

text \<open>Sequences of a type are a type again, with minimum size 1, to any depth of nesting.\<close>

lemma seq_codec:
  "codec (\<lambda>vs. list_all ok vs \<and> length vs < 2 ^ 31) (seq_write wr) (seq_read mw rd) (seq_bytes enc) 1"
proof
  fix vs :: "'a list" and s post d
  assume v: "list_all ok vs \<and> length vs < 2 ^ 31"
  show "1 \<le> length (seq_bytes enc vs)" using size_bytes_length(1) [of "length vs"] by (simp add: seq_bytes_def)
  show "seq_write wr vs s = appended (seq_bytes enc vs) s"
    if "stringConverter s = None" "room (length (seq_bytes enc vs)) s"
  proof -
    have "writeSize (of_nat (length vs)) s = appended (size_bytes (length vs)) s"
      using v that(2) by (intro writeSize_eq) (auto simp: seq_bytes_def)
    moreover have "write_each wr vs (s\<lparr>b := b s @ size_bytes (length vs)\<rparr>)
        = appended (concat (map enc vs)) (s\<lparr>b := b s @ size_bytes (length vs)\<rparr>)"
      using v that by (intro write_each_enc) (auto simp: seq_bytes_def)
    ultimately show ?thesis by (simp add: seq_write_def seq_bytes_def)
  qed
  assume a: "ahead (seq_bytes enc vs) post s" and o: "owes (1 + d) s" and d: "d \<le> length post"
  obtain s1 where 1: "readAndCheckSeqSize mw s = Inr (length vs, s1)" "frame s s1"
    "i s1 = i s + length (size_bytes (length vs))" "owes (length vs * mw + d) s1"
    using readAndCheckSeqSize_accepts [OF _ a [unfolded seq_bytes_def] o _ d, of mw] v elements_min [of vs] by auto
  have "ahead (concat (map enc vs)) post s1"
    using ahead_advance [OF a [unfolded seq_bytes_def] 1(2,3)] .
  from read_n_enc [OF _ this 1(4) d] v obtain s2 where 2: "read_n rd (length vs) s1 = Inr (vs, s2)" "frame s1 s2"
    "i s2 = i s1 + length (concat (map enc vs))" "owes d s2" by auto
  then show "\<exists>s'. seq_read mw rd s = Inr (vs, s') \<and> frame s s' \<and> i s' = i s + length (seq_bytes enc vs) \<and> owes d s'"
    using 1 frame_trans [OF 1(2) 2(2)] by (auto simp: seq_read_def seq_bytes_def)
qed

text \<open>On a stream of its own, what was written is read back, and the whole buffer is consumed.\<close>

lemma write_read:
  assumes "ok v" "stringConverter s = None" "room (length (enc v)) s" "startSeq s = -1"
    "length (b s) + length (enc v) < 2 ^ 31"
  shows "\<exists>s1 s2. wr v s = Inr s1 \<and> rd (s1\<lparr>i := length (b s)\<rparr>) = Inr (v, s2) \<and> b s2 = b s @ enc v \<and>
    i s2 = length (b s2)"
proof -
  let ?s1 = "s\<lparr>b := b s @ enc v\<rparr>"
  have "ahead (enc v) [] (?s1\<lparr>i := length (b s)\<rparr>)" "owes (mw + 0) (?s1\<lparr>i := length (b s)\<rparr>)"
    using assms by (simp_all add: ahead_def owes_def)
  from rd_enc [OF assms(1) this] obtain s2 where "rd (?s1\<lparr>i := length (b s)\<rparr>) = Inr (v, s2)"
    "frame (?s1\<lparr>i := length (b s)\<rparr>) s2" "i s2 = length (b s) + length (enc v)" by auto
  with wr_enc [OF assms(1-3)] show ?thesis by (auto dest: frameD)
qed

end

section \<open>Built-in types\<close>

lemma fixed_codec:
  assumes "\<And>v. length (enc v) = w" "\<And>v. val (enc v) = v"
    and "\<And>v s. room w s \<Longrightarrow> wr v s = appended (enc v) s"
    and "\<And>s. rd s = (if i s + w \<le> length (b s)
        then Inr (val (take w (drop (i s) (b s))), s\<lparr>i := i s + w\<rparr>) else Inl UnmarshalOutOfBounds)"
  shows "codec (\<lambda>v. True) wr rd enc w"
proof
  fix v post s d
  show "w \<le> length (enc v)" using assms(1) by simp
  show "wr v s = appended (enc v) s" if "room (length (enc v)) s" using assms(1,3) that by simp
  assume a: "ahead (enc v) post s" and o: "owes (w + d) s"
  have "rd s = Inr (v, s\<lparr>i := i s + w\<rparr>)"
    using ahead_length [OF a] ahead_take [OF a assms(1)] assms by simp
  then show "\<exists>s'. rd s = Inr (v, s') \<and> frame s s' \<and> i s' = i s + length (enc v) \<and> owes d s'"
    using owes_advance [OF o order_refl] assms(1) by simp
qed

lemma take_1_drop: "k < length xs \<Longrightarrow> take (Suc 0) (drop k xs) = [xs ! k]"
  by (simp add: take_Suc_conv_app_nth)

interpretation byte_codec: codec "\<lambda>v. True" writeByte readByte "\<lambda>v. [v]" 1
  by (rule fixed_codec [where val = hd]) (simp_all add: writeByte_def readByte_def take_1_drop)

interpretation bool_codec: codec "\<lambda>v. True" writeBool readBool "\<lambda>v. [if v then 1 else 0]" 1
  by (rule fixed_codec [where val = "\<lambda>bs. 0 \<noteq> hd bs"]) (simp_all add: writeBool_def readBool_def take_1_drop)

interpretation short_codec: codec "\<lambda>v. True" writeShort readShort "\<lambda>v. nat_to_le 2 (unat v)" 2
  by (rule fixed_codec [where val = "\<lambda>bs. of_nat (le_to_nat bs)"]) (simp_all add: write_num_eq read_num_eq)

interpretation int_codec: codec "\<lambda>v. True" writeInt readInt "\<lambda>v. nat_to_le 4 (unat v)" 4
  by (rule fixed_codec [where val = "\<lambda>bs. of_nat (le_to_nat bs)"]) (simp_all add: write_num_eq read_num_eq)

interpretation long_codec: codec "\<lambda>v. True" writeLong readLong "\<lambda>v. nat_to_le 8 (unat v)" 8
  by (rule fixed_codec [where val = "\<lambda>bs. of_nat (le_to_nat bs)"]) (simp_all add: write_num_eq read_num_eq)

interpretation float_codec: codec "\<lambda>v. True" writeFloat readFloat "\<lambda>v. nat_to_le 4 (unat v)" 4
  by (rule fixed_codec [where val = "\<lambda>bs. of_nat (le_to_nat bs)"]) (simp_all add: write_num_eq read_num_eq)

interpretation double_codec: codec "\<lambda>v. True" writeDouble readDouble "\<lambda>v. nat_to_le 8 (unat v)" 8
  by (rule fixed_codec [where val = "\<lambda>bs. of_nat (le_to_nat bs)"]) (simp_all add: write_num_eq read_num_eq)

text \<open>Sizes as a type of their own, and sequences of sequences of integers.\<close>

interpretation size_codec: codec "\<lambda>n. n < 2 ^ 31" "\<lambda>n. writeSize (of_nat n)" readSize size_bytes 1
proof
  fix n post s d
  assume n: "(n :: nat) < 2 ^ 31"
  show "1 \<le> length (size_bytes n)" by (rule size_bytes_length)
  show "writeSize (of_nat n) s = appended (size_bytes n) s" if "room (length (size_bytes n)) s"
    using n that by (rule writeSize_eq)
  assume "ahead (size_bytes n) post s" "owes (1 + d) s"
  then show "\<exists>s'. readSize s = Inr (n, s') \<and> frame s s' \<and> i s' = i s + length (size_bytes n) \<and> owes d s'"
    using readSize_eq [OF n, of s post] owes_advance [of 1 d s, OF _ size_bytes_length(1)] by (simp add: ahead_def)
qed

interpretation int_seq: codec "\<lambda>vs. list_all (\<lambda>v. True) vs \<and> length vs < 2 ^ 31" "seq_write writeInt"
  "seq_read 4 readInt" "seq_bytes (\<lambda>v. nat_to_le 4 (unat v))" 1
  by (rule int_codec.seq_codec)

interpretation int_seq_seq: codec
  "\<lambda>vss. list_all (\<lambda>vs. list_all (\<lambda>v. True) vs \<and> length vs < 2 ^ 31) vss \<and> length vss < 2 ^ 31"
  "seq_write (seq_write writeInt)" "seq_read 1 (seq_read 4 readInt)"
  "seq_bytes (seq_bytes (\<lambda>v. nat_to_le 4 (unat v)))" 1
  by (rule int_seq.seq_codec)

section \<open>Dictionaries\<close>

text \<open>The key type and the value type of a dictionary.\<close>

locale dict_codec =
  key: codec okk wk rk enck mwk + val: codec okv wv rv encv mwv
  for okk :: "'k :: linorder \<Rightarrow> bool" and wk rk enck mwk
    and okv :: "'v \<Rightarrow> bool" and wv rv encv mwv
begin

definition entry_bytes :: "'k \<times> 'v \<Rightarrow> byte list" where
  "entry_bytes kv = enck (fst kv) @ encv (snd kv)"

definition entry_ok :: "'k \<times> 'v \<Rightarrow> bool" where
  "entry_ok kv \<longleftrightarrow> okk (fst kv) \<and> okv (snd kv)"

lemma dict_write_each_enc:
  "list_all entry_ok m \<Longrightarrow> stringConverter s = None \<Longrightarrow> room (length (concat (map entry_bytes m))) s \<Longrightarrow>
     dict_write_each wk wv m s = appended (concat (map entry_bytes m)) s"
proof (induction m arbitrary: s)
  case (Cons kv m)
  obtain k v where kv: "kv = (k, v)" by force
  let ?s1 = "s\<lparr>b := b s @ enck k\<rparr>"
  have "wk k s = appended (enck k) s"
    using Cons.prems kv by (intro key.wr_enc) (auto simp: entry_ok_def entry_bytes_def)
  moreover have "wv v ?s1 = appended (encv v) ?s1"
    using Cons.prems kv by (intro val.wr_enc) (auto simp: entry_ok_def entry_bytes_def)
  moreover have "dict_write_each wk wv m (s\<lparr>b := b s @ enck k @ encv v\<rparr>)
      = appended (concat (map entry_bytes m)) (s\<lparr>b := b s @ enck k @ encv v\<rparr>)"
    using Cons.prems kv by (intro Cons.IH) (auto simp: entry_bytes_def)
  ultimately show ?case using kv by (simp add: entry_bytes_def [of "(k, v)"])
qed simp

lemma owes_mono: "owes d s \<Longrightarrow> d \<le> d' \<Longrightarrow> owes d' s"
  by (auto simp: owes_def)

lemma read_entry:
  assumes "entry_ok (k, v)" "ahead (entry_bytes (k, v)) post s" "owes d s" "d \<le> length post"
  obtains s1 s2 where "rk s = Inr (k, s1)" "rv s1 = Inr (v, s2)" "frame s s2"
    "i s2 = i s + length (entry_bytes (k, v))" "owes d s2"
proof -
  have "ahead (enck k) (encv v @ post) s" using assms(2) by (simp add: entry_bytes_def ahead_def)
  then obtain s1 where 1: "rk s = Inr (k, s1)" "frame s s1" "i s1 = i s + length (enck k)" "owes d s1"
    using key.rd_enc [of k "encv v @ post" s d] assms owes_mono [of d s "mwk + d"] by (auto simp: entry_ok_def)
  have "ahead (encv v) post s1"
    by (rule ahead_advance [OF _ 1(2,3)]) (use assms(2) in \<open>simp add: entry_bytes_def\<close>)
  then obtain s2 where "rv s1 = Inr (v, s2)" "frame s1 s2" "i s2 = i s1 + length (encv v)" "owes d s2"
    using val.rd_enc [of v post s1 d] assms owes_mono [OF 1(4), of "mwv + d"] by (auto simp: entry_ok_def)
  with 1 that [of s1 s2] frame_trans [of s s1 s2] show ?thesis by (simp add: entry_bytes_def)
qed

lemma dict_read_n_enc:
  "list_all entry_ok m \<Longrightarrow> smap_inv (acc @ m) \<Longrightarrow> ahead (concat (map entry_bytes m)) post s \<Longrightarrow>
     owes d s \<Longrightarrow> d \<le> length post \<Longrightarrow>
     \<exists>s'. dict_read_n rk rv (length m) acc s = Inr (acc @ m, s') \<and> frame s s' \<and>
        i s' = i s + length (concat (map entry_bytes m)) \<and> owes d s'"
proof (induction m arbitrary: acc s)
  case (Cons kv m)
  obtain k v where kv: "kv = (k, v)" by force
  let ?rest = "concat (map entry_bytes m)"
  have "ahead (entry_bytes (k, v)) (?rest @ post) s" using Cons.prems(3) kv by (simp add: ahead_def)
  moreover have "entry_ok (k, v)" "d \<le> length (?rest @ post)" using Cons.prems(1,5) kv by simp_all
  ultimately obtain s1 s2 where
    1: "rk s = Inr (k, s1)" "rv s1 = Inr (v, s2)" "frame s s2" "i s2 = i s + length (entry_bytes (k, v))"
    "owes d s2" using read_entry Cons.prems(4) by metis
  have "ahead ?rest post s2"
    by (rule ahead_advance [OF _ 1(3,4)]) (use Cons.prems(3) kv in simp)
  moreover have put: "smap_put k v acc = acc @ [(k, v)]"
    using Cons.prems(2) kv by (intro smap_put_end) (auto simp: smap_inv_def sorted_wrt_append)
  ultimately obtain s3 where "dict_read_n rk rv (length m) (acc @ [(k, v)]) s2 = Inr (acc @ kv # m, s3)"
    "frame s2 s3" "i s3 = i s2 + length ?rest" "owes d s3"
    using Cons.IH [of "acc @ [(k, v)]" s2] Cons.prems(1,2,5) 1(5) kv by auto
  then show ?case using 1 put kv frame_trans [of s s2 s3] by auto
qed simp

text \<open>A dictionary of well-formed entries is a marshalled type as well.\<close>

lemma dict_is_codec:
  "codec (\<lambda>m. smap_inv m \<and> list_all entry_ok m \<and> length m < 2 ^ 31) (dict_write wk wv) (dict_read rk rv)
     (seq_bytes entry_bytes) 1"
proof
  fix m :: "('k \<times> 'v) list" and s post d
  assume m: "smap_inv m \<and> list_all entry_ok m \<and> length m < 2 ^ 31"
  show "1 \<le> length (seq_bytes entry_bytes m)"
    using size_bytes_length(1) [of "length m"] by (simp add: seq_bytes_def)
  show "dict_write wk wv m s = appended (seq_bytes entry_bytes m) s"
    if "stringConverter s = None" "room (length (seq_bytes entry_bytes m)) s"
  proof -
    have "writeSize (of_nat (length m)) s = appended (size_bytes (length m)) s"
      using m that(2) by (intro writeSize_eq) (auto simp: seq_bytes_def)
    moreover have "dict_write_each wk wv m (s\<lparr>b := b s @ size_bytes (length m)\<rparr>)
        = appended (concat (map entry_bytes m)) (s\<lparr>b := b s @ size_bytes (length m)\<rparr>)"
      using m that by (intro dict_write_each_enc) (auto simp: seq_bytes_def)
    ultimately show ?thesis by (simp add: dict_write_def seq_bytes_def)
  qed
  assume a: "ahead (seq_bytes entry_bytes m) post s" and o: "owes (1 + d) s" and d: "d \<le> length post"
  obtain s1 where 1: "readSize s = Inr (length m, s1)" "frame s s1"
    "i s1 = i s + length (size_bytes (length m))" "owes d s1"
    using size_codec.rd_enc [of "length m" "concat (map entry_bytes m) @ post" s d] m a o d
    by (auto simp: seq_bytes_def ahead_shift)
  have "ahead (concat (map entry_bytes m)) post s1"
    using ahead_advance [OF a [unfolded seq_bytes_def] 1(2,3)] .
  from dict_read_n_enc [OF _ _ this 1(4) d, of "[]"] m obtain s2 where
    2: "dict_read_n rk rv (length m) [] s1 = Inr (m, s2)" "frame s1 s2"
    "i s2 = i s1 + length (concat (map entry_bytes m))" "owes d s2" by auto
  then show "\<exists>s'. dict_read rk rv s = Inr (m, s') \<and> frame s s' \<and>
      i s' = i s + length (seq_bytes entry_bytes m) \<and> owes d s'"
    using 1 frame_trans [OF 1(2) 2(2)] by (auto simp: dict_read_def seq_bytes_def)
qed

end

section \<open>Safety of reading\<close>

text \<open>The iterator is inside the buffer, and the buffer is one the 32-bit sizes can describe.\<close>

definition cursor_ok :: "stream \<Rightarrow> bool" where
  "cursor_ok s \<longleftrightarrow> i s \<le> length (b s) \<and> length (b s) < 2 ^ 31"

text \<open>
  A safe reader never touches memory outside the buffer: on arbitrary bytes it either fails with one of
  the Ice exceptions or moves the iterator forward inside the buffer.
\<close>

definition read_safe :: "stream \<Rightarrow> stream_error + 'a \<times> stream \<Rightarrow> bool" where
  "read_safe s r \<longleftrightarrow> (case r of Inl e \<Rightarrow> e \<noteq> CxxUndefined
     | Inr (v, s') \<Rightarrow> frame s s' \<and> i s \<le> i s' \<and> i s' \<le> length (b s))"

locale safe_reader =
  fixes rd :: "'a reader"
  assumes safe: "cursor_ok s \<Longrightarrow> read_safe s (rd s)"
begin

lemma read_n_safe: "cursor_ok s \<Longrightarrow> read_safe s (read_n rd n s)"
proof (induction n arbitrary: s)
  case 0
  then show ?case by (simp add: read_safe_def cursor_ok_def)
next
  case (Suc n)
  show ?case
  proof (cases "rd s")
    case (Inl e)
    with safe [OF Suc.prems] show ?thesis by (simp add: read_safe_def)
  next
    case (Inr r)
    obtain v s1 where r: "r = (v, s1)" by force
    with Inr safe [OF Suc.prems] have 1: "frame s s1" "i s \<le> i s1" "i s1 \<le> length (b s)"
      by (simp_all add: read_safe_def)
    then have "cursor_ok s1" using Suc.prems frameD(1) [OF 1(1)] by (simp add: cursor_ok_def)
    from Suc.IH [OF this] show ?thesis using Inr r 1 frameD(1) [OF 1(1)] frame_trans [OF 1(1)]
      by (cases "read_n rd n s1") (auto simp: read_safe_def)
  qed
qed

end

lemmas read_safe_defs = read_safe_def cursor_ok_def

interpretation byte_reader: safe_reader readByte
  by unfold_locales (auto simp: read_safe_defs readByte_def)

interpretation bool_reader: safe_reader readBool
  by unfold_locales (auto simp: read_safe_defs readBool_def)

interpretation short_reader: safe_reader readShort
  by unfold_locales (auto simp: read_safe_defs read_num_eq)

interpretation int_reader: safe_reader readInt
  by unfold_locales (auto simp: read_safe_defs read_num_eq)

interpretation long_reader: safe_reader readLong
  by unfold_locales (auto simp: read_safe_defs read_num_eq)

interpretation double_reader: safe_reader readDouble
  by unfold_locales (auto simp: read_safe_defs read_num_eq)

interpretation size_reader: safe_reader readSize
  by unfold_locales (auto simp: read_safe_defs readSize_def readByte_def read_num_eq)

text \<open>Computing on the value that a safe reader returned.\<close>

lemma read_safe_then:
  assumes "read_safe s m" "\<And>v s1. f v s1 = Inr (g v, s1) \<or> (\<exists>e. f v s1 = Inl e \<and> e \<noteq> CxxUndefined)"
  shows "read_safe s (bindS m f)"
proof (cases m)
  case (Inr r)
  obtain v s1 where r: "r = (v, s1)" by force
  from assms(2) [of v s1] assms(1) Inr r show ?thesis by (auto simp: read_safe_def)
qed (use assms(1) in \<open>simp add: read_safe_def\<close>)

lemma readEnum_safe: "cursor_ok s \<Longrightarrow> read_safe s (readEnum maxValue s)"
  unfolding readEnum_def
  by (simp only: split: if_split)
    (intro conjI impI read_safe_then, simp_all add: byte_reader.safe short_reader.safe int_reader.safe size_reader.safe)

interpretation enum_reader: safe_reader "enum_read minValue maxValue" for minValue maxValue
  by unfold_locales (auto simp: enum_read_def intro!: read_safe_then [where g = "\<lambda>v. v"] readEnum_safe)

section \<open>Properties\<close>

text \<open>What a successful check has established about the iterator and the counters.\<close>

definition checked :: "nat \<Rightarrow> nat \<Rightarrow> stream \<Rightarrow> stream \<Rightarrow> bool" where
  "checked w n s s1 \<longleftrightarrow>
     (s1 = s\<lparr>startSeq := as_int (int (i s)), minSeqSize := int n * int w\<rparr> \<or>
      s1 = s\<lparr>minSeqSize := minSeqSize s + int n * int w\<rparr> \<and> int (i s) \<le> startSeq s + minSeqSize s) \<and>
     startSeq s1 + minSeqSize s1 \<le> as_int (int (length (b s1)))"

lemma readAndCheckSeqSize_Inr:
  assumes "readAndCheckSeqSize w s = Inr (n, s1)"
  shows "\<exists>s'. readSize s = Inr (n, s') \<and> (n = 0 \<longrightarrow> s1 = s') \<and> (n \<noteq> 0 \<longrightarrow> checked w n s' s1)"
proof -
  from assms obtain m s' where r: "readSize s = Inr (m, s')"
    by (auto simp: readAndCheckSeqSize_def bindS_Inr_conv)
  show ?thesis
  proof (cases "startSeq s' = -1 \<or> int (i s') > startSeq s' + minSeqSize s'")
    case True
    with assms r show ?thesis
      by (cases "m = 0") (auto simp: readAndCheckSeqSize_def checked_def Let_def split: if_splits)
  next
    case False
    with assms r show ?thesis
      by (cases "m = 0") (auto simp: readAndCheckSeqSize_def checked_def Let_def not_less split: if_splits)
  qed
qed

text \<open>
  Numbers travel between hosts of any two byte orders: whatever the byte order of the writing and of
  the reading host, a short, int, long, float or double appended to a stream is read back as the
  same value (for floating-point numbers: the same bit pattern).
\<close>

theorem numbers_cross_host:
  assumes "room 8 s"
  shows "(\<exists>t. writeShort v2 (s\<lparr>host := h1\<rparr>) = Inr t \<and> fst (projr (readShort (t\<lparr>host := h2, i := length (b s)\<rparr>))) = v2) \<and>
    (\<exists>t. writeInt v4 (s\<lparr>host := h1\<rparr>) = Inr t \<and> fst (projr (readInt (t\<lparr>host := h2, i := length (b s)\<rparr>))) = v4) \<and>
    (\<exists>t. writeLong v8 (s\<lparr>host := h1\<rparr>) = Inr t \<and> fst (projr (readLong (t\<lparr>host := h2, i := length (b s)\<rparr>))) = v8) \<and>
    (\<exists>t. writeFloat f4 (s\<lparr>host := h1\<rparr>) = Inr t \<and> fst (projr (readFloat (t\<lparr>host := h2, i := length (b s)\<rparr>))) = f4) \<and>
    (\<exists>t. writeDouble f8 (s\<lparr>host := h1\<rparr>) = Inr t \<and> fst (projr (readDouble (t\<lparr>host := h2, i := length (b s)\<rparr>))) = f8)"
  using assms by (auto simp: write_num_eq read_num_eq)

theorem numbers_cross_host_witness:
  "\<exists>t. writeDouble 0x400921FB54442D18 (BasicStream_new LittleByteBigWord 1024 None no_wconv Encoding_1_1 False) = Inr t \<and>
     fst (projr (readDouble (t\<lparr>host := BigEndian, i := 0\<rparr>))) = 0x400921FB54442D18"
  using numbers_cross_host [of "BasicStream_new LittleByteBigWord 1024 None no_wconv Encoding_1_1 False"
     0 LittleByteBigWord BigEndian 0 0 0 "0x400921FB54442D18"]
  by (simp add: BasicStream_new_def)

text \<open>
  C15. Sequences of sequences of integers survive the trip over a stream: on a stream with no sequence read
  before, and with room, the writer appends the encoding, and the reader, started at its first byte,
  gives the nested list back and consumes the whole encoding; in particular the check of the
  announced sizes never rejects data that is there.
\<close>

theorem nested_sequence_roundtrip:
  assumes "list_all (\<lambda>vs. length vs < 2 ^ 31) vss" "length vss < 2 ^ 31" "stringConverter s = None"
    and "room (length (seq_bytes (seq_bytes (\<lambda>v. nat_to_le 4 (unat v))) vss)) s" "startSeq s = -1"
    and "length (b s) + length (seq_bytes (seq_bytes (\<lambda>v. nat_to_le 4 (unat v))) vss) < 2 ^ 31"
  shows "\<exists>s1 s2. seq_write (seq_write writeInt) vss s = Inr s1 \<and>
    seq_read 1 (seq_read 4 readInt) (s1\<lparr>i := length (b s)\<rparr>) = Inr (vss, s2) \<and>
    b s2 = b s @ seq_bytes (seq_bytes (\<lambda>v. nat_to_le 4 (unat v))) vss \<and> i s2 = length (b s2)"
  using int_seq_seq.write_read [of vss s] assms by (simp add: list_all_iff)

theorem nested_sequence_roundtrip_witness:
  "\<exists>s1 s2. seq_write (seq_write writeInt) [[1, 2], [], [3]] (BasicStream_new X86 1024 None no_wconv Encoding_1_1 False) = Inr s1 \<and>
     seq_read 1 (seq_read 4 readInt) (s1\<lparr>i := 0\<rparr>) = Inr ([[1, 2], [], [3]], s2) \<and> i s2 = 16"
  using nested_sequence_roundtrip [of "[[1, 2], [], [3]]" "BasicStream_new X86 1024 None no_wconv Encoding_1_1 False"]
  by (auto simp: BasicStream_new_def seq_bytes_def size_bytes_def)

lemma readAndCheckSeqSize_bound:
  assumes "cursor_ok s" "readAndCheckSeqSize w s = Inr (n, s1)"
  shows "i s1 + n * w \<le> length (b s1) \<and> frame s s1 \<and> i s \<le> i s1"
proof -
  obtain s' where r: "readSize s = Inr (n, s')"
    and c: "n \<noteq> 0 \<Longrightarrow> checked w n s' s1" and z: "n = 0 \<Longrightarrow> s1 = s'"
    using readAndCheckSeqSize_Inr [OF assms(2)] by blast
  have 1: "frame s s'" "i s \<le> i s'" "i s' \<le> length (b s)"
    using size_reader.safe [OF assms(1)] r by (simp_all add: read_safe_def)
  note b' = frameD(1) [OF 1(1)]
  have id: "as_int (int (i s')) = int (i s')" "as_int (int (length (b s))) = int (length (b s))"
    using assms(1) 1(3) by (auto intro!: as_int_id simp: int_ok_def cursor_ok_def)
  have "int (i s1) + int n * int w \<le> int (length (b s1)) \<and> frame s' s1 \<and> i s1 = i s'"
  proof (cases "n = 0")
    case True
    with z b' 1(3) show ?thesis by simp
  next
    case False
    from c [OF this] show ?thesis unfolding checked_def by (elim conjE disjE) (use id b' in simp_all)
  qed
  with 1 frame_trans show ?thesis by (metis of_nat_add of_nat_le_iff of_nat_mult)
qed

text \<open>
  C16. The sequence size check is sound: on arbitrary bytes, if \<open>readAndCheckSeqSize\<close> returns a number of elements then
  that many elements of the minimum size really are between the iterator and the end of the buffer.
\<close>

theorem readAndCheckSeqSize_sound:
  assumes "cursor_ok s" "readAndCheckSeqSize w s = Inr (n, s1)"
  shows "i s1 + n * w \<le> length (b s1) \<and> frame s s1 \<and> i s \<le> i s1"
  using assms by (rule readAndCheckSeqSize_bound)

theorem readAndCheckSeqSize_sound_witness:
  "\<exists>s1. readAndCheckSeqSize 2 (BasicStream_view X86 1024 None no_wconv Encoding_1_1 [2, 1, 0, 2, 0]) = Inr (2, s1) \<and> i s1 + 2 * 2 \<le> length (b s1)"
proof -
  let ?s = "BasicStream_view X86 1024 None no_wconv Encoding_1_1 [2, 1, 0, 2, 0]"
  have c: "cursor_ok ?s" by (simp add: cursor_ok_def BasicStream_view_def BasicStream_new_def)
  have r: "readAndCheckSeqSize 2 ?s = Inr (2, ?s\<lparr>i := 1, startSeq := 1, minSeqSize := 4\<rparr>)"
    by (simp add: readAndCheckSeqSize_def readSize_def readByte_def BasicStream_view_def BasicStream_new_def
        int_ok_def as_int_def Let_def)
  with readAndCheckSeqSize_sound [OF c r] show ?thesis by auto
qed


end
