(* ===== verification/StreamSeq.thy ===== *)
theory StreamSeq
  imports StreamCodec
begin

text \<open>
  The hand-optimised sequence operations of \<^verbatim>\<open>cpp/src/Ice/BasicStream.cpp\<close> for bytes, booleans and numbers: block
  copies where memory and wire agree, pointer loops that reverse each element where they do
  not. They are shown to be the generic sequence helper. An array in memory is the list of its
  bytes, and pointers into it are integer indices (a loop moves one below the start in between).
\<close>

section \<open>The copying loops\<close>

text \<open>\<open>n\<close> times \<^verbatim>\<open>*dest++ = *src--\<close>, and the loop over the elements with \<^verbatim>\<open>src += 2 * sizeof(T)\<close>.\<close>

fun copy_down :: "nat \<Rightarrow> byte list \<Rightarrow> int \<Rightarrow> byte list" where
  "copy_down 0 mem src = []"
| "copy_down (Suc n) mem src = mem ! nat src # copy_down n mem (src - 1)"

fun swap_out :: "nat \<Rightarrow> byte list \<Rightarrow> int \<Rightarrow> nat \<Rightarrow> byte list" where
  "swap_out w mem src 0 = []"
| "swap_out w mem src (Suc sz) = copy_down w mem src @ swap_out w mem (src - int w + 2 * int w) sz"



text \<open>
  The loop for doubles with exchanged halves, which stores \<^verbatim>\<open>dest[4]\<close> to \<^verbatim>\<open>dest[7]\<close> first and then
  \<^verbatim>\<open>dest[0]\<close> to \<^verbatim>\<open>dest[3]\<close>; it is the same for writing and reading.
\<close>

fun swap_halves :: "byte list \<Rightarrow> nat \<Rightarrow> nat \<Rightarrow> byte list" where
  "swap_halves src p 0 = []"
| "swap_halves src p (Suc sz) =
     [src ! (p + 4), src ! (p + 5), src ! (p + 6), src ! (p + 7),
      src ! p, src ! (p + 1), src ! (p + 2), src ! (p + 3)] @ swap_halves src (p + 8) sz"

section \<open>The operations\<close>

text \<open>
  The common shape of \<^verbatim>\<open>write(const T* begin, const T* end)\<close>: \<open>wire\<close> is what the copying code leaves in the
  buffer for an array \<open>mem\<close> of \<open>sz\<close> elements; the number of elements is converted to \<^verbatim>\<open>Int\<close> first.
\<close>

definition Int_of :: "nat \<Rightarrow> nat" where
  "Int_of n = nat (sint (of_nat n :: int32))"

definition write_array ::
  "nat \<Rightarrow> (endian \<Rightarrow> byte list \<Rightarrow> nat \<Rightarrow> byte list) \<Rightarrow> nat \<Rightarrow> byte list \<Rightarrow> writer" where
  "write_array w wire n mem s =
     bindE (writeSize (of_nat n) s) (\<lambda>s1.
     let sz = Int_of n
     in if sz > 0 then
          (let pos = length (b s1)
           in bindE (resize (pos + sz * w) s1) (\<lambda>s2. store pos (wire (host s) mem sz) s2))
        else Inr s1)"


definition num_wire :: "nat \<Rightarrow> endian \<Rightarrow> byte list \<Rightarrow> nat \<Rightarrow> byte list" where
  "num_wire w e mem sz = (if e = BigEndian then swap_out w mem (int w - 1) sz else take (sz * w) mem)"


definition double_wire :: "endian \<Rightarrow> byte list \<Rightarrow> nat \<Rightarrow> byte list" where
  "double_wire e mem sz =
     (case e of BigEndian \<Rightarrow> swap_out 8 mem 7 sz
      | LittleByteBigWord \<Rightarrow> swap_halves mem 0 sz
      | _ \<Rightarrow> take (sz * 8) mem)"


text \<open>The elements of an array of \<open>sz\<close> elements of \<open>w\<close> bytes each.\<close>

fun elements :: "nat \<Rightarrow> (byte list \<Rightarrow> 'a) \<Rightarrow> byte list \<Rightarrow> nat \<Rightarrow> 'a list" where
  "elements w val mem 0 = []"
| "elements w val mem (Suc sz) = val (take w mem) # elements w val (drop w mem) sz"

definition array_of :: "('a \<Rightarrow> byte list) \<Rightarrow> 'a list \<Rightarrow> byte list" where
  "array_of img v = concat (map img v)"

definition writeByteSeq :: "byte list \<Rightarrow> writer" where
  "writeByteSeq v s =
     bindE (writeSize (of_nat (length v)) s) (\<lambda>s1.
     let sz = Int_of (length v)
     in if sz > 0 then
          (let pos = length (b s1) in bindE (resize (pos + sz) s1) (\<lambda>s2. store pos (take sz v) s2))
        else Inr s1)"



definition writeBoolSeq :: "bool list \<Rightarrow> writer" where
  "writeBoolSeq v s =
     bindE (writeSize (of_nat (length v)) s) (\<lambda>s1.
     let sz = Int_of (length v)
     in if sz > 0 then
          (let pos = length (b s1)
           in bindE (resize (pos + sz) s1) (\<lambda>s2. store pos (map (\<lambda>x. if x then 1 else 0) (take sz v)) s2))
        else Inr s1)"


text \<open>
  The overloads for arrays of \<^verbatim>\<open>bool\<close> choose between a loop and a block copy by \<^verbatim>\<open>sizeof(bool)\<close>, here
  \<open>boolSize\<close>.
\<close>

fun write_bool_loop :: "bool list \<Rightarrow> nat \<Rightarrow> byte list \<Rightarrow> byte list" where
  "write_bool_loop [] pos buf = buf"
| "write_bool_loop (x # xs) pos buf = write_bool_loop xs (pos + 1) (buf[pos := if x then 1 else 0])"

definition writeBoolArray :: "nat \<Rightarrow> bool list \<Rightarrow> writer" where
  "writeBoolArray boolSize v s =
     bindE (writeSize (of_nat (length v)) s) (\<lambda>s1.
     let sz = Int_of (length v)
     in if sz > 0 then
          (let pos = length (b s1)
           in bindE (resize (pos + sz) s1) (\<lambda>s2.
              if boolSize = 1 then store pos (map (\<lambda>x. if x then 1 else 0) (take sz v)) s2
              else Inr (s2\<lparr>b := write_bool_loop (take sz v) pos (b s2)\<rparr>)))
        else Inr s1)"



definition writeShortSeq :: "int16 list \<Rightarrow> writer" where
  "writeShortSeq v s =
     write_array 2 (num_wire 2) (length v) (array_of (\<lambda>x. mem_image (host s) 2 (unat x)) v) s"


definition writeIntSeq :: "int32 list \<Rightarrow> writer" where
  "writeIntSeq v s =
     write_array 4 (num_wire 4) (length v) (array_of (\<lambda>x. mem_image (host s) 4 (unat x)) v) s"


definition writeLongSeq :: "int64 list \<Rightarrow> writer" where
  "writeLongSeq v s =
     write_array 8 (num_wire 8) (length v) (array_of (\<lambda>x. mem_image (host s) 8 (unat x)) v) s"


definition writeFloatSeq :: "int32 list \<Rightarrow> writer" where
  "writeFloatSeq v s =
     write_array 4 (num_wire 4) (length v) (array_of (\<lambda>x. mem_image (host s) 4 (unat x)) v) s"


definition writeDoubleSeq :: "int64 list \<Rightarrow> writer" where
  "writeDoubleSeq v s =
     write_array 8 double_wire (length v) (array_of (\<lambda>x. double_image (host s) (unat x)) v) s"








section \<open>What the loops compute\<close>

lemma copy_down_rev:
  "p + n \<le> length mem \<Longrightarrow> src = int p + int n - 1 \<Longrightarrow> copy_down n mem src = rev (take n (drop p mem))"
proof (induction n arbitrary: src)
  case (Suc n)
  then have "copy_down n mem (src - 1) = rev (take n (drop p mem))" by (intro Suc.IH) auto
  moreover have "take (Suc n) (drop p mem) = take n (drop p mem) @ [mem ! (p + n)]"
    using Suc.prems(1) by (simp add: take_Suc_conv_app_nth)
  moreover have "nat src = p + n" using Suc.prems(2) by simp
  ultimately show ?case by simp
qed simp

lemma swap_out_elements:
  "p + sz * w \<le> length mem \<Longrightarrow> src = int p + int w - 1 \<Longrightarrow>
     swap_out w mem src sz = concat (elements w rev (drop p mem) sz)"
proof (induction sz arbitrary: p src)
  case (Suc sz)
  have "copy_down w mem src = rev (take w (drop p mem))"
    using Suc.prems by (intro copy_down_rev) auto
  moreover have "swap_out w mem (src - int w + 2 * int w) sz = concat (elements w rev (drop (p + w) mem) sz)"
    using Suc.prems by (intro Suc.IH) auto
  ultimately show ?case by (simp add: add.commute)
qed simp


lemma length_elements_concat:
  assumes "\<And>c. length c = w \<Longrightarrow> length (g c) = w"
  shows "sz * w \<le> length mem \<Longrightarrow> length (concat (elements w g mem sz)) = sz * w"
proof (induction sz arbitrary: mem)
  case (Suc sz)
  then show ?case using assms [of "take w mem"] by simp
qed simp


lemma take_8: "8 \<le> length xs \<Longrightarrow> take 8 xs = [xs!0, xs!1, xs!2, xs!3, xs!4, xs!5, xs!6, xs!7]"
  by (rule nth_equalityI) (auto simp: nth_Cons' numeral_eq_Suc less_Suc_eq)

lemma swap_halves_elements:
  "p + sz * 8 \<le> length src \<Longrightarrow>
     swap_halves src p sz = concat (elements 8 (\<lambda>c. drop 4 c @ take 4 c) (drop p src) sz)"
proof (induction sz arbitrary: p)
  case (Suc sz)
  have "take 8 (drop p src) = [src ! p, src ! (p+1), src ! (p+2), src ! (p+3), src ! (p+4), src ! (p+5),
      src ! (p+6), src ! (p+7)]"
    using take_8 [of "drop p src"] Suc.prems by simp
  moreover have "swap_halves src (p + 8) sz = concat (elements 8 (\<lambda>c. drop 4 c @ take 4 c) (drop (p + 8) src) sz)"
    using Suc.prems by (intro Suc.IH) simp
  ultimately show ?case by (simp add: add.commute)
qed simp

lemma elements_array_of:
  "(\<And>x. length (img x) = w) \<Longrightarrow> elements w f (array_of img v) (length v) = map (\<lambda>x. f (img x)) v"
  by (induction v) (simp_all add: array_of_def)

lemma length_array_of: "(\<And>x. length (img x) = w) \<Longrightarrow> length (array_of img v) = length v * w"
  by (induction v) (simp_all add: array_of_def)



lemma num_wire_eq:
  "num_wire w e (array_of (\<lambda>x. mem_image e w (f x)) v) (length v) = concat (map (\<lambda>x. nat_to_le w (f x)) v)"
proof -
  let ?m = "array_of (\<lambda>x. mem_image e w (f x)) v"
  have len: "length ?m = length v * w" by (rule length_array_of) simp
  then have "swap_out w ?m (int w - 1) (length v) = concat (elements w rev ?m (length v))"
    by (subst swap_out_elements [where p = 0]) simp_all
  moreover have "elements w rev ?m (length v) = map (\<lambda>x. rev (mem_image e w (f x))) v"
    by (rule elements_array_of) simp
  ultimately show ?thesis using len
    by (cases "e = BigEndian") (simp_all add: num_wire_def mem_image_def, simp add: array_of_def mem_image_def)
qed

lemma double_wire_eq:
  "double_wire e (array_of (\<lambda>x. double_image e (f x)) v) (length v) = concat (map (\<lambda>x. nat_to_le 8 (f x)) v)"
proof -
  let ?m = "array_of (\<lambda>x. double_image e (f x)) v"
  have len: "length ?m = length v * 8" by (rule length_array_of) simp
  then have "swap_out 8 ?m 7 (length v) = concat (elements 8 rev ?m (length v))"
    "swap_halves ?m 0 (length v) = concat (elements 8 (\<lambda>c. drop 4 c @ take 4 c) ?m (length v))"
    by (subst swap_out_elements [where p = 0], simp_all) (subst swap_halves_elements, simp_all)
  moreover have "elements 8 g ?m (length v) = map (\<lambda>x. g (double_image e (f x))) v" for g :: "byte list \<Rightarrow> byte list"
    by (rule elements_array_of) simp
  ultimately show ?thesis using len
    by (cases e) (simp_all add: double_wire_def double_image_def, simp_all add: array_of_def double_image_def)
qed



section \<open>The operations are the generic helper\<close>

lemma Int_of_id [simp]: "n < 2 ^ 31 \<Longrightarrow> Int_of n = n"
  by (simp add: Int_of_def sint_of_nat32)

lemma write_array_eq:
  assumes "n < 2 ^ 31" "length (wire (host s) mem n) = n * w" "room (length (size_bytes n) + n * w) s"
  shows "write_array w wire n mem s = appended (size_bytes n @ wire (host s) mem n) s"
proof -
  let ?s1 = "s\<lparr>b := b s @ size_bytes n\<rparr>"
  have 1: "writeSize (of_nat n) s = Inr ?s1" using assms by (intro writeSize_eq) auto
  show ?thesis
  proof (cases "n = 0")
    case True
    with 1 assms show ?thesis by (simp add: write_array_def)
  next
    case False
    with 1 assms append_store [OF assms(2), of ?s1] show ?thesis
      by (auto simp: write_array_def Let_def)
  qed
qed











lemma write_bool_loop_eq:
  "pos + length v \<le> length buf \<Longrightarrow>
     write_bool_loop v pos buf = memcpy_at buf pos (map (\<lambda>x. if x then 1 else 0) v)"
proof (induction v arbitrary: pos buf)
  case (Cons x v)
  let ?y = "if x then 1 else 0 :: byte"
  have "write_bool_loop v (pos + 1) (buf[pos := ?y])
      = memcpy_at (buf[pos := ?y]) (pos + 1) (map (\<lambda>x. if x then 1 else 0) v)"
    using Cons.prems by (intro Cons.IH) simp
  moreover have "take (pos + 1) (buf[pos := ?y]) = take pos buf @ [?y]"
    using Cons.prems by (simp add: take_Suc_conv_app_nth)
  ultimately show ?case by (simp add: memcpy_at_def)
qed (simp add: memcpy_at_def)

lemma write_bool_array_eq: "length v < 2 ^ 31 \<Longrightarrow> writeBoolArray boolSize v s = writeBoolSeq v s"
  unfolding writeBoolArray_def writeBoolSeq_def
  by (intro arg_cong2 [where f = bindE] refl ext) (auto simp: Let_def resize_def store_def write_bool_loop_eq)








lemma length_num_wire: "length (concat (map (\<lambda>x. nat_to_le w (f x)) v)) = length v * w"
  by (induction v) auto

lemma write_bytes_eq:
  assumes "length v < 2 ^ 31" "room (length (size_bytes (length v)) + length v) s" "length u = length v"
  shows "writeByteSeq v s = appended (size_bytes (length v) @ v) s"
    "writeBoolSeq u s = appended (size_bytes (length u) @ map (\<lambda>x. if x then 1 else 0) u) s"
proof -
  have "writeByteSeq v s = write_array 1 (\<lambda>e m n. take n v) (length v) [] s"
    "writeBoolSeq u s = write_array 1 (\<lambda>e m n. map (\<lambda>x. if x then 1 else 0) (take n u)) (length u) [] s"
    unfolding writeByteSeq_def writeBoolSeq_def write_array_def mult_1_right by (rule refl)+
  with assms show "writeByteSeq v s = appended (size_bytes (length v) @ v) s"
    "writeBoolSeq u s = appended (size_bytes (length u) @ map (\<lambda>x. if x then 1 else 0) u) s"
    by (simp_all add: write_array_eq)
qed

lemma write_nums_eq:
  assumes "length v < 2 ^ 31" "room (length (size_bytes (length v)) + length v * w) s"
  shows "write_array w (num_wire w) (length v) (array_of (\<lambda>x. mem_image (host s) w (f x)) v) s
    = appended (seq_bytes (\<lambda>x. nat_to_le w (f x)) v) s"
  using assms by (simp add: write_array_eq num_wire_eq length_num_wire seq_bytes_def)

lemma write_doubles_eq:
  assumes "length v < 2 ^ 31" "room (length (size_bytes (length v)) + length v * 8) s"
  shows "write_array 8 double_wire (length v) (array_of (\<lambda>x. double_image (host s) (f x)) v) s
    = appended (seq_bytes (\<lambda>x. nat_to_le 8 (f x)) v) s"
  using assms by (simp add: write_array_eq double_wire_eq length_num_wire seq_bytes_def)

text \<open>
  C18. The wire format of the optimised sequence writers: with room in the stream, and whatever the byte
  order of the host, they append the size and the little-endian elements in order, which is what the
  generic helper appends element by element.
\<close>

theorem sequence_writers_wire:
  fixes vb :: "byte list" and vo :: "bool list" and v2 :: "int16 list" and v4 f4 :: "int32 list"
    and v8 f8 :: "int64 list"
  assumes "n < 2 ^ 31" "room (length (size_bytes n) + n * 8) s" "length vb = n" "length vo = n" "length v2 = n"
    "length v4 = n" "length v8 = n" "length f4 = n" "length f8 = n"
  shows "writeByteSeq vb s = appended (seq_bytes (\<lambda>x. [x]) vb) s \<and>
    writeBoolSeq vo s = appended (seq_bytes (\<lambda>x. [if x then 1 else 0]) vo) s \<and>
    writeBoolArray boolSize vo s = appended (seq_bytes (\<lambda>x. [if x then 1 else 0]) vo) s \<and>
    writeShortSeq v2 s = appended (seq_bytes (\<lambda>x. nat_to_le 2 (unat x)) v2) s \<and>
    writeIntSeq v4 s = appended (seq_bytes (\<lambda>x. nat_to_le 4 (unat x)) v4) s \<and>
    writeLongSeq v8 s = appended (seq_bytes (\<lambda>x. nat_to_le 8 (unat x)) v8) s \<and>
    writeFloatSeq f4 s = appended (seq_bytes (\<lambda>x. nat_to_le 4 (unat x)) f4) s \<and>
    writeDoubleSeq f8 s = appended (seq_bytes (\<lambda>x. nat_to_le 8 (unat x)) f8) s"
proof -
  have c: "concat (map (\<lambda>x. [g x]) xs) = map g xs" for g :: "'q \<Rightarrow> byte" and xs by (induction xs) auto
  have r: "room (length (size_bytes n) + n * w) s" if "w \<le> 8" for w
  proof -
    have "n * w \<le> n * 8" using that by (rule mult_le_mono2)
    with assms(2) show ?thesis by linarith
  qed
  have one: "length vb < 2 ^ 31" "room (length (size_bytes (length vb)) + length vb) s" "length vo = length vb"
    using assms r [of 1] by simp_all
  have "writeByteSeq vb s = appended (seq_bytes (\<lambda>x. [x]) vb) s"
    "writeBoolSeq vo s = appended (seq_bytes (\<lambda>x. [if x then 1 else 0]) vo) s"
    using write_bytes_eq [OF one] c [of "\<lambda>x. x" vb] c [of "\<lambda>x. if x then 1 else 0" vo] by (simp_all add: seq_bytes_def)
  moreover have "writeShortSeq v2 s = appended (seq_bytes (\<lambda>x. nat_to_le 2 (unat x)) v2) s"
    unfolding writeShortSeq_def by (rule write_nums_eq) (use assms r in simp_all)
  moreover have "writeIntSeq v4 s = appended (seq_bytes (\<lambda>x. nat_to_le 4 (unat x)) v4) s"
    unfolding writeIntSeq_def by (rule write_nums_eq) (use assms r in simp_all)
  moreover have "writeLongSeq v8 s = appended (seq_bytes (\<lambda>x. nat_to_le 8 (unat x)) v8) s"
    unfolding writeLongSeq_def by (rule write_nums_eq) (use assms r in simp_all)
  moreover have "writeFloatSeq f4 s = appended (seq_bytes (\<lambda>x. nat_to_le 4 (unat x)) f4) s"
    unfolding writeFloatSeq_def by (rule write_nums_eq) (use assms r in simp_all)
  moreover have "writeDoubleSeq f8 s = appended (seq_bytes (\<lambda>x. nat_to_le 8 (unat x)) f8) s"
    unfolding writeDoubleSeq_def by (rule write_doubles_eq) (use assms r in simp_all)
  moreover have "writeBoolArray boolSize vo s = writeBoolSeq vo s"
    by (rule write_bool_array_eq) (use assms in simp)
  ultimately show ?thesis by simp
qed

theorem sequence_writers_wire_witness:
  "writeIntSeq [1, 258] (BasicStream_new BigEndian 1024 None no_wconv Encoding_1_1 False)
   = appended [2, 1, 0, 0, 0, 2, 1, 0, 0] (BasicStream_new BigEndian 1024 None no_wconv Encoding_1_1 False)"
  using sequence_writers_wire [of 2 "BasicStream_new BigEndian 1024 None no_wconv Encoding_1_1 False"
      "[0, 0]" "[True, True]" "[0, 0]" "[1, 258]" "[0, 0]" "[0, 0]" "[0, 0]" 1]
  by (simp add: BasicStream_new_def seq_bytes_def size_bytes_def nat_to_le_4)

end
