(* ===== verification/StreamString.thy ===== *)
theory StreamString
  imports StreamCodec
begin

text \<open>
  Strings on a stream: \<^verbatim>\<open>cpp/include/Ice/BasicStream.h\<close> and \<^verbatim>\<open>cpp/src/Ice/BasicStream.cpp\<close>. A narrow string is
  written as it is, or through the string converter of the communicator; a wide string always goes through the
  wide-string converter. A converter stores into the stream's buffer directly, and the size
  in front of the string is first guessed and then corrected.
\<close>

section \<open>Operations\<close>

text \<open>
  \<^verbatim>\<open>StreamUTF8BufferI::getMoreBytes\<close> and what the converter does between two calls of it. \<open>firstUnused\<close>
  is \<open>None\<close> in the first call. The result is the pointer after the last byte stored.
\<close>

definition getMoreBytes :: "nat \<Rightarrow> nat option \<Rightarrow> nat reader" where
  "getMoreBytes howMany firstUnused s =
     (if howMany = 0 then Inl AssertFailed
      else
        (let s1 = (case firstUnused of None \<Rightarrow> s | Some p \<Rightarrow> s\<lparr>b := take p (b s)\<rparr>);
             pos = length (b s1)
         in bindE (resize (pos + howMany) s1) (\<lambda>s2. Inr (pos, s2))))"

fun convert_calls :: "(nat \<times> byte list) list \<Rightarrow> nat option \<Rightarrow> nat option reader" where
  "convert_calls [] firstUnused s = Inr (firstUnused, s)"
| "convert_calls ((howMany, bs) # calls) firstUnused s =
     bindS (getMoreBytes howMany firstUnused s) (\<lambda>pos s1.
     if length bs \<le> howMany
     then bindE (store pos bs s1) (\<lambda>s2. convert_calls calls (Some (pos + length bs)) s2)
     else Inl CxxUndefined)"

text \<open>The correction of a wrong guess: the bytes are moved if the two sizes have encodings of different length.\<close>

definition fix_size :: "int32 \<Rightarrow> int32 \<Rightarrow> nat \<Rightarrow> writer" where
  "fix_size guessedSize actualSize firstIndex s =
     bindE (if sint guessedSize \<le> 254 \<and> sint actualSize > 254 then
              bindE (resize (length (b s) + 4) s) (\<lambda>s1.
              store (firstIndex + 4) (take (nat (sint actualSize)) (drop firstIndex (b s1))) s1)
            else if sint guessedSize > 254 \<and> sint actualSize \<le> 254 then
              bindE (store (firstIndex - 4) (take (nat (sint actualSize)) (drop firstIndex (b s))) s) (\<lambda>s1.
              resize (length (b s1) - 4) s1)
            else Inr s) (\<lambda>s2.
     if sint guessedSize \<le> 254 then rewriteSize actualSize (firstIndex - 1) s2
     else rewriteSize actualSize (firstIndex - 1 - 4) s2)"

definition write_converted :: "'c converter \<Rightarrow> 'c list \<Rightarrow> writer" where
  "write_converted conv v s =
     (let guessedSize = of_nat (length v) :: int32
      in bindE (writeSize guessedSize s) (\<lambda>s1.
         let firstIndex = length (b s1)
         in case toUTF8 conv v of
              Inl e \<Rightarrow> Inl (ConversionError e)
            | Inr calls \<Rightarrow>
                bindS (convert_calls calls None s1) (\<lambda>last s2.
                case last of
                  None \<Rightarrow> Inl CxxUndefined
                | Some lastByte \<Rightarrow>
                    (let s3 = (if lastByte \<noteq> length (b s2) then s2\<lparr>b := take lastByte (b s2)\<rparr> else s2);
                         lastIndex = length (b s3);
                         actualSize = of_nat (lastIndex - firstIndex) :: int32
                     in if guessedSize \<noteq> actualSize then fix_size guessedSize actualSize firstIndex s3
                        else Inr s3))))"

definition writeString :: "bool \<Rightarrow> string \<Rightarrow> writer" where
  "writeString convert v s =
     (let sz = of_nat (length v) :: int32
      in case (if convert \<and> sint sz > 0 then stringConverter s else None) of
           Some c \<Rightarrow> write_converted c v s
         | None \<Rightarrow>
             bindE (writeSize sz s) (\<lambda>s1.
             if sint sz > 0 then
               (let pos = length (b s1)
                in bindE (resize (pos + nat (sint sz)) s1)
                     (\<lambda>s2. store pos (take (nat (sint sz)) (bytes_of_chars v)) s2))
             else Inr s1))"

definition lift_conv :: "conv_error + 'a \<Rightarrow> stream \<Rightarrow> stream_error + 'a \<times> stream" where
  "lift_conv r s = (case r of Inl e \<Rightarrow> Inl (ConversionError e) | Inr v \<Rightarrow> Inr (v, s))"

definition readString :: "bool \<Rightarrow> string reader" where
  "readString convert s =
     bindS (readSize s) (\<lambda>sz s1.
     if sz > 0 then
       bindE (need sz s1) (\<lambda>_.
       bindS (fetch sz s1) (\<lambda>bs s2.
       case (if convert then stringConverter s else None) of
         Some c \<Rightarrow> lift_conv (fromUTF8 c bs) s2
       | None \<Rightarrow> Inr (chars_of_bytes bs, s2)))
     else Inr ([], s1))"

definition writeStringSeq :: "bool \<Rightarrow> string list \<Rightarrow> writer" where
  "writeStringSeq convert v s =
     bindE (writeSize (of_nat (length v)) s) (\<lambda>s1.
     if sint (of_nat (length v) :: int32) > 0 then write_each (writeString convert) v s1 else Inr s1)"

definition readStringSeq :: "bool \<Rightarrow> string list reader" where
  "readStringSeq convert s =
     bindS (readAndCheckSeqSize 1 s) (\<lambda>sz s1. if sz > 0 then read_n (readString convert) sz s1 else Inr ([], s1))"

definition writeWstring :: "int32 list \<Rightarrow> writer" where
  "writeWstring v s = (if v = [] then writeSize 0 s else write_converted (wstringConverter s) v s)"

definition readWstring :: "int32 list reader" where
  "readWstring s =
     bindS (readSize s) (\<lambda>sz s1.
     if sz > 0 then
       bindE (need sz s1) (\<lambda>_. bindS (fetch sz s1) (\<lambda>bs s2. lift_conv (fromUTF8 (wstringConverter s) bs) s2))
     else Inr ([], s1))"

definition writeWstringSeq :: "int32 list list \<Rightarrow> writer" where
  "writeWstringSeq v s =
     bindE (writeSize (of_nat (length v)) s) (\<lambda>s1.
     if sint (of_nat (length v) :: int32) > 0 then write_each writeWstring v s1 else Inr s1)"

definition readWstringSeq :: "int32 list list reader" where
  "readWstringSeq s =
     bindS (readAndCheckSeqSize 1 s) (\<lambda>sz s1. if sz > 0 then read_n readWstring sz s1 else Inr ([], s1))"

section \<open>Strings without conversion\<close>

definition string_bytes :: "string \<Rightarrow> byte list" where
  "string_bytes v = size_bytes (length v) @ bytes_of_chars v"

lemma writeString_plain:
  assumes "length v < 2 ^ 31" "stringConverter s = None" "room (length (string_bytes v)) s"
  shows "writeString convert v s = appended (string_bytes v) s"
proof -
  let ?s1 = "s\<lparr>b := b s @ size_bytes (length v)\<rparr>"
  have "writeSize (of_nat (length v)) s = Inr ?s1"
    using assms by (intro writeSize_eq) (auto simp: string_bytes_def)
  moreover have "bindE (resize (length (b ?s1) + length v) ?s1) (\<lambda>s2. store (length (b ?s1)) (bytes_of_chars v) s2)
      = appended (bytes_of_chars v) ?s1"
    using append_store [of "bytes_of_chars v" "length v" ?s1] assms by (auto simp: string_bytes_def)
  ultimately show ?thesis using assms
    by (cases "v = []") (simp_all add: writeString_def sint_of_nat32 string_bytes_def bytes_of_chars_def)
qed

lemma need_fetch:
  "i s + n \<le> length (b s) \<Longrightarrow> bindE (need n s) (\<lambda>_. bindS (fetch n s) f) = f (take n (drop (i s) (b s))) (s\<lparr>i := i s + n\<rparr>)"
  "\<not> i s + n \<le> length (b s) \<Longrightarrow> bindE (need n s) (\<lambda>_. bindS (fetch n s) f) = Inl UnmarshalOutOfBounds"
  by (simp_all add: need_def fetch_def)

interpretation string_codec: codec "\<lambda>v. length v < 2 ^ 31" "writeString convert" "readString convert" string_bytes 1
  for convert
proof
  fix v :: string and s post d
  assume v: "length v < 2 ^ 31"
  show "1 \<le> length (string_bytes v)" using size_bytes_length(1) [of "length v"] by (simp add: string_bytes_def)
  show "writeString convert v s = appended (string_bytes v) s"
    if "stringConverter s = None" "room (length (string_bytes v)) s" using v that by (rule writeString_plain)
  assume a: "ahead (string_bytes v) post s" and o: "owes (1 + d) s"
  let ?s1 = "s\<lparr>i := i s + length (size_bytes (length v))\<rparr>"
  have r: "readSize s = Inr (length v, ?s1)"
    by (rule readSize_eq [OF v]) (use a in \<open>simp add: ahead_def string_bytes_def\<close>)
  have a1: "ahead (bytes_of_chars v) post ?s1"
    by (rule ahead_advance [OF a [unfolded string_bytes_def]]) simp_all
  have "readString convert s = Inr (v, s\<lparr>i := i s + length (string_bytes v)\<rparr>)"
  proof (cases "v = []")
    case True
    with r show ?thesis by (simp add: readString_def string_bytes_def)
  next
    case False
    have "i ?s1 + length v \<le> length (b ?s1)" using ahead_length [OF a1] by simp
    with False r ahead_take [OF a1, of "length v"] a show ?thesis
      by (simp add: readString_def need_fetch ahead_def string_bytes_def add.assoc)
  qed
  then show "\<exists>s'. readString convert s = Inr (v, s') \<and> frame s s' \<and> i s' = i s + length (string_bytes v) \<and> owes d s'"
    using owes_advance [OF o, of "length (string_bytes v)"] size_bytes_length(1) [of "length v"]
    by (simp add: string_bytes_def)
qed

interpretation string_reader: safe_reader "readString convert" for convert
proof
  fix s :: stream
  assume s: "cursor_ok s"
  show "read_safe s (readString convert s)"
  proof (cases "readSize s")
    case (Inl e)
    with size_reader.safe [OF s] show ?thesis by (simp add: readString_def read_safe_def)
  next
    case (Inr r)
    obtain n s1 where r: "r = (n, s1)" by force
    with Inr size_reader.safe [OF s] have 1: "frame s s1" "i s \<le> i s1" "i s1 \<le> length (b s)"
      by (simp_all add: read_safe_def)
    have "frame s (s1\<lparr>i := i s1 + n\<rparr>)" by (rule frame_trans [OF 1(1)]) simp
    then show ?thesis using Inr r 1 frameD(1) [OF 1(1)]
      by (cases "i s1 + n \<le> length (b s1)")
        (auto simp: readString_def need_fetch read_safe_def lift_conv_def split: option.splits sum.splits)
  qed
qed

interpretation string_dict: dict_codec "\<lambda>v. length v < 2 ^ 31" "writeString True" "readString True" string_bytes 1
  "\<lambda>v. length v < 2 ^ 31" "writeString True" "readString True" string_bytes 1
  by unfold_locales

interpretation context_codec: codec
  "\<lambda>m. smap_inv m \<and> list_all string_dict.entry_ok m \<and> length m < 2 ^ 31"
  "dict_write (writeString True) (writeString True)" "dict_read (readString True) (readString True)"
  "seq_bytes string_dict.entry_bytes" 1
  by (rule string_dict.dict_is_codec)

section \<open>Strings with conversion\<close>

definition calls_ok :: "(nat \<times> byte list) list \<Rightarrow> bool" where
  "calls_ok calls \<longleftrightarrow> list_all (\<lambda>(n, bs). 0 < n \<and> length bs \<le> n) calls"

definition asked :: "(nat \<times> byte list) list \<Rightarrow> nat" where
  "asked calls = sum_list (map fst calls)"

lemma stored_asked: "calls_ok calls \<Longrightarrow> length (stored calls) \<le> asked calls"
  by (induction calls) (auto simp: calls_ok_def stored_def asked_def)

lemma convert_calls_eq:
  "calls_ok calls \<Longrightarrow> calls \<noteq> [] \<Longrightarrow>
     (case fu of None \<Rightarrow> b s = w | Some p \<Rightarrow> p = length w \<and> take p (b s) = w) \<Longrightarrow>
     unlimited s \<or> length w + asked calls \<le> messageSizeMax s \<Longrightarrow>
     \<exists>junk. convert_calls calls fu s
       = Inr (Some (length w + length (stored calls)), s\<lparr>b := w @ stored calls @ junk\<rparr>)"
proof (induction calls arbitrary: fu s w)
  case (Cons call calls)
  obtain n bs where call: "call = (n, bs)" by force
  with Cons.prems(1) have n: "0 < n" "length bs \<le> n" by (simp_all add: calls_ok_def)
  let ?junk = "replicate (n - length bs) 0"
  let ?s2 = "s\<lparr>b := w @ bs @ ?junk\<rparr>"
  have w: "(case fu of None \<Rightarrow> s | Some p \<Rightarrow> s\<lparr>b := take p (b s)\<rparr>) = s\<lparr>b := w\<rparr>"
    using Cons.prems(3) by (auto split: option.splits)
  have "resize (length w + n) (s\<lparr>b := w\<rparr>) = Inr (s\<lparr>b := w @ replicate n 0\<rparr>)"
    using Cons.prems(4) call by (auto simp: resize_def asked_def)
  then have g: "getMoreBytes n fu s = Inr (length w, s\<lparr>b := w @ replicate n 0\<rparr>)"
    using n(1) w by (simp add: getMoreBytes_def Let_def)
  have m: "memcpy_at (w @ replicate n 0) (length w) bs = w @ bs @ ?junk"
    using n(2) by (simp add: memcpy_at_def)
  have step: "convert_calls (call # calls) fu s = convert_calls calls (Some (length w + length bs)) ?s2"
    using g n m call by (simp add: store_def)
  show ?case
  proof (cases "calls = []")
    case True
    with step call show ?thesis by (auto simp: stored_def)
  next
    case False
    have "\<exists>junk. convert_calls calls (Some (length w + length bs)) ?s2
       = Inr (Some (length (w @ bs) + length (stored calls)), ?s2\<lparr>b := (w @ bs) @ stored calls @ junk\<rparr>)"
      by (rule Cons.IH) (use Cons.prems call False n in \<open>auto simp: calls_ok_def asked_def\<close>)
    with step call show ?thesis by (simp add: stored_def add.assoc)
  qed
qed simp

lemma take_middle: "take (length u) (drop (length w) (w @ u @ junk)) = u"
  by simp

lemma memcpy_at_twice:
  "p + length xs + length ys \<le> length bs \<Longrightarrow>
     memcpy_at (memcpy_at bs p xs) (p + length xs) ys = memcpy_at bs p (xs @ ys)"
  by (simp add: memcpy_at_def ac_simps)

lemma rewriteSize_eq:
  assumes "n < 2 ^ 31" "p + length (size_bytes n) \<le> length (b t)"
  shows "rewriteSize (of_nat n) p t = Inr (t\<lparr>b := memcpy_at (b t) p (size_bytes n)\<rparr>)"
proof (cases "n \<le> 254")
  case True
  then have "(ucast (of_nat n :: int32) :: byte) = of_nat n"
    by (simp add: unsigned_of_nat word_of_nat_eq_iff take_bit_eq_mod)
  with True assms show ?thesis by (simp add: rewriteSize_def store_def sint_of_nat32 size_bytes_def)
next
  case False
  then show ?thesis using assms memcpy_at_twice [of p "[255]" "nat_to_le 4 n" "b t"]
    by (simp add: rewriteSize_def store_def writeInt_at_def sint_of_nat32 unat_of_nat32 size_bytes_def)
qed

lemma fix_size_eq:
  assumes g: "g < 2 ^ 31" and a: "length u < 2 ^ 31"
    and s: "b s = pre @ size_bytes g @ u" and r: "unlimited s \<or> length pre + 5 + length u \<le> messageSizeMax s"
  shows "fix_size (of_nat g) (of_nat (length u)) (length pre + length (size_bytes g)) s
    = Inr (s\<lparr>b := pre @ size_bytes (length u) @ u\<rparr>)"
proof -
  have ga: "sint (of_nat g :: int32) = int g" "sint (of_nat (length u) :: int32) = int (length u)"
    using g a by (simp_all add: sint_of_nat32)
  have rw: "rewriteSize (of_nat (length u)) p t = Inr (t\<lparr>b := take p (b t) @ size_bytes (length u)
      @ drop (p + length (size_bytes (length u))) (b t)\<rparr>)"
    if "p + length (size_bytes (length u)) \<le> length (b t)" for p t
    using rewriteSize_eq [OF a that] by (simp add: memcpy_at_def)
  consider (grow) "g \<le> 254" "length u > 254" | (shrink) "g > 254" "length u \<le> 254"
    | (small) "g \<le> 254" "length u \<le> 254" | (big) "g > 254" "length u > 254" by linarith
  then show ?thesis
  proof cases
    case grow
    let ?s1 = "s\<lparr>b := b s @ replicate 4 0\<rparr>"
    have "resize (length (b s) + 4) s = Inr ?s1" using r s grow by (auto simp: resize_def size_bytes_def)
    moreover have "take (length u) (drop (length pre + 1) (b ?s1)) = u"
      using s grow by (simp add: size_bytes_def)
    moreover have "store (length pre + 1 + 4) u ?s1
        = Inr (s\<lparr>b := take (length pre + 5) (b ?s1) @ u\<rparr>)"
      using s grow by (simp add: store_def memcpy_at_def size_bytes_def)
    ultimately show ?thesis using ga grow s rw [of "length pre"]
      by (simp add: fix_size_def size_bytes_def min_def)
  next
    case shrink
    have "take (length u) (drop (length pre + 5) (b s)) = u" using s shrink by (simp add: size_bytes_def)
    moreover define junk where "junk = drop (length pre + 1 + length u) (b s)"
    have len: "length junk = 4" using s shrink by (simp add: junk_def size_bytes_def)
    have st: "store (length pre + 1) u s = Inr (s\<lparr>b := pre @ [255] @ u @ junk\<rparr>)"
      using s shrink by (simp add: store_def memcpy_at_def size_bytes_def junk_def)
    have "resize (length pre + 1 + length u) (s\<lparr>b := pre @ [255] @ u @ junk\<rparr>) = Inr (s\<lparr>b := pre @ [255] @ u\<rparr>)"
      using r by (auto simp: resize_def)
    ultimately show ?thesis using ga shrink s st len rw [of "length pre" "s\<lparr>b := pre @ [255] @ u\<rparr>"]
      by (simp add: fix_size_def size_bytes_def)
  next
    case small
    then show ?thesis using ga s rw [of "length pre" s] by (simp add: fix_size_def size_bytes_def)
  next
    case big
    then show ?thesis using ga s rw [of "length pre" s] by (simp add: fix_size_def size_bytes_def)
  qed
qed

lemma write_converted_eq:
  assumes "calls_ok calls" "calls \<noteq> []" "toUTF8 conv v = Inr calls" "length v < 2 ^ 31"
    "length (stored calls) < 2 ^ 31" "room (5 + asked calls) s"
  shows "write_converted conv v s = appended (size_bytes (length (stored calls)) @ stored calls) s"
proof -
  let ?g = "size_bytes (length v)" and ?u = "stored calls"
  let ?s1 = "s\<lparr>b := b s @ ?g\<rparr>" and ?s3 = "s\<lparr>b := b s @ ?g @ ?u\<rparr>"
  have w: "writeSize (of_nat (length v)) s = Inr ?s1"
    using assms(4,6) size_bytes_length(2) [of "length v"] by (intro writeSize_eq) auto
  obtain junk where c: "convert_calls calls None ?s1
      = Inr (Some (length (b s @ ?g) + length ?u), s\<lparr>b := (b s @ ?g) @ ?u @ junk\<rparr>)"
    using convert_calls_eq [OF assms(1,2), where fu = None and s = ?s1 and w = "b s @ ?g"] assms(6) size_bytes_length(2) [of "length v"]
    by auto
  have "of_nat (length v) = (of_nat (length ?u) :: int32) \<longleftrightarrow> length v = length ?u"
    using assms(4,5) by (metis sint_of_nat32 of_nat_eq_iff)
  moreover have "fix_size (of_nat (length v)) (of_nat (length ?u)) (length (b s) + length ?g) ?s3
      = Inr (s\<lparr>b := b s @ size_bytes (length ?u) @ ?u\<rparr>)"
    using fix_size_eq [OF assms(4,5), of ?s3 "b s"] assms(6) stored_asked [OF assms(1)] by auto
  ultimately show ?thesis using w c assms(3)
    by (cases "junk = []") (simp_all add: write_converted_def Let_def)
qed

section \<open>Properties\<close>

text \<open>
  C19. Writing a string through a converter has the same effect as converting it first and writing size and
  bytes: however many blocks the converter asks for, and whether the guessed size was right, too
  small or too large, the stream ends with the exact size of the UTF-8 form followed by the UTF-8
  form. The converter is any that keeps its contract, and the stream has room for the blocks
  it asks for.
\<close>

theorem writeString_converted:
  assumes "stringConverter s = Some conv" "well_behaved conv" "toUTF8 conv v = Inr calls" "v \<noteq> []"
    "length v < 2 ^ 31" "length (stored calls) < 2 ^ 31" "room (5 + asked calls) s"
  shows "writeString True v s = appended (size_bytes (length (stored calls)) @ stored calls) s"
proof -
  have "calls_ok calls" "calls \<noteq> []" using assms(2,3) by (simp_all add: well_behaved_def calls_ok_def)
  from write_converted_eq [OF this assms(3,5-7)] show ?thesis
    using assms(1,4,5) by (simp add: writeString_def sint_of_nat32)
qed

theorem writeString_converted_witness:
  "writeString True [CHR ''a'', CHR 0xE9] (BasicStream_new X86 1024 (Some latin1) no_wconv Encoding_1_1 False)
   = appended [3, 0x61, 0xC3, 0xA9] (BasicStream_new X86 1024 (Some latin1) no_wconv Encoding_1_1 False)"
proof -
  let ?s = "BasicStream_new X86 1024 (Some latin1) no_wconv Encoding_1_1 False"
  let ?calls = "[(5, [0x61, 0xC3, 0xA9])] :: (nat \<times> byte list) list"
  have "stringConverter ?s = Some latin1" by (simp add: BasicStream_new_def)
  moreover have "toUTF8 latin1 [CHR ''a'', CHR 0xE9] = Inr ?calls"
    by (simp add: latin1_def latin1_bytes_def)
  moreover have "room (5 + asked ?calls) ?s" by (simp add: BasicStream_new_def asked_def)
  ultimately show ?thesis
    using writeString_converted [of ?s latin1 "[CHR ''a'', CHR 0xE9]" ?calls] latin1_well_behaved
    by (simp add: stored_def size_bytes_def)
qed

text \<open>
  C20. A converted string comes back: if the converter can undo its conversion of the string, reading what was
  written gives the string, and consumes it exactly.
\<close>

theorem readString_writeString_converted:
  assumes "stringConverter s = Some conv" "well_behaved conv" "toUTF8 conv v = Inr calls" "v \<noteq> []"
    "length v < 2 ^ 31" "stored calls \<noteq> []" "length (stored calls) < 2 ^ 31" "room (5 + asked calls) s"
    "fromUTF8 conv (stored calls) = Inr v"
  shows "\<exists>s1. writeString True v s = Inr s1 \<and>
     readString True (s1\<lparr>i := length (b s)\<rparr>) = Inr (v, s1\<lparr>i := length (b s1)\<rparr>)"
proof -
  let ?u = "stored calls"
  let ?s1 = "s\<lparr>b := b s @ size_bytes (length ?u) @ ?u\<rparr>"
  have "calls_ok calls" "calls \<noteq> []" using assms(2,3) by (simp_all add: well_behaved_def calls_ok_def)
  from write_converted_eq [OF this assms(3,5,7,8)] have w: "writeString True v s = Inr ?s1"
    using assms(1,4,5) by (simp add: writeString_def sint_of_nat32)
  have "readSize (?s1\<lparr>i := length (b s)\<rparr>) = Inr (length ?u, ?s1\<lparr>i := length (b s) + length (size_bytes (length ?u))\<rparr>)"
    using readSize_eq [OF assms(7), of "?s1\<lparr>i := length (b s)\<rparr>" ?u] by simp
  then have "readString True (?s1\<lparr>i := length (b s)\<rparr>) = Inr (v, ?s1\<lparr>i := length (b ?s1)\<rparr>)"
    using assms(1,6,9) by (simp add: readString_def need_fetch lift_conv_def add.assoc)
  with w show ?thesis by blast
qed

theorem readString_writeString_converted_witness:
  "\<exists>s1. writeString True [CHR 0xE9] (BasicStream_new X86 1024 (Some latin1) no_wconv Encoding_1_1 False) = Inr s1 \<and>
     readString True (s1\<lparr>i := 0\<rparr>) = Inr ([CHR 0xE9], s1\<lparr>i := length (b s1)\<rparr>)"
proof -
  let ?s = "BasicStream_new X86 1024 (Some latin1) no_wconv Encoding_1_1 False"
  let ?calls = "[(3, [0xC3, 0xA9])] :: (nat \<times> byte list) list"
  have "stringConverter ?s = Some latin1" "b ?s = []" by (simp_all add: BasicStream_new_def)
  moreover have "toUTF8 latin1 [CHR 0xE9] = Inr ?calls" by (simp add: latin1_def latin1_bytes_def)
  moreover have "fromUTF8 latin1 (stored ?calls) = Inr [CHR 0xE9]"
    using latin1_chars_bytes [of "[CHR 0xE9]"] by (simp add: latin1_def stored_def latin1_bytes_def)
  moreover have "room (5 + asked ?calls) ?s" by (simp add: BasicStream_new_def asked_def)
  ultimately show ?thesis
    using readString_writeString_converted [of ?s latin1 "[CHR 0xE9]" ?calls] latin1_well_behaved
    by (simp add: stored_def)
qed

text \<open>
  C21. Request contexts, dictionaries from strings to strings, survive the trip over a stream: for every map
  whose strings are within the 31-bit limit, what the dictionary writer appended is read back as the same
  map, entry by entry and in order.
\<close>

theorem context_roundtrip:
  assumes "smap_inv m" "list_all (\<lambda>(k, v). length k < 2 ^ 31 \<and> length v < 2 ^ 31) m" "length m < 2 ^ 31"
    "stringConverter s = None" "startSeq s = -1"
    "room (length (seq_bytes (\<lambda>(k, v). string_bytes k @ string_bytes v) m)) s"
    "length (b s) + length (seq_bytes (\<lambda>(k, v). string_bytes k @ string_bytes v) m) < 2 ^ 31"
  shows "\<exists>s1 s2. dict_write (writeString True) (writeString True) m s = Inr s1 \<and>
    dict_read (readString True) (readString True) (s1\<lparr>i := length (b s)\<rparr>) = Inr (m, s2) \<and>
    b s2 = b s @ seq_bytes (\<lambda>(k, v). string_bytes k @ string_bytes v) m \<and> i s2 = length (b s2)"
proof -
  have e: "string_dict.entry_bytes = (\<lambda>(k, v). string_bytes k @ string_bytes v)"
    "string_dict.entry_ok = (\<lambda>(k, v). length k < 2 ^ 31 \<and> length v < 2 ^ 31)"
    by (rule ext, simp only: string_dict.entry_bytes_def string_dict.entry_ok_def split_beta)+
  show ?thesis using context_codec.write_read [of m s] assms unfolding e by simp
qed

theorem context_roundtrip_witness:
  "\<exists>s1 s2. dict_write (writeString True) (writeString True) [(''a'', ''1''), (''b'', [])]
       (BasicStream_new X86 1024 None no_wconv Encoding_1_1 False) = Inr s1 \<and>
     dict_read (readString True) (readString True) (s1\<lparr>i := 0\<rparr>) = Inr ([(''a'', ''1''), (''b'', [])], s2) \<and> i s2 = 8"
proof -
  let ?m = "[(''a'', ''1''), (''b'', [])]" and ?s = "BasicStream_new X86 1024 None no_wconv Encoding_1_1 False"
  have "smap_inv ?m" by code_simp
  then show ?thesis using context_roundtrip [of ?m ?s]
    by (auto simp: BasicStream_new_def seq_bytes_def string_bytes_def size_bytes_def bytes_of_chars_def)
qed

section \<open>Reading a known prefix\<close>

definition consumed :: "byte list \<Rightarrow> stream \<Rightarrow> stream \<Rightarrow> bool" where
  "consumed bs s s' \<longleftrightarrow> frame s s' \<and> i s' = i s + length bs \<and> owes 0 s'"

lemma consumed_trans: "consumed xs s s1 \<Longrightarrow> consumed ys s1 s2 \<Longrightarrow> consumed (xs @ ys) s s2"
  by (auto simp: consumed_def intro: frame_trans)

lemma consumed_Nil: "owes 0 s \<Longrightarrow> consumed [] s s"
  by (simp add: consumed_def)

lemma consumed_owes: "consumed bs s s' \<Longrightarrow> owes 0 s'"
  by (simp add: consumed_def)

lemma ahead_consumed: "ahead (xs @ ys) post s \<Longrightarrow> consumed xs s s' \<Longrightarrow> ahead ys post s'"
  by (auto simp: consumed_def intro: ahead_advance)

lemma codec_consumes:
  assumes "codec ok wr rd enc mw" "ok v" "ahead (enc v @ ys) post s" "owes 0 s"
  shows "\<exists>s'. rd s = Inr (v, s') \<and> consumed (enc v) s s'"
proof -
  have "ahead (enc v) (ys @ post) s" using assms(3) by (simp add: ahead_def)
  moreover have "owes (mw + 0) s" using assms(4) by (auto simp: owes_def)
  ultimately show ?thesis using codec.rd_enc [OF assms(1,2)] by (fastforce simp: consumed_def)
qed

lemmas int_consumes = codec_consumes [OF int_codec.codec_axioms, simplified]
lemmas bool_consumes = codec_consumes [OF bool_codec.codec_axioms, simplified]
lemmas size_consumes = codec_consumes [OF size_codec.codec_axioms]
lemmas string_consumes = codec_consumes [OF string_codec.codec_axioms]

end
