(* ===== verification/StreamOptional.thy ===== *)
theory StreamOptional
  imports StreamCodec
begin

unbundle bit_operations_syntax

text \<open>
  Optional data members: \<open>writeOptImpl\<close>, \<open>readOptImpl\<close>, \<open>skipOpt\<close> and \<open>skipOpts\<close> of
  \<^verbatim>\<open>cpp/src/Ice/BasicStream.cpp\<close> and the optional helpers of \<^verbatim>\<open>cpp/include/Ice/StreamHelpers.h\<close>. The two loops
  may run forever on malformed data, and are functions into \<open>option\<close>, where \<open>None\<close> is a run that does not end.
  Reading a class instance is the business of the encapsulation decoders and is an argument here
  (\<open>readClass\<close>, the call \<^verbatim>\<open>read(0, 0)\<close>).
\<close>

section \<open>Operations\<close>

datatype optional_format =
    OptionalFormatF1 | OptionalFormatF2 | OptionalFormatF4 | OptionalFormatF8
  | OptionalFormatSize | OptionalFormatVSize | OptionalFormatFSize | OptionalFormatClass

fun format_code :: "optional_format \<Rightarrow> nat" where
  "format_code OptionalFormatF1 = 0"
| "format_code OptionalFormatF2 = 1"
| "format_code OptionalFormatF4 = 2"
| "format_code OptionalFormatF8 = 3"
| "format_code OptionalFormatSize = 4"
| "format_code OptionalFormatVSize = 5"
| "format_code OptionalFormatFSize = 6"
| "format_code OptionalFormatClass = 7"

text \<open>\<^verbatim>\<open>static_cast<OptionalFormat>(v & 0x07)\<close> and \<^verbatim>\<open>static_cast<Int>(v >> 3)\<close>.\<close>

definition format_of :: "byte \<Rightarrow> optional_format" where
  "format_of v =
     [OptionalFormatF1, OptionalFormatF2, OptionalFormatF4, OptionalFormatF8,
      OptionalFormatSize, OptionalFormatVSize, OptionalFormatFSize, OptionalFormatClass] ! unat (v AND 7)"

definition tag_of :: "byte \<Rightarrow> int" where
  "tag_of v = uint (drop_bit 3 v)"

definition OPTIONAL_END_MARKER :: byte where "OPTIONAL_END_MARKER = 0xFF"

definition writeOptImpl :: "int \<Rightarrow> optional_format \<Rightarrow> bool reader" where
  "writeOptImpl tag type s =
     (if getWriteEncoding s = Encoding_1_0 then Inr (False, s)
      else
        (let v = of_nat (format_code type) :: byte
         in if tag < 30 then bindE (writeByte (v OR of_int (tag * 8)) s) (\<lambda>s1. Inr (True, s1))
            else bindE (writeByte (v OR 0xF0) s) (\<lambda>s1.
                 bindE (writeSize (of_int tag) s1) (\<lambda>s2. Inr (True, s2)))))"

definition skipOpt :: "writer \<Rightarrow> optional_format \<Rightarrow> writer" where
  "skipOpt readClass type s =
     (case type of
        OptionalFormatF1 \<Rightarrow> skip 1 s
      | OptionalFormatF2 \<Rightarrow> skip 2 s
      | OptionalFormatF4 \<Rightarrow> skip 4 s
      | OptionalFormatF8 \<Rightarrow> skip 8 s
      | OptionalFormatSize \<Rightarrow> skipSize s
      | OptionalFormatVSize \<Rightarrow> bindS (readSize s) (\<lambda>n s1. skip (int n) s1)
      | OptionalFormatFSize \<Rightarrow> bindS (readInt s) (\<lambda>n s1. skip (sint n) s1)
      | OptionalFormatClass \<Rightarrow> readClass s)"

text \<open>The end of the current encapsulation; without one the null pointer is followed.\<close>

definition encaps_end :: "stream \<Rightarrow> int option" where
  "encaps_end s = (case readEncapsStack s of [] \<Rightarrow> None | e # _ \<Rightarrow> Some (int (rstart e) + rsz e))"

definition unexpected_format :: "int \<Rightarrow> stream_error" where
  "unexpected_format tag = MarshalError
     (''invalid optional data member '' @ [CHR 0x60] @ dec_string (nat tag) @ [SQUOTE] @ '': unexpected format'')"

definition opt_tag :: "byte \<Rightarrow> int reader" where
  "opt_tag v s = (if tag_of v = 30 then bindS (readSize s) (\<lambda>n s1. Inr (int n, s1)) else Inr (tag_of v, s))"

partial_function (option) readOpt_loop ::
  "writer \<Rightarrow> int \<Rightarrow> optional_format \<Rightarrow> stream \<Rightarrow> (stream_error + bool \<times> stream) option" where
  "readOpt_loop readClass readTag expectedFormat s =
     (case encaps_end s of
        None \<Rightarrow> Some (Inl CxxUndefined)
      | Some e \<Rightarrow>
          if int (i s) \<ge> e then Some (Inr (False, s))
          else (case readByte s of
                  Inl err \<Rightarrow> Some (Inl err)
                | Inr (v, s1) \<Rightarrow>
                    if v = OPTIONAL_END_MARKER then Some (Inr (False, s1\<lparr>i := i s1 - 1\<rparr>))
                    else (case opt_tag v s1 of
                            Inl err \<Rightarrow> Some (Inl err)
                          | Inr (tag, s2) \<Rightarrow>
                              if tag > readTag then
                                Some (Inr (False, s2\<lparr>i := i s2 - (if tag < 30 then 1 else if tag < 255 then 2 else 6)\<rparr>))
                              else if tag < readTag then
                                (case skipOpt readClass (format_of v) s2 of
                                   Inl err \<Rightarrow> Some (Inl err)
                                 | Inr s3 \<Rightarrow> readOpt_loop readClass readTag expectedFormat s3)
                              else if format_of v \<noteq> expectedFormat then Some (Inl (unexpected_format tag))
                              else Some (Inr (True, s2)))))"

definition readOptImpl ::
  "writer \<Rightarrow> int \<Rightarrow> optional_format \<Rightarrow> stream \<Rightarrow> (stream_error + bool \<times> stream) option" where
  "readOptImpl readClass readTag expectedFormat s =
     (if getReadEncoding s = Encoding_1_0 then Some (Inr (False, s))
      else readOpt_loop readClass readTag expectedFormat s)"

partial_function (option) skipOpts :: "writer \<Rightarrow> stream \<Rightarrow> (stream_error + stream) option" where
  "skipOpts readClass s =
     (case encaps_end s of
        None \<Rightarrow> Some (Inl CxxUndefined)
      | Some e \<Rightarrow>
          if int (i s) \<ge> e then Some (Inr s)
          else (case readByte s of
                  Inl err \<Rightarrow> Some (Inl err)
                | Inr (v, s1) \<Rightarrow>
                    if v = OPTIONAL_END_MARKER then Some (Inr s1)
                    else (case (if tag_of v = 30 then skipSize s1 else Inr s1) of
                            Inl err \<Rightarrow> Some (Inl err)
                          | Inr s2 \<Rightarrow>
                              (case skipOpt readClass (format_of v) s2 of
                                 Inl err \<Rightarrow> Some (Inl err)
                               | Inr s3 \<Rightarrow> skipOpts readClass s3))))"

text \<open>
  The optional helpers: plain data (\<open>F1\<close> to \<open>F8\<close>, \<open>Size\<close>, \<open>VSize\<close> for strings), a fixed-size struct of \<open>n\<close>
  bytes, variable-size data, and containers of \<open>n\<close> fixed-size elements of \<open>w\<close> bytes.
\<close>

definition opt_write_fixed :: "nat \<Rightarrow> ('a \<Rightarrow> writer) \<Rightarrow> 'a \<Rightarrow> writer" where
  "opt_write_fixed minWireSize wr v s = bindE (writeSize (of_nat minWireSize) s) (wr v)"

definition opt_read_sized :: "'a reader \<Rightarrow> 'a reader" where
  "opt_read_sized rd s = bindE (skipSize s) rd"

definition opt_write_var :: "('a \<Rightarrow> writer) \<Rightarrow> 'a \<Rightarrow> writer" where
  "opt_write_var wr v s =
     bindE (writeInt 0 s) (\<lambda>s1.
     let p = length (b s1)
     in bindE (wr v s1) (\<lambda>s2. rewrite (of_nat (length (b s2) - p)) (p - 4) s2))"

definition opt_read_var :: "'a reader \<Rightarrow> 'a reader" where
  "opt_read_var rd s = bindE (skip 4 s) rd"

definition opt_write_container :: "nat \<Rightarrow> ('a list \<Rightarrow> writer) \<Rightarrow> 'a list \<Rightarrow> writer" where
  "opt_write_container w wr v s =
     (let n = of_nat (length v) :: int32
      in bindE (writeSize (of_nat w * n + (if sint n < 255 then 1 else 5)) s) (wr v))"

text \<open>
  \<^verbatim>\<open>write(Int tag, const Optional<T>&)\<close> and \<^verbatim>\<open>read(Int tag, Optional<T>&)\<close> for data whose encoder and decoder are
  not set: tag first, then the data; a missing optional is not written and reads as \<open>None\<close>.
\<close>

definition write_optional :: "int \<Rightarrow> optional_format \<Rightarrow> ('a \<Rightarrow> writer) \<Rightarrow> 'a option \<Rightarrow> writer" where
  "write_optional tag fmt wr v s =
     (case v of
        None \<Rightarrow> Inr s
      | Some x \<Rightarrow>
          if writeEncapsStack s = [] then Inl AssertFailed
          else bindS (writeOptImpl tag fmt s) (\<lambda>ok s1. if ok then wr x s1 else Inr s1))"

definition read_optional ::
  "writer \<Rightarrow> int \<Rightarrow> optional_format \<Rightarrow> 'a reader \<Rightarrow> stream \<Rightarrow> (stream_error + 'a option \<times> stream) option" where
  "read_optional readClass tag fmt rd s =
     (if readEncapsStack s = [] then Some (Inl AssertFailed)
      else
        (case readOptImpl readClass tag fmt s of
           None \<Rightarrow> None
         | Some (Inl e) \<Rightarrow> Some (Inl e)
         | Some (Inr (found, s1)) \<Rightarrow>
             Some (if found then bindS (rd s1) (\<lambda>x s2. Inr (Some x, s2)) else Inr (None, s1))))"

section \<open>Tag bytes\<close>

definition opt_header :: "nat \<Rightarrow> optional_format \<Rightarrow> byte list" where
  "opt_header tag fmt =
     (if tag < 30 then [of_nat (format_code fmt + 8 * tag)]
      else of_nat (format_code fmt + 8 * 30) # size_bytes tag)"

lemma format_code_less [simp]: "format_code fmt < 8"
  by (cases fmt) simp_all

lemma and_7: "unat (v AND 7 :: byte) = unat v mod 8"
proof -
  have "v AND 7 = take_bit 3 v" by (simp add: take_bit_eq_mask mask_eq_exp_minus_1)
  then show ?thesis by (simp add: take_bit_eq_mod unat_mod_distrib)
qed

lemma tag_of_nat: "tag_of v = int (unat v div 8)"
proof -
  have "unat (drop_bit 3 v) = unat v div 8" by (simp add: drop_bit_eq_div unat_div_distrib)
  then show ?thesis by (simp only: tag_of_def uint_nat)
qed

lemma format_of_code: "unat v mod 8 = format_code fmt \<Longrightarrow> format_of v = fmt"
  unfolding format_of_def and_7 by (cases fmt) simp_all

lemma opt_byte:
  assumes "n \<le> 30"
  shows "unat (of_nat (format_code fmt + 8 * n) :: byte) = format_code fmt + 8 * n"
    "format_of (of_nat (format_code fmt + 8 * n)) = fmt" "tag_of (of_nat (format_code fmt + 8 * n)) = int n"
    "(of_nat (format_code fmt + 8 * n) :: byte) \<noteq> OPTIONAL_END_MARKER"
proof -
  have "format_code fmt + 8 * n < 255" using assms format_code_less [of fmt] by linarith
  then show u: "unat (of_nat (format_code fmt + 8 * n) :: byte) = format_code fmt + 8 * n"
    by (simp only: unat_of_nat) simp
  show "format_of (of_nat (format_code fmt + 8 * n)) = fmt" by (rule format_of_code) (simp add: u del: of_nat_add)
  show "tag_of (of_nat (format_code fmt + 8 * n)) = int n" by (simp add: tag_of_nat u del: of_nat_add)
  show "(of_nat (format_code fmt + 8 * n) :: byte) \<noteq> OPTIONAL_END_MARKER"
    using u \<open>format_code fmt + 8 * n < 255\<close> by (auto simp: OPTIONAL_END_MARKER_def simp del: of_nat_add)
qed

lemma or_all: "\<forall>f \<in> set [0..<8]. \<forall>n \<in> set [0..<31]. (of_nat f OR of_nat (8 * n) :: byte) = of_nat (f + 8 * n)"
  by code_simp

lemma or_disjoint:
  "n \<le> 30 \<Longrightarrow> (of_nat (format_code fmt) OR of_nat (8 * n) :: byte) = of_nat (format_code fmt + 8 * n)"
  using or_all by (simp del: upt_rec_numeral)

section \<open>Skipping well-formed members\<close>

definition upcoming :: "byte list \<Rightarrow> byte list \<Rightarrow> stream \<Rightarrow> bool" where
  "upcoming bs post s \<longleftrightarrow> drop (i s) (b s) = bs @ post \<and> i s \<le> length (b s)"

abbreviation forward :: "nat \<Rightarrow> stream \<Rightarrow> stream" where
  "forward n s \<equiv> s\<lparr>i := i s + n\<rparr>"

lemma upcoming_length: "upcoming bs post s \<Longrightarrow> length (b s) = i s + length bs + length post"
  unfolding upcoming_def by (metis add.assoc le_add_diff_inverse length_append length_drop)

lemma upcoming_advance:
  assumes "upcoming (xs @ ys) post s"
  shows "upcoming ys post (forward (length xs) s)"
proof -
  have "drop (i s + length xs) (b s) = drop (length xs) (drop (i s) (b s))" by (simp add: add.commute)
  also have "\<dots> = ys @ post" using assms by (simp add: upcoming_def)
  finally show ?thesis using upcoming_length [OF assms] unfolding upcoming_def by simp
qed

lemma upcoming_byte:
  assumes "upcoming (v # bs) post s"
  shows "readByte s = Inr (v, forward 1 s)"
proof -
  have "i s < length (b s)" using upcoming_length [OF assms] by simp
  moreover have "b s ! i s = v" using assms by (simp add: upcoming_def nth_via_drop)
  ultimately show ?thesis by (simp add: readByte_def)
qed

lemma upcoming_int:
  assumes "n < 2 ^ 31" "upcoming (nat_to_le 4 n @ bs) post s"
  shows "readInt s = Inr (of_nat n, forward 4 s)"
proof -
  have "i s + 4 \<le> length (b s)" using upcoming_length [OF assms(2)] by simp
  moreover have "take 4 (drop (i s) (b s)) = nat_to_le 4 n" using assms(2) by (simp add: upcoming_def)
  moreover have "n mod 256 ^ 4 = n" using assms(1) by simp
  ultimately show ?thesis by (simp only: read_num_eq le_to_nat_to_le if_True)
qed

lemma skip_forward: "i s + n \<le> length (b s) \<Longrightarrow> skip (int n) s = Inr (forward n s)"
  by (simp add: skip_def nat_int_add)

lemma skipSize_forward:
  assumes "n < 2 ^ 31" "upcoming (size_bytes n @ bs) post s"
  shows "skipSize s = Inr (forward (length (size_bytes n)) s)"
proof (cases "n \<le> 254")
  case True
  have "unat (of_nat n :: byte) \<noteq> 255" using True by (simp add: unat_of_nat)
  with True assms(2) upcoming_byte [of "of_nat n" bs post s] show ?thesis
    by (simp add: skipSize_def size_bytes_def)
next
  case False
  have "skip (int 4) (forward 1 s) = Inr (forward 4 (forward 1 s))"
    using upcoming_length [OF assms(2)] False by (intro skip_forward) (simp add: size_bytes_def)
  with False assms(2) upcoming_byte [of 255 "nat_to_le 4 n @ bs" post s] show ?thesis
    by (simp add: skipSize_def size_bytes_def)
qed

text \<open>The data after the tag, as the format prescribes it. Class instances are excluded.\<close>

definition payload_ok :: "optional_format \<Rightarrow> byte list \<Rightarrow> bool" where
  "payload_ok fmt p \<longleftrightarrow>
     (case fmt of
        OptionalFormatF1 \<Rightarrow> length p = 1
      | OptionalFormatF2 \<Rightarrow> length p = 2
      | OptionalFormatF4 \<Rightarrow> length p = 4
      | OptionalFormatF8 \<Rightarrow> length p = 8
      | OptionalFormatSize \<Rightarrow> (\<exists>n < 2 ^ 31. p = size_bytes n)
      | OptionalFormatVSize \<Rightarrow> (\<exists>d. length d < 2 ^ 31 \<and> p = size_bytes (length d) @ d)
      | OptionalFormatFSize \<Rightarrow> (\<exists>d. length d < 2 ^ 31 \<and> p = nat_to_le 4 (length d) @ d)
      | OptionalFormatClass \<Rightarrow> False)"

lemma skipOpt_forward:
  assumes "payload_ok fmt p" "upcoming p post s"
  shows "skipOpt readClass fmt s = Inr (forward (length p) s)"
proof -
  note len = upcoming_length [OF assms(2)]
  have fixed: "skip (int (length p)) s = Inr (forward (length p) s)"
    using len by (intro skip_forward) simp
  show ?thesis
  proof (cases fmt)
    case OptionalFormatSize
    with assms skipSize_forward [of _ "[]" post s] show ?thesis by (auto simp: payload_ok_def skipOpt_def)
  next
    case OptionalFormatVSize
    with assms(1) obtain d where d: "length d < 2 ^ 31" "p = size_bytes (length d) @ d" by (auto simp: payload_ok_def)
    have "readSize s = Inr (length d, forward (length (size_bytes (length d))) s)"
      by (rule readSize_eq [OF d(1)]) (use assms(2) d(2) in \<open>simp add: upcoming_def\<close>)
    moreover have "skip (int (length d)) (forward (length (size_bytes (length d))) s)
        = Inr (forward (length d) (forward (length (size_bytes (length d))) s))"
      using len d(2) by (intro skip_forward) simp
    ultimately show ?thesis using OptionalFormatVSize d(2) by (simp add: skipOpt_def add.assoc)
  next
    case OptionalFormatFSize
    with assms(1) obtain d where d: "length d < 2 ^ 31" "p = nat_to_le 4 (length d) @ d" by (auto simp: payload_ok_def)
    have "skip (int (length d)) (forward 4 s) = Inr (forward (length d) (forward 4 s))"
      using len d(2) by (intro skip_forward) simp
    with OptionalFormatFSize d upcoming_int [OF d(1), of d post s] assms(2) show ?thesis
      by (simp add: skipOpt_def sint_of_nat32 add.assoc)
  qed (use assms(1) fixed in \<open>simp_all add: payload_ok_def skipOpt_def\<close>)
qed

lemma read_header:
  assumes "tag < 2 ^ 31" "upcoming (opt_header tag fmt @ rest) post s"
  obtains v where "readByte s = Inr (v, forward 1 s)" "v \<noteq> OPTIONAL_END_MARKER" "format_of v = fmt"
    "opt_tag v (forward 1 s) = Inr (int tag, forward (length (opt_header tag fmt)) s)"
    "(if tag_of v = 30 then skipSize (forward 1 s) else Inr (forward 1 s))
       = Inr (forward (length (opt_header tag fmt)) s)"
proof (cases "tag < 30")
  case True
  let ?v = "of_nat (format_code fmt + 8 * tag) :: byte"
  have "readByte s = Inr (?v, forward 1 s)"
    by (rule upcoming_byte [of _ rest post]) (use assms(2) True in \<open>simp add: opt_header_def\<close>)
  with True opt_byte [of tag fmt] that [of ?v] show ?thesis by (simp add: opt_tag_def opt_header_def del: of_nat_add)
next
  case False
  let ?v = "of_nat (format_code fmt + 8 * 30) :: byte"
  have a: "upcoming ([?v] @ size_bytes tag @ rest) post s"
    using assms(2) False by (simp add: opt_header_def del: of_nat_add)
  have 1: "readByte s = Inr (?v, forward 1 s)"
    by (rule upcoming_byte [of _ "size_bytes tag @ rest" post]) (use a in simp)
  have u: "upcoming (size_bytes tag @ rest) post (forward 1 s)" using upcoming_advance [OF a] by simp
  have "readSize (forward 1 s) = Inr (tag, forward (length (size_bytes tag)) (forward 1 s))"
    by (rule readSize_eq [OF assms(1)]) (use u in \<open>simp add: upcoming_def\<close>)
  moreover note skipSize_forward [OF assms(1) u]
  ultimately show ?thesis using False 1 opt_byte [of 30 fmt] that [of ?v]
    by (simp add: opt_tag_def opt_header_def del: of_nat_add)
qed

text \<open>A member: its tag, format and data.\<close>

type_synonym member = "nat \<times> optional_format \<times> byte list"

definition member_bytes :: "member \<Rightarrow> byte list" where
  "member_bytes m = (case m of (tag, fmt, p) \<Rightarrow> opt_header tag fmt @ p)"

definition member_ok :: "member \<Rightarrow> bool" where
  "member_ok m = (case m of (tag, fmt, p) \<Rightarrow> tag < 2 ^ 31 \<and> payload_ok fmt p)"

lemma member_simps [simp]:
  "member_bytes (tag, fmt, p) = opt_header tag fmt @ p"
  "member_ok (tag, fmt, p) \<longleftrightarrow> tag < 2 ^ 31 \<and> payload_ok fmt p"
  by (simp_all add: member_bytes_def member_ok_def)

abbreviation members_bytes :: "member list \<Rightarrow> byte list" where
  "members_bytes ms \<equiv> concat (map member_bytes ms)"

lemma opt_header_nonempty: "0 < length (opt_header tag fmt)"
  by (simp add: opt_header_def)

lemma members_not_end: "\<not> int (k + length (members_bytes (m # ms))) \<le> int k"
proof -
  have "0 < length (member_bytes m)" using opt_header_nonempty by (cases m) (simp only: member_simps length_append add_gr_0 simp_thms)
  then show ?thesis by (simp only: list.map concat.simps length_append of_nat_le_iff not_le)
qed

lemma skipOpts_step:
  assumes "encaps_end s = Some e" "\<not> e \<le> int (i s)" "readByte s = Inr (v, s1)" "v \<noteq> OPTIONAL_END_MARKER"
    "(if tag_of v = 30 then skipSize s1 else Inr s1) = Inr s2" "skipOpt readClass (format_of v) s2 = Inr s3"
  shows "skipOpts readClass s = skipOpts readClass s3"
  using assms by (subst skipOpts.simps) (simp split del: if_split)

lemma readOpt_step:
  assumes "encaps_end s = Some e" "\<not> e \<le> int (i s)" "readByte s = Inr (v, s1)" "v \<noteq> OPTIONAL_END_MARKER"
    "opt_tag v s1 = Inr (tag, s2)"
  shows "readOpt_loop readClass readTag fmt s =
    (if tag > readTag then
       Some (Inr (False, s2\<lparr>i := i s2 - (if tag < 30 then 1 else if tag < 255 then 2 else 6)\<rparr>))
     else if tag < readTag then
       (case skipOpt readClass (format_of v) s2 of
          Inl err \<Rightarrow> Some (Inl err) | Inr s3 \<Rightarrow> readOpt_loop readClass readTag fmt s3)
     else if format_of v \<noteq> fmt then Some (Inl (unexpected_format tag)) else Some (Inr (True, s2)))"
  using assms by (subst readOpt_loop.simps) (simp split del: if_split)

lemma skipOpts_members:
  "list_all member_ok ms \<Longrightarrow> upcoming (members_bytes ms) post s \<Longrightarrow>
     encaps_end s = Some (int (i s + length (members_bytes ms))) \<Longrightarrow>
     skipOpts readClass s = Some (Inr (forward (length (members_bytes ms)) s))"
proof (induction ms arbitrary: s)
  case Nil
  then show ?case by (simp add: skipOpts.simps [of readClass s])
next
  case (Cons m ms)
  obtain tag fmt p where m: "m = (tag, fmt, p)" by (cases m)
  let ?h = "opt_header tag fmt"
  have ok: "tag < 2 ^ 31" "payload_ok fmt p" using Cons.prems(1) m by simp_all
  have up: "upcoming (?h @ p @ members_bytes ms) post s" using Cons.prems(2) m by simp
  obtain v where v: "readByte s = Inr (v, forward 1 s)" "v \<noteq> OPTIONAL_END_MARKER" "format_of v = fmt"
    "(if tag_of v = 30 then skipSize (forward 1 s) else Inr (forward 1 s)) = Inr (forward (length ?h) s)"
    using read_header [OF ok(1) up] by metis
  have up2: "upcoming (p @ members_bytes ms) post (forward (length ?h) s)" using upcoming_advance [OF up] .
  then have "skipOpt readClass fmt (forward (length ?h) s) = Inr (forward (length p) (forward (length ?h) s))"
    by (intro skipOpt_forward [OF ok(2), of "members_bytes ms @ post"]) (simp add: upcoming_def)
  with v(3) have "skipOpts readClass s = skipOpts readClass (forward (length p) (forward (length ?h) s))"
    by (intro skipOpts_step [OF Cons.prems(3) members_not_end v(1,2,4)]) simp
  also have "\<dots> = Some (Inr (forward (length (members_bytes ms)) (forward (length p) (forward (length ?h) s))))"
    using Cons.prems m upcoming_advance [OF up2]
    by (intro Cons.IH) (simp_all add: encaps_end_def ac_simps)
  finally show ?case using m by (simp add: add.assoc)
qed

text \<open>
  Looking up a tag among members: the members with smaller tags are passed over; the search stops at
  the first member with the tag or a greater one.
\<close>

definition lookup_member :: "nat \<Rightarrow> optional_format \<Rightarrow> member list \<Rightarrow> stream \<Rightarrow> stream_error + bool \<times> stream" where
  "lookup_member tag fmt ms s =
     (let k = length (members_bytes (takeWhile (\<lambda>m. fst m < tag) ms))
      in case dropWhile (\<lambda>m. fst m < tag) ms of
           [] \<Rightarrow> Inr (False, forward k s)
         | (tag', fmt', p) # _ \<Rightarrow>
             if tag < tag' then Inr (False, forward k s)
             else if fmt' \<noteq> fmt then Inl (unexpected_format (int tag))
             else Inr (True, forward (k + length (opt_header tag fmt)) s))"

lemma rewind_header:
  "(if int tag < 30 then 1 else if int tag < 255 then 2 else 6) = length (opt_header tag fmt)"
  by (simp add: opt_header_def size_bytes_def)

lemma readOpt_loop_members:
  "list_all member_ok ms \<Longrightarrow> upcoming (members_bytes ms) post s \<Longrightarrow>
     encaps_end s = Some (int (i s + length (members_bytes ms))) \<Longrightarrow>
     readOpt_loop readClass (int tag) fmt s = Some (lookup_member tag fmt ms s)"
proof (induction ms arbitrary: s)
  case Nil
  then show ?case by (simp add: readOpt_loop.simps [of readClass _ fmt s] lookup_member_def)
next
  case (Cons m ms)
  obtain t f p where m: "m = (t, f, p)" by (cases m)
  let ?h = "opt_header t f"
  have ok: "t < 2 ^ 31" "payload_ok f p" using Cons.prems(1) m by simp_all
  have up: "upcoming (?h @ p @ members_bytes ms) post s" using Cons.prems(2) m by simp
  obtain v where v: "readByte s = Inr (v, forward 1 s)" "v \<noteq> OPTIONAL_END_MARKER" "format_of v = f"
    "opt_tag v (forward 1 s) = Inr (int t, forward (length ?h) s)"
    using read_header [OF ok(1) up] by metis
  note start = readOpt_step [OF Cons.prems(3) members_not_end v(1,2,4)] v(3)
  consider "t < tag" | "t = tag" | "tag < t" by linarith
  then show ?case
  proof cases
    case 1
    have up2: "upcoming (p @ members_bytes ms) post (forward (length ?h) s)" using upcoming_advance [OF up] .
    let ?s3 = "forward (length p) (forward (length ?h) s)"
    have "skipOpt readClass f (forward (length ?h) s) = Inr ?s3"
      using up2 by (intro skipOpt_forward [OF ok(2), of "members_bytes ms @ post"]) (simp add: upcoming_def)
    moreover have "readOpt_loop readClass (int tag) fmt ?s3 = Some (lookup_member tag fmt ms ?s3)"
      using Cons.prems m upcoming_advance [OF up2]
      by (intro Cons.IH) (simp_all add: encaps_end_def ac_simps)
    moreover have "lookup_member tag fmt ms ?s3 = lookup_member tag fmt (m # ms) s"
      using 1 m by (cases "dropWhile (\<lambda>m. fst m < tag) ms") (auto simp: lookup_member_def Let_def add.assoc simp del: dropWhile_eq_Nil_conv)
    ultimately show ?thesis using 1 by (simp add: start)
  next
    case 2
    then show ?thesis using m by (simp add: start lookup_member_def)
  next
    case 3
    then show ?thesis using m rewind_header [of t f] by (simp add: start lookup_member_def)
  qed
qed

section \<open>Properties\<close>

text \<open>
  Reading an optional member finds exactly the members that are there: in an encapsulation of the
  1.1 encoding that ends with a list of well-formed members, \<open>readOptImpl\<close> always returns; it passes over the
  members with smaller tags, whatever their formats, and then either stands behind the tag of the wanted
  member, or reports a format mismatch, or, if the member is absent, stands in front of the next
  member again, so that it can be read later.
\<close>

theorem readOptImpl_lookup:
  assumes "getReadEncoding s \<noteq> Encoding_1_0" "list_all member_ok ms" "upcoming (members_bytes ms) post s"
    and "encaps_end s = Some (int (i s + length (members_bytes ms)))"
  shows "readOptImpl readClass (int tag) fmt s = Some (lookup_member tag fmt ms s)"
  using readOpt_loop_members [OF assms(2-4)] assms(1) by (simp add: readOptImpl_def)

definition encaps_view :: "byte list \<Rightarrow> stream" where
  "encaps_view bytes = (BasicStream_view X86 1024 None no_wconv Encoding_1_1 bytes)
     \<lparr>readEncapsStack := [\<lparr>rstart = 0, rsz = int (length bytes), rencoding = Encoding_1_1\<rparr>]\<rparr>"

theorem readOptImpl_lookup_witness:
  "readOptImpl (\<lambda>s. Inl CxxUndefined) 40 OptionalFormatVSize
      (encaps_view (members_bytes [(1, OptionalFormatF1, [7]), (40, OptionalFormatVSize, [2, 65, 66])]))
   = Some (Inr (True, (encaps_view (members_bytes [(1, OptionalFormatF1, [7]), (40, OptionalFormatVSize, [2, 65, 66])]))
      \<lparr>i := 4\<rparr>))"
proof -
  let ?ms = "[(1, OptionalFormatF1, [7]), (40, OptionalFormatVSize, [2, 65, 66])] :: member list"
  have "payload_ok OptionalFormatVSize [2, 65, 66]"
    unfolding payload_ok_def by (simp, rule exI [of _ "[65, 66]"]) (simp add: size_bytes_def)
  then have "list_all member_ok ?ms" by (simp add: payload_ok_def)
  moreover have "getReadEncoding (encaps_view bs) \<noteq> Encoding_1_0" "i (encaps_view bs) = 0" "b (encaps_view bs) = bs"
    "encaps_end (encaps_view bs) = Some (int (length bs))" for bs
    by (simp_all add: encaps_view_def BasicStream_view_def BasicStream_new_def getReadEncoding_def encaps_end_def
        Encoding_1_0_def Encoding_1_1_def)
  ultimately show ?thesis
    using readOptImpl_lookup [of "encaps_view (members_bytes ?ms)" ?ms "[]" "\<lambda>s. Inl CxxUndefined" 40 OptionalFormatVSize]
    by (simp add: upcoming_def lookup_member_def opt_header_def size_bytes_def)
qed

text \<open>
  C22. \<open>skipOpts\<close> returns on every list of well-formed members, and leaves the iterator exactly at the end of the
  encapsulation.
\<close>

theorem skipOpts_returns:
  assumes "list_all member_ok ms" "upcoming (members_bytes ms) post s"
    and "encaps_end s = Some (int (i s + length (members_bytes ms)))"
  shows "skipOpts readClass s = Some (Inr (s\<lparr>i := i s + length (members_bytes ms)\<rparr>))"
  using assms by (rule skipOpts_members)

theorem skipOpts_returns_witness:
  "skipOpts (\<lambda>s. Inl CxxUndefined) (encaps_view (members_bytes [(1, OptionalFormatF1, [7]), (2, OptionalFormatF2, [8, 9])]))
   = Some (Inr ((encaps_view (members_bytes [(1, OptionalFormatF1, [7]), (2, OptionalFormatF2, [8, 9])]))\<lparr>i := 5\<rparr>))"
  using skipOpts_returns [of "[(1, OptionalFormatF1, [7]), (2, OptionalFormatF2, [8, 9])]" "[]"
      "encaps_view (members_bytes [(1, OptionalFormatF1, [7]), (2, OptionalFormatF2, [8, 9])])" "\<lambda>s. Inl CxxUndefined"]
  by (simp add: payload_ok_def upcoming_def encaps_view_def BasicStream_view_def BasicStream_new_def encaps_end_def
      opt_header_def)

definition endless :: stream where
  "endless = encaps_view [14, 0xFB, 0xFF, 0xFF, 0xFF]"

lemma endless_step:
  "encaps_end endless = Some 5" "i endless = 0" "readByte endless = Inr (14, endless\<lparr>i := Suc 0\<rparr>)"
  "tag_of 14 = 1" "format_of 14 = OptionalFormatFSize"
  "skipOpt readClass OptionalFormatFSize (endless\<lparr>i := Suc 0\<rparr>) = Inr endless"
  by (simp_all add: endless_def encaps_view_def BasicStream_view_def BasicStream_new_def encaps_end_def readByte_def
      tag_of_nat format_of_def and_7 skipOpt_def read_num_eq skip_def)

lemma skipOpts_endless:
  assumes "skipOpts readClass s = Some r"
  shows "s \<noteq> endless"
proof (rule skipOpts.raw_induct [where P = "\<lambda>readClass s r. s \<noteq> endless", OF _ assms])
  fix skipOpts' readClass s r
  assume IH: "\<And>readClass s r. skipOpts' readClass s = Some r \<Longrightarrow> s \<noteq> endless"
    and body: "(case encaps_end s of
        None \<Rightarrow> Some (Inl CxxUndefined)
      | Some e \<Rightarrow>
          if e \<le> int (i s) then Some (Inr s)
          else (case readByte s of
                  Inl err \<Rightarrow> Some (Inl err)
                | Inr (v, s1) \<Rightarrow>
                    if v = OPTIONAL_END_MARKER then Some (Inr s1)
                    else (case (if tag_of v = 30 then skipSize s1 else Inr s1) of
                            Inl err \<Rightarrow> Some (Inl err)
                          | Inr s2 \<Rightarrow>
                              (case skipOpt readClass (format_of v) s2 of
                                 Inl err \<Rightarrow> Some (Inl err)
                               | Inr s3 \<Rightarrow> skipOpts' readClass s3)))) = Some r"
  show "s \<noteq> endless"
  proof
    assume "s = endless"
    with body have "skipOpts' readClass endless = Some r"
      by (simp add: endless_step OPTIONAL_END_MARKER_def)
    with IH show False by blast
  qed
qed

text \<open>
  C23. Malformed data can keep \<open>skipOpts\<close> in its loop forever: a member in the \<open>FSize\<close> format whose size field is
  minus five moves the iterator back to the member itself, since the size is not checked before it is
  converted to an unsigned type. The call does not return.
\<close>

theorem skipOpts_diverges:
  "skipOpts readClass (encaps_view [14, 0xFB, 0xFF, 0xFF, 0xFF]) = None"
  using skipOpts_endless [of readClass endless] unfolding endless_def by (metis not_None_eq)

section \<open>Writing members\<close>

lemma writeOptImpl_header:
  assumes "getWriteEncoding s \<noteq> Encoding_1_0" "tag < 2 ^ 31" "room (length (opt_header tag fmt)) s"
  shows "writeOptImpl (int tag) fmt s = Inr (True, s\<lparr>b := b s @ opt_header tag fmt\<rparr>)"
proof (cases "tag < 30")
  case True
  then have "(of_nat (format_code fmt) OR of_int (int tag * 8) :: byte) = of_nat (format_code fmt + 8 * tag)"
    using or_disjoint [of tag fmt] by (simp add: mult.commute)
  with True assms(1) show ?thesis by (simp add: writeOptImpl_def writeByte_def opt_header_def)
next
  case False
  let ?v = "of_nat (format_code fmt + 8 * 30) :: byte"
  have v: "(of_nat (format_code fmt) OR 0xF0 :: byte) = ?v"
    using or_disjoint [of 30 fmt] by simp
  have "writeSize (of_nat tag) (s\<lparr>b := b s @ [?v]\<rparr>) = appended (size_bytes tag) (s\<lparr>b := b s @ [?v]\<rparr>)"
    using assms(2,3) False by (intro writeSize_eq) (auto simp: opt_header_def)
  with False assms(1) v show ?thesis
    by (simp add: writeOptImpl_def writeByte_def opt_header_def del: of_nat_add)
qed

lemma opt_write_container_eq:
  assumes len: "\<And>x. length (enc x) = w" and wr: "\<And>t. stringConverter t = stringConverter s \<Longrightarrow> room (length (seq_bytes enc v)) t \<Longrightarrow>
        wr v t = appended (seq_bytes enc v) t"
    and n: "length (seq_bytes enc v) < 2 ^ 31" "length v < 2 ^ 31"
    and r: "room (length (size_bytes (length (seq_bytes enc v))) + length (seq_bytes enc v)) s"
  shows "opt_write_container w wr v s = appended (size_bytes (length (seq_bytes enc v)) @ seq_bytes enc v) s"
proof -
  have "length (concat (map enc v)) = w * length v" using len by (induction v) simp_all
  then have "length (seq_bytes enc v) = w * length v + (if length v < 255 then 1 else 5)"
    by (simp add: seq_bytes_def size_bytes_def)
  then have "of_nat w * of_nat (length v) + (if sint (of_nat (length v) :: int32) < 255 then 1 else 5)
      = (of_nat (length (seq_bytes enc v)) :: int32)"
    using n(2) by (simp add: sint_of_nat32)
  moreover have "writeSize (of_nat (length (seq_bytes enc v))) s = appended (size_bytes (length (seq_bytes enc v))) s"
    using n(1) r by (intro writeSize_eq) auto
  moreover have "wr v (s\<lparr>b := b s @ size_bytes (length (seq_bytes enc v))\<rparr>)
      = appended (seq_bytes enc v) (s\<lparr>b := b s @ size_bytes (length (seq_bytes enc v))\<rparr>)"
    using r by (intro wr) auto
  ultimately show ?thesis by (simp add: opt_write_container_def Let_def)
qed

text \<open>
  An optional sequence of fixed-size elements is written as a well-formed member: the size that the helper
  computes in advance from the number of elements is exactly the length of the sequence's encoding, so that
  a receiver that does not know the member can skip it. Stated for sequences of integers.
\<close>

theorem optional_sequence_member:
  assumes "writeEncapsStack s \<noteq> []" "getWriteEncoding s \<noteq> Encoding_1_0" "tag < 2 ^ 31" "stringConverter s = None"
    and "length v < 2 ^ 31" "length (seq_bytes (\<lambda>x. nat_to_le 4 (unat x)) v) < 2 ^ 31"
    and "room (11 + length (seq_bytes (\<lambda>x. nat_to_le 4 (unat x)) v)) s"
  shows "let d = seq_bytes (\<lambda>x. nat_to_le 4 (unat x)) v; m = (tag, OptionalFormatVSize, size_bytes (length d) @ d)
    in member_ok m \<and>
      write_optional (int tag) OptionalFormatVSize (opt_write_container 4 (seq_write writeInt)) (Some v) s
        = Inr (s\<lparr>b := b s @ member_bytes m\<rparr>)"
proof -
  let ?d = "seq_bytes (\<lambda>x. nat_to_le 4 (unat x)) v" and ?h = "opt_header tag OptionalFormatVSize"
  have h: "length ?h \<le> 6" using size_bytes_length(2) [of tag] by (simp add: opt_header_def)
  have "member_ok (tag, OptionalFormatVSize, size_bytes (length ?d) @ ?d)"
    using assms(3,6) by (auto simp: payload_ok_def)
  moreover have "writeOptImpl (int tag) OptionalFormatVSize s = Inr (True, s\<lparr>b := b s @ ?h\<rparr>)"
    using assms(2,3,7) h by (intro writeOptImpl_header) auto
  moreover have "opt_write_container 4 (seq_write writeInt) v (s\<lparr>b := b s @ ?h\<rparr>)
      = appended (size_bytes (length ?d) @ ?d) (s\<lparr>b := b s @ ?h\<rparr>)"
  proof (rule opt_write_container_eq [OF _ _ assms(6,5)])
    show "room (length (size_bytes (length ?d)) + length ?d) (s\<lparr>b := b s @ ?h\<rparr>)"
      using assms(7) h size_bytes_length(2) [of "length ?d"] by auto
  next
    fix t :: stream
    assume "stringConverter t = stringConverter (s\<lparr>b := b s @ ?h\<rparr>)" "room (length ?d) t"
    then show "seq_write writeInt v t = appended ?d t"
      using assms(4,5) by (intro int_seq.wr_enc) (simp_all add: list_all_iff)
  qed simp
  ultimately show ?thesis using assms(1) by (simp add: write_optional_def)
qed

theorem optional_sequence_member_witness:
  "write_optional 3 OptionalFormatVSize (opt_write_container 4 (seq_write writeInt)) (Some [1, 2])
     ((BasicStream_new X86 1024 None no_wconv Encoding_1_1 False)
        \<lparr>writeEncapsStack := [\<lparr>wstart = 0, wencoding = Encoding_1_1, wformat = DefaultFormat\<rparr>]\<rparr>)
   = Inr ((BasicStream_new X86 1024 None no_wconv Encoding_1_1 False)
        \<lparr>writeEncapsStack := [\<lparr>wstart = 0, wencoding = Encoding_1_1, wformat = DefaultFormat\<rparr>],
         b := [29, 9, 2, 1, 0, 0, 0, 2, 0, 0, 0]\<rparr>)"
  using optional_sequence_member [of "(BasicStream_new X86 1024 None no_wconv Encoding_1_1 False)
        \<lparr>writeEncapsStack := [\<lparr>wstart = 0, wencoding = Encoding_1_1, wformat = DefaultFormat\<rparr>]\<rparr>" 3 "[1, 2]"]
  by (simp add: BasicStream_new_def getWriteEncoding_def Encoding_1_0_def Encoding_1_1_def seq_bytes_def
      size_bytes_def nat_to_le_4 opt_header_def Let_def)

end
