(* ===== verification/StreamEncaps.thy ===== *)
theory StreamEncaps
  imports StreamOptional
begin

text \<open>
  Encapsulations: \<^verbatim>\<open>startWriteEncaps\<close> to \<^verbatim>\<open>skipEncaps\<close> of \<^verbatim>\<open>cpp/include/Ice/BasicStream.h\<close> and
  \<^verbatim>\<open>cpp/src/Ice/BasicStream.cpp\<close>. An encapsulation is a 4-byte length that counts itself, the two bytes of
  the encoding version, and the data; encapsulations nest.
\<close>

section \<open>Operations\<close>

definition lift_version :: "version_error + 'a \<Rightarrow> stream_error + 'a" where
  "lift_version r = (case r of Inl e \<Rightarrow> Inl (VersionError e) | Inr v \<Rightarrow> Inr v)"

definition writeVersion :: "version \<Rightarrow> writer" where
  "writeVersion v s = bindE (writeByte (major v) s) (writeByte (minor v))"

definition readVersion :: "version reader" where
  "readVersion s = bindS (readByte s) (\<lambda>ma s1. bindS (readByte s1) (\<lambda>mi s2. Inr (Version ma mi, s2)))"

definition startWriteEncaps :: "version \<Rightarrow> format_type \<Rightarrow> writer" where
  "startWriteEncaps enc format s =
     bindE (lift_version (checkSupportedEncoding enc)) (\<lambda>_.
     let s1 = s\<lparr>writeEncapsStack :=
                  \<lparr>wstart = length (b s), wencoding = enc, wformat = format\<rparr> # writeEncapsStack s\<rparr>
     in bindE (writeInt 0 s1) (writeVersion enc))"

definition startWriteEncaps_default :: writer where
  "startWriteEncaps_default s =
     (case writeEncapsStack s of
        e # _ \<Rightarrow> startWriteEncaps (wencoding e) (wformat e) s
      | [] \<Rightarrow> startWriteEncaps (encoding s) DefaultFormat s)"

definition endWriteEncaps :: writer where
  "endWriteEncaps s =
     (case writeEncapsStack s of
        [] \<Rightarrow> Inl AssertFailed
      | e # es \<Rightarrow>
          bindE (writeInt_at (of_nat (length (b s) - wstart e)) (wstart e) s) (\<lambda>s1.
          Inr (s1\<lparr>writeEncapsStack := es\<rparr>)))"

definition endWriteEncapsChecked :: writer where
  "endWriteEncapsChecked s = (if writeEncapsStack s = [] then Inl EncapsulationError else endWriteEncaps s)"

definition writeEmptyEncaps :: "version \<Rightarrow> writer" where
  "writeEmptyEncaps enc s =
     bindE (lift_version (checkSupportedEncoding enc)) (\<lambda>_. bindE (writeInt 6 s) (writeVersion enc))"

definition writeEncaps :: "byte list \<Rightarrow> writer" where
  "writeEncaps v s =
     (if sint (of_nat (length v) :: int32) < 6 then Inl EncapsulationError
      else (let pos = length (b s) in bindE (resize (pos + length v) s) (store pos v)))"

definition startReadEncaps :: "version reader" where
  "startReadEncaps s =
     (let start = i s
      in bindS (readInt s) (\<lambda>n s1.
         if sint n < 6 then Inl UnmarshalOutOfBounds
         else if int (i s1) - 4 + sint n > int (length (b s1)) then Inl UnmarshalOutOfBounds
         else
           bindS (readVersion s1) (\<lambda>enc s2.
           bindE (lift_version (checkSupportedEncoding enc)) (\<lambda>_.
           Inr (enc, s2\<lparr>readEncapsStack :=
                  \<lparr>rstart = start, rsz = sint n, rencoding = enc\<rparr> # readEncapsStack s2\<rparr>)))))"

definition endReadEncaps :: "writer \<Rightarrow> stream \<Rightarrow> (stream_error + stream) option" where
  "endReadEncaps readClass s =
     (case readEncapsStack s of
        [] \<Rightarrow> Some (Inl AssertFailed)
      | e # es \<Rightarrow>
          (let end = int (rstart e) + rsz e
           in if rencoding e \<noteq> Encoding_1_0 then
                (case skipOpts readClass s of
                   None \<Rightarrow> None
                 | Some (Inl err) \<Rightarrow> Some (Inl err)
                 | Some (Inr s1) \<Rightarrow>
                     if int (i s1) \<noteq> end then Some (Inl EncapsulationError)
                     else Some (Inr (s1\<lparr>readEncapsStack := tl (readEncapsStack s1)\<rparr>)))
              else if int (i s) \<noteq> end then
                (if int (i s) + 1 \<noteq> end then Some (Inl EncapsulationError)
                 else Some (Inr (s\<lparr>i := i s + 1, readEncapsStack := es\<rparr>)))
              else Some (Inr (s\<lparr>readEncapsStack := es\<rparr>))))"

definition endReadEncapsChecked :: "writer \<Rightarrow> stream \<Rightarrow> (stream_error + stream) option" where
  "endReadEncapsChecked readClass s =
     (if readEncapsStack s = [] then Some (Inl EncapsulationError) else endReadEncaps readClass s)"

definition skipEmptyEncaps :: "version reader" where
  "skipEmptyEncaps s =
     bindS (readInt s) (\<lambda>n s1.
     if sint n \<noteq> 4 + 2 then Inl EncapsulationError
     else if i s1 + 2 > length (b s1) then Inl UnmarshalOutOfBounds
     else readVersion s1)"

text \<open>\<^verbatim>\<open>readEncaps\<close> gives the encapsulation as it is, header included.\<close>

definition readEncaps :: "(version \<times> byte list) reader" where
  "readEncaps s =
     bindS (readInt s) (\<lambda>n s1.
     if sint n < 6 then Inl EncapsulationError
     else if int (i s1) - 4 + sint n > int (length (b s1)) then Inl UnmarshalOutOfBounds
     else bindS (readVersion s1) (\<lambda>enc s2.
       Inr ((enc, take (nat (sint n)) (drop (i s) (b s))), s2\<lparr>i := nat (int (i s2) + sint n - 6)\<rparr>)))"

definition getReadEncapsSize :: "stream \<Rightarrow> stream_error + int" where
  "getReadEncapsSize s =
     (case readEncapsStack s of [] \<Rightarrow> Inl AssertFailed | e # _ \<Rightarrow> Inr (rsz e - 4 - 2))"

definition skipEncaps :: "version reader" where
  "skipEncaps s =
     bindS (readInt s) (\<lambda>n s1.
     if sint n < 6 then Inl UnmarshalOutOfBounds
     else if int (i s1) - 4 + sint n > int (length (b s1)) then Inl UnmarshalOutOfBounds
     else bindS (readVersion s1) (\<lambda>enc s2. Inr (enc, s2\<lparr>i := nat (int (i s2) + sint n - 6)\<rparr>)))"

section \<open>Encapsulations on the wire\<close>

definition encaps_bytes :: "version \<Rightarrow> byte list \<Rightarrow> byte list" where
  "encaps_bytes enc p = nat_to_le 4 (6 + length p) @ [major enc, minor enc] @ p"

definition supported :: "version \<Rightarrow> bool" where
  "supported enc \<longleftrightarrow> isSupported enc currentEncoding"

lemma check_supported [simp]: "supported enc \<Longrightarrow> lift_version (checkSupportedEncoding enc) = Inr ()"
  by (simp add: supported_def checkSupportedEncoding_def lift_version_def)

lemma readVersion_eq:
  "upcoming (major v # minor v # bs) post s \<Longrightarrow> readVersion s = Inr (v, forward 2 s)"
proof -
  assume up: "upcoming (major v # minor v # bs) post s"
  have "upcoming ([major v] @ minor v # bs) post s" using up by simp
  from upcoming_byte [OF up] upcoming_byte [OF upcoming_advance [OF this]] show ?thesis
    by (cases v) (simp add: readVersion_def)
qed

lemma write_encaps_eq:
  assumes "supported enc" "6 + length p < 2 ^ 31" "room 6 s"
  shows "\<exists>s1. startWriteEncaps enc format s = Inr s1 \<and>
    endWriteEncaps (s1\<lparr>b := b s1 @ p\<rparr>) = appended (encaps_bytes enc p) s"
proof -
  let ?e = "\<lparr>wstart = length (b s), wencoding = enc, wformat = format\<rparr>"
  let ?s1 = "s\<lparr>writeEncapsStack := ?e # writeEncapsStack s, b := b s @ nat_to_le 4 0 @ [major enc, minor enc]\<rparr>"
  have "startWriteEncaps enc format s = Inr ?s1"
    using assms by (auto simp: startWriteEncaps_def write_num_eq writeVersion_def writeByte_def Let_def)
  moreover have "unat (of_nat (6 + length p) :: int32) = 6 + length p"
    using assms(2) by (rule unat_of_nat32)
  then have "writeInt_at (of_nat (6 + length p)) (length (b s)) (?s1\<lparr>b := b ?s1 @ p\<rparr>)
      = Inr (?s1\<lparr>b := b s @ encaps_bytes enc p\<rparr>)"
    by (simp add: writeInt_at_def store_def memcpy_at_def encaps_bytes_def del: of_nat_add)
  ultimately show ?thesis by (simp add: endWriteEncaps_def del: of_nat_add)
qed

lemma read_encaps_start:
  assumes "6 + length p < 2 ^ 31" "upcoming (encaps_bytes enc p) post s"
  shows "readInt s = Inr (of_nat (6 + length p), forward 4 s)" "sint (of_nat (6 + length p) :: int32) = int (6 + length p)"
    "readVersion (forward 4 s) = Inr (enc, forward 6 s)" "length (b s) = i s + 6 + length p + length post"
    "upcoming p post (forward 6 s)"
proof -
  have up: "upcoming (nat_to_le 4 (6 + length p) @ (major enc # minor enc # p)) post s"
    using assms(2) by (simp add: encaps_bytes_def)
  show "readInt s = Inr (of_nat (6 + length p), forward 4 s)" by (rule upcoming_int [OF assms(1) up])
  show "sint (of_nat (6 + length p) :: int32) = int (6 + length p)" by (rule sint_of_nat32 [OF assms(1)])
  have "upcoming (major enc # minor enc # p) post (forward 4 s)" using upcoming_advance [OF up] by simp
  from readVersion_eq [OF this] show "readVersion (forward 4 s) = Inr (enc, forward 6 s)" by simp
  show "length (b s) = i s + 6 + length p + length post" using upcoming_length [OF up] by simp
  show "upcoming p post (forward 6 s)"
    using upcoming_advance [of "nat_to_le 4 (6 + length p) @ [major enc, minor enc]" p post s] up by simp
qed

lemma startReadEncaps_eq:
  assumes "supported enc" "6 + length p < 2 ^ 31" "upcoming (encaps_bytes enc p) post s"
  shows "startReadEncaps s = Inr (enc, (forward 6 s)\<lparr>readEncapsStack :=
     \<lparr>rstart = i s, rsz = int (6 + length p), rencoding = enc\<rparr> # readEncapsStack s\<rparr>)"
  using read_encaps_start [OF assms(2,3)] assms(1) by (simp add: startReadEncaps_def Let_def del: of_nat_add)

lemma skip_encaps_eq:
  assumes "6 + length p < 2 ^ 31" "upcoming (encaps_bytes enc p) post s"
  shows "skipEncaps s = Inr (enc, forward (6 + length p) s)"
    "readEncaps s = Inr ((enc, encaps_bytes enc p), forward (6 + length p) s)"
proof -
  note r = read_encaps_start [OF assms]
  have t: "take (6 + length p) (drop (i s) (b s)) = encaps_bytes enc p"
    using assms(2) by (simp add: upcoming_def encaps_bytes_def)
  have k: "nat (int (i s + 6) + int (6 + length p) - 6) = i s + (6 + length p)" by simp
  show "skipEncaps s = Inr (enc, forward (6 + length p) s)"
    using r k by (simp add: skipEncaps_def del: of_nat_add)
  show "readEncaps s = Inr ((enc, encaps_bytes enc p), forward (6 + length p) s)"
    using r k t by (simp add: readEncaps_def del: of_nat_add)
qed

section \<open>Safety\<close>

lemma readVersion_safe: "cursor_ok s \<Longrightarrow> read_safe s (readVersion s)"
  by (auto simp: readVersion_def readByte_def read_safe_def)

lemma header_safe:
  assumes s: "cursor_ok s" and e: "err \<noteq> CxxUndefined"
  shows "read_safe s (bindS (readInt s) (\<lambda>n s1.
     if sint n < 6 then Inl err
     else if int (i s1) - 4 + sint n > int (length (b s1)) then Inl UnmarshalOutOfBounds
     else bindS (readVersion s1) (\<lambda>enc s2. Inr (g n enc, s2\<lparr>i := nat (int (i s2) + sint n - 6)\<rparr>))))"
proof (cases "i s + 4 \<le> length (b s)")
  case True
  let ?n = "of_nat (le_to_nat (take 4 (drop (i s) (b s)))) :: int32"
  show ?thesis
  proof (cases "sint ?n < 6 \<or> int (i s) + sint ?n > int (length (b s))")
    case True
    with \<open>i s + 4 \<le> length (b s)\<close> e show ?thesis by (auto simp: read_num_eq read_safe_def)
  next
    case False
    then have "i s + 6 \<le> length (b s)" by linarith
    then have "readVersion (forward 4 s) = Inr (Version (b s ! (i s + 4)) (b s ! (i s + 5)), forward 6 s)"
      by (simp add: readVersion_def readByte_def add.assoc add.commute [of 5])
    with True False show ?thesis
      by (simp add: read_num_eq read_safe_def nat_le_iff le_nat_iff)
  qed
next
  case False
  then show ?thesis by (simp add: read_num_eq read_safe_def)
qed

interpretation skipEncaps_reader: safe_reader skipEncaps
  unfolding skipEncaps_def by unfold_locales (rule header_safe, simp_all)

interpretation readEncaps_reader: safe_reader readEncaps
  unfolding readEncaps_def by unfold_locales (rule header_safe, simp_all)

interpretation skipEmptyEncaps_reader: safe_reader skipEmptyEncaps
  by unfold_locales (auto simp: skipEmptyEncaps_def read_num_eq readVersion_def readByte_def read_safe_def)

section \<open>Properties\<close>

text \<open>
  C14. Encapsulations round-trip: around any data whose encapsulation fits a 32-bit size, \<open>startWriteEncaps\<close> and \<open>endWriteEncaps\<close>
  produce the length, the version and the data, and leave the enclosing encapsulations as they were;
  \<open>startReadEncaps\<close> on the result gives the version back and stands at the data, and \<open>endReadEncaps\<close> after the data
  returns, and restores the reader's encapsulations.
\<close>

theorem encapsulation_roundtrip:
  assumes "supported enc" "6 + length p < 2 ^ 31" "room 6 s"
  shows "\<exists>s1 s2 s3. startWriteEncaps enc format s = Inr s1 \<and> endWriteEncaps (s1\<lparr>b := b s1 @ p\<rparr>) = Inr s2 \<and>
    s2 = s\<lparr>b := b s @ encaps_bytes enc p\<rparr> \<and>
    startReadEncaps (s2\<lparr>i := length (b s)\<rparr>) = Inr (enc, s3) \<and> i s3 = length (b s) + 6 \<and> drop (i s3) (b s3) = p \<and>
    endReadEncaps readClass (s3\<lparr>i := length (b s2)\<rparr>) = Some (Inr (s2\<lparr>i := length (b s2)\<rparr>))"
proof -
  let ?s2 = "s\<lparr>b := b s @ encaps_bytes enc p\<rparr>"
  let ?r = "?s2\<lparr>i := length (b s)\<rparr>"
  let ?e = "\<lparr>rstart = length (b s), rsz = int (6 + length p), rencoding = enc\<rparr>"
  let ?s3 = "?s2\<lparr>i := length (b s) + 6, readEncapsStack := ?e # readEncapsStack s\<rparr>"
  obtain s1 where 1: "startWriteEncaps enc format s = Inr s1" "endWriteEncaps (s1\<lparr>b := b s1 @ p\<rparr>) = Inr ?s2"
    using write_encaps_eq [OF assms] by blast
  have up: "upcoming (encaps_bytes enc p) [] ?r" by (simp add: upcoming_def)
  have 2: "startReadEncaps ?r = Inr (enc, ?s3)"
    using startReadEncaps_eq [OF assms(1,2) up] by simp
  have len: "length (encaps_bytes enc p) = 6 + length p" by (simp add: encaps_bytes_def)
  have ee: "encaps_end (?s3\<lparr>i := length (b ?s2)\<rparr>) = Some (int (length (b ?s2)))"
    by (simp add: encaps_end_def len)
  have "skipOpts readClass (?s3\<lparr>i := length (b ?s2)\<rparr>) = Some (Inr (?s3\<lparr>i := length (b ?s2)\<rparr>))"
    using skipOpts_members [of "[]" "[]" "?s3\<lparr>i := length (b ?s2)\<rparr>"] ee by (simp add: upcoming_def)
  then have "endReadEncaps readClass (?s3\<lparr>i := length (b ?s2)\<rparr>) = Some (Inr (?s2\<lparr>i := length (b ?s2)\<rparr>))"
    by (simp add: endReadEncaps_def len Let_def)
  moreover have "drop (i ?s3) (b ?s3) = p" by (simp add: encaps_bytes_def)
  moreover have "i ?s3 = length (b s) + 6" by simp
  ultimately show ?thesis using 1 2
    by (intro exI [of _ s1] exI [of _ ?s2] exI [of _ ?s3]) (intro conjI, assumption+, rule refl)
qed

text \<open>
  Leaving an encapsulation early: in the 1.1 encoding a reader that does not know the optional members at the end of the
  data can leave the encapsulation in front of them; \<open>endReadEncaps\<close> returns with the iterator behind the
  encapsulation.
\<close>

theorem endReadEncaps_skips_optionals:
  assumes "readEncapsStack s = e # es" "rencoding e \<noteq> Encoding_1_0" "list_all member_ok ms"
    and "upcoming (members_bytes ms) post s" "int (rstart e) + rsz e = int (i s + length (members_bytes ms))"
  shows "endReadEncaps readClass s = Some (Inr (s\<lparr>i := i s + length (members_bytes ms), readEncapsStack := es\<rparr>))"
proof -
  have "encaps_end s = Some (int (i s + length (members_bytes ms)))" using assms(1,5) by (simp add: encaps_end_def)
  from skipOpts_members [OF assms(3,4) this, of readClass] assms(1,2,5) show ?thesis
    by (simp add: endReadEncaps_def)
qed

text \<open>
  Passing an encapsulation without looking into it: \<open>skipEncaps\<close> and \<open>readEncaps\<close> go exactly to its end, whatever its
  version and data, and \<open>readEncaps\<close> gives its bytes, header included.
\<close>

theorem skipEncaps_exact:
  assumes "6 + length p < 2 ^ 31" "upcoming (encaps_bytes enc p) post s"
  shows "skipEncaps s = Inr (enc, s\<lparr>i := i s + (6 + length p)\<rparr>) \<and>
    readEncaps s = Inr ((enc, encaps_bytes enc p), s\<lparr>i := i s + (6 + length p)\<rparr>)"
  using skip_encaps_eq [OF assms] by blast

theorem encapsulation_roundtrip_witness:
  "\<exists>s1 s2 s3. startWriteEncaps Encoding_1_1 DefaultFormat (BasicStream_new X86 1024 None no_wconv Encoding_1_1 False) = Inr s1 \<and>
    endWriteEncaps (s1\<lparr>b := b s1 @ [42]\<rparr>) = Inr s2 \<and> b s2 = [7, 0, 0, 0, 1, 1, 42] \<and>
    startReadEncaps (s2\<lparr>i := 0\<rparr>) = Inr (Encoding_1_1, s3) \<and> i s3 = 6"
proof -
  let ?s = "BasicStream_new X86 1024 None no_wconv Encoding_1_1 False"
  have "supported Encoding_1_1"
    by (simp add: supported_def isSupported_def Encoding_1_1_def currentEncoding_def encodingMajor_def encodingMinor_def)
  moreover have "encaps_bytes Encoding_1_1 [42] = [7, 0, 0, 0, 1, 1, 42]"
    by (simp add: encaps_bytes_def nat_to_le_4 Encoding_1_1_def)
  moreover have "b ?s = []" "room 6 ?s" by (simp_all add: BasicStream_new_def)
  ultimately show ?thesis
    using encapsulation_roundtrip [of Encoding_1_1 "[42]" ?s DefaultFormat "\<lambda>s. Inr s"] by fastforce
qed

theorem endReadEncaps_skips_optionals_witness:
  "endReadEncaps (\<lambda>s. Inl CxxUndefined) (encaps_view (members_bytes [(1, OptionalFormatF1, [7])]))
   = Some (Inr ((encaps_view (members_bytes [(1, OptionalFormatF1, [7])]))\<lparr>i := 2, readEncapsStack := []\<rparr>))"
  using endReadEncaps_skips_optionals [of "encaps_view (members_bytes [(1, OptionalFormatF1, [7])])"
      "\<lparr>rstart = 0, rsz = 2, rencoding = Encoding_1_1\<rparr>" "[]" "[(1, OptionalFormatF1, [7])]" "[]" "\<lambda>s. Inl CxxUndefined"]
  by (simp add: payload_ok_def upcoming_def encaps_view_def BasicStream_view_def BasicStream_new_def opt_header_def
      Encoding_1_0_def Encoding_1_1_def)

theorem skipEncaps_exact_witness:
  "skipEncaps (BasicStream_view X86 1024 None no_wconv Encoding_1_1 [7, 0, 0, 0, 2, 5, 42, 99])
   = Inr (Version 2 5, (BasicStream_view X86 1024 None no_wconv Encoding_1_1 [7, 0, 0, 0, 2, 5, 42, 99])\<lparr>i := 7\<rparr>)"
  using skipEncaps_exact [of "[42]" "Version 2 5" "[99]"
      "BasicStream_view X86 1024 None no_wconv Encoding_1_1 [7, 0, 0, 0, 2, 5, 42, 99]"]
  by (simp add: upcoming_def encaps_bytes_def nat_to_le_4 BasicStream_view_def BasicStream_new_def)

text \<open>
  Exchanging two streams does not end an encapsulation that is still open: the outermost one stays current,
  so that a check for being inside an encapsulation still succeeds.
\<close>

lemma swap_keeps_outermost:
  "writeEncapsStack s \<noteq> [] \<Longrightarrow> writeEncapsStack (fst (swap s t)) = [last (writeEncapsStack s)]"
  by (simp add: swap_def resetEncaps_def preallocated_def Let_def)

end
