(* ===== verification/Properties.thy ===== *)
theory Properties
  imports StringUtil StringConverter StdMap Protocol
begin

text \<open>
  The property set of a communicator, after \<^verbatim>\<open>cpp/src/Ice/PropertiesI.h\<close> and
  \<^verbatim>\<open>cpp/src/Ice/PropertiesI.cpp\<close>: look-up with usage marks, validation against the table of known
  names, configuration lines and files, and command-line options. The table of names
  (\<^verbatim>\<open>PropertyNames.cpp\<close>, generated data), the file system and the environment variable
  \<^verbatim>\<open>ICE_CONFIG\<close> are arguments. An operation that may throw returns the exception together with the state
  it leaves behind, because a configuration file that fails half-way has already set properties.
\<close>

section \<open>State\<close>

record property_value =
  val :: string
  used :: bool

abbreviation PropertyValue :: "string \<Rightarrow> bool \<Rightarrow> property_value" where
  "PropertyValue v u \<equiv> \<lparr>val = v, used = u\<rparr>"

text \<open>\<open>warnings\<close> is the output of the process logger, oldest message first.\<close>

record properties =
  props :: "(string \<times> property_value) list"
  conv :: "char converter option"
  warnings :: "string list"

text \<open>An entry of the table of known names: \<^verbatim>\<open>IceInternal::Property\<close>.\<close>

record property_name =
  pattern :: string
  deprecated :: bool
  deprecatedBy :: "string option"

type_synonym name_table = "property_name list list"

datatype property_error =
    EmptyKey
  | ConversionError conv_error
  | FileException string
  | NameTableAssert

text \<open>Sequencing of calls that thread the state and may throw.\<close>

definition bindP :: "('e + 'a) \<times> 's \<Rightarrow> ('a \<Rightarrow> 's \<Rightarrow> ('e + 'b) \<times> 's) \<Rightarrow> ('e + 'b) \<times> 's" where
  "bindP m f = (case m of (Inl e, s) \<Rightarrow> (Inl e, s) | (Inr x, s) \<Rightarrow> f x s)"

lemma bindP_simps [simp]:
  "bindP (Inl e, s) f = (Inl e, s)"
  "bindP (Inr x, s) f = f x s"
  by (simp_all add: bindP_def)

definition properties_new :: "char converter option \<Rightarrow> properties" where
  "properties_new converter = \<lparr>props = [], conv = converter, warnings = []\<rparr>"

definition warn :: "string \<Rightarrow> properties \<Rightarrow> properties" where
  "warn msg s = s\<lparr>warnings := warnings s @ [msg]\<rparr>"

text \<open>\<^verbatim>\<open>p->second.used = true\<close> for the entry found.\<close>

definition mark_used :: "string \<Rightarrow> properties \<Rightarrow> properties" where
  "mark_used key s = s\<lparr>props := map (\<lambda>(k, pv). (k, if k = key then pv\<lparr>used := True\<rparr> else pv)) (props s)\<rparr>"

section \<open>Look-up\<close>

definition getPropertyWithDefault :: "string \<Rightarrow> string \<Rightarrow> properties \<Rightarrow> string \<times> properties" where
  "getPropertyWithDefault key v s =
     (case smap_find (props s) key of
        Some pv \<Rightarrow> (val pv, mark_used key s)
      | None \<Rightarrow> (v, s))"

definition getProperty :: "string \<Rightarrow> properties \<Rightarrow> string \<times> properties" where
  "getProperty key s =
     (case smap_find (props s) key of
        Some pv \<Rightarrow> (val pv, mark_used key s)
      | None \<Rightarrow> ([], s))"

definition int_string :: "int \<Rightarrow> string" where
  "int_string v = (if v < 0 then CHR ''-'' # dec_string (nat (- v)) else dec_string (nat v))"

definition getPropertyAsIntWithDefault :: "string \<Rightarrow> int \<Rightarrow> properties \<Rightarrow> int \<times> properties" where
  "getPropertyAsIntWithDefault key v s =
     (case smap_find (props s) key of
        Some pv \<Rightarrow>
          (case istream_int (val pv) of
             Some (n, True) \<Rightarrow> (n, mark_used key s)
           | _ \<Rightarrow> (v, warn (''numeric property '' @ key @
                 '' set to non-numeric value, defaulting to '' @ int_string v) (mark_used key s)))
      | None \<Rightarrow> (v, s))"

definition getPropertyAsInt :: "string \<Rightarrow> properties \<Rightarrow> int \<times> properties" where
  "getPropertyAsInt key s = getPropertyAsIntWithDefault key 0 s"

definition list_delim :: string where
  "list_delim = [CHR '','', SPACE, HTAB, CARRET, NEWLN]"

definition getPropertyAsListWithDefault :: "string \<Rightarrow> string list \<Rightarrow> properties \<Rightarrow> string list \<times> properties" where
  "getPropertyAsListWithDefault key v s =
     (case smap_find (props s) key of
        Some pv \<Rightarrow>
          (let (ok, result) = splitString (val pv) list_delim [];
               s' = mark_used key s;
               s'' = (if ok then s' else warn (''mismatched quotes in property '' @ key @
                 [SQUOTE] @ ''s value, returning default value'') s')
           in (if result = [] then v else result, s''))
      | None \<Rightarrow> (v, s))"

definition getPropertyAsList :: "string \<Rightarrow> properties \<Rightarrow> string list \<times> properties" where
  "getPropertyAsList key s = getPropertyAsListWithDefault key [] s"

definition getPropertiesForPrefix :: "string \<Rightarrow> properties \<Rightarrow> (string \<times> string) list \<times> properties" where
  "getPropertiesForPrefix pre s =
     (let hit = (\<lambda>k. pre = [] \<or> take (length pre) k = pre)
      in (map (\<lambda>(k, pv). (k, val pv)) (filter (\<lambda>(k, pv). hit k) (props s)),
          s\<lparr>props := map (\<lambda>(k, pv). (k, if hit k then pv\<lparr>used := True\<rparr> else pv)) (props s)\<rparr>))"

definition getUnusedProperties :: "properties \<Rightarrow> string list" where
  "getUnusedProperties s = map fst (filter (\<lambda>(k, pv). \<not> used pv) (props s))"

section \<open>Setting a property\<close>

text \<open>
  The inner loop over the names of one group: whether the key is known, the name it matches only up to
  case, the key (replaced when the name is deprecated in favour of another) and the messages.
\<close>

fun check_names :: "property_name list \<Rightarrow> string \<Rightarrow> properties \<Rightarrow>
    property_error + (bool \<times> string option \<times> string \<times> properties)" where
  "check_names [] currentKey s = Inr (False, None, currentKey, s)"
| "check_names (prop # rest) currentKey s =
     (case match currentKey (pattern prop) False of
        Inl _ \<Rightarrow> Inl NameTableAssert
      | Inr True \<Rightarrow>
          Inr (True, None,
            (if deprecated prop then case deprecatedBy prop of Some k \<Rightarrow> k | None \<Rightarrow> currentKey else currentKey),
            (if deprecated prop then warn (''deprecated property: '' @ currentKey) s else s))
      | Inr False \<Rightarrow>
          (case match (toUpper currentKey) (toUpper (pattern prop)) False of
             Inl _ \<Rightarrow> Inl NameTableAssert
           | Inr True \<Rightarrow> Inr (True, Some (pattern prop), currentKey, s)
           | Inr False \<Rightarrow> check_names rest currentKey s))"

text \<open>The outer loop over the groups whose prefix is that of the key, compared without case.\<close>

fun check_groups :: "name_table \<Rightarrow> string \<Rightarrow> string \<Rightarrow> properties \<Rightarrow> property_error + (string \<times> properties)" where
  "check_groups [] pre currentKey s = Inr (currentKey, s)"
| "check_groups (names # rest) pre currentKey s =
     (case names of
        [] \<Rightarrow> Inl NameTableAssert
      | first # _ \<Rightarrow>
          (case find_char CHR ''.'' (pattern first) 0 of
             None \<Rightarrow> Inl NameTableAssert
           | Some dotPos \<Rightarrow>
               if toUpper (take dotPos (pattern first)) \<noteq> toUpper pre
               then check_groups rest pre currentKey s
               else
                 (case check_names names currentKey s of
                    Inl e \<Rightarrow> Inl e
                  | Inr (found, otherKey, key', s') \<Rightarrow>
                      check_groups rest pre key'
                        (if \<not> found then warn (''unknown property: `'' @ key' @ [SQUOTE]) s'
                         else case otherKey of
                             Some k \<Rightarrow> warn (''unknown property: `'' @ key' @ [SQUOTE] @
                               ''; did you mean `'' @ k @ [SQUOTE]) s'
                           | None \<Rightarrow> s'))))"

definition store :: "string \<Rightarrow> string \<Rightarrow> properties \<Rightarrow> properties" where
  "store currentKey v s =
     (if v \<noteq> [] then
        s\<lparr>props := smap_put currentKey
            (PropertyValue v (case smap_find (props s) currentKey of Some pv \<Rightarrow> used pv | None \<Rightarrow> False)) (props s)\<rparr>
      else s\<lparr>props := smap_erase currentKey (props s)\<rparr>)"

definition setProperty :: "name_table \<Rightarrow> string \<Rightarrow> string \<Rightarrow> properties \<Rightarrow> (property_error + unit) \<times> properties" where
  "setProperty table key v s =
     (let currentKey = trim key
      in if currentKey = [] then (Inl EmptyKey, s)
         else
           (case find_char CHR ''.'' currentKey 0 of
              None \<Rightarrow> (Inr (), store currentKey v s)
            | Some dotPos \<Rightarrow>
                (case check_groups table (take dotPos currentKey) currentKey s of
                   Inl e \<Rightarrow> (Inl e, s)
                 | Inr (key', s') \<Rightarrow> (Inr (), store key' v s'))))"

section \<open>Configuration lines\<close>

datatype parse_state = Key | Value

definition blank :: "char \<Rightarrow> bool" where
  "blank c \<longleftrightarrow> c = SPACE \<or> c = HTAB \<or> c = CARRET \<or> c = NEWLN"

definition escapable :: "char \<Rightarrow> bool" where
  "escapable c \<longleftrightarrow> c = BSLASH \<or> c = CHR ''#'' \<or> c = CHR ''=''"

text \<open>
  The character loop of \<open>parseLine\<close>. A backslash consumes the next character with it; at the end of
  the line it stands for itself. The result is the state, the key, the value and the escaped
  blanks that are still pending.
\<close>

fun parse_loop :: "parse_state \<Rightarrow> string \<Rightarrow> string \<Rightarrow> string \<Rightarrow> string \<Rightarrow> string \<Rightarrow>
    parse_state \<times> string \<times> string \<times> string" where
  "parse_loop st key v whitespace escapedspace [] = (st, key, v, escapedspace)"
| "parse_loop Key key v whitespace escapedspace (c # cs) =
     (if c = BSLASH then
        (case cs of
           [] \<Rightarrow> (Key, key @ whitespace @ [c], v, escapedspace)
         | d # ds \<Rightarrow>
             if escapable d then parse_loop Key (key @ whitespace @ [d]) v [] escapedspace ds
             else if d = SPACE then
               parse_loop Key key v (if key \<noteq> [] then whitespace @ [d] else whitespace) escapedspace ds
             else parse_loop Key (key @ whitespace @ [BSLASH, d]) v [] escapedspace ds)
      else if blank c then
        parse_loop Key key v (if key \<noteq> [] then whitespace @ [c] else whitespace) escapedspace cs
      else if c = CHR ''='' then parse_loop Value key v [] escapedspace cs
      else if c = CHR ''#'' then (Key, key, v, escapedspace)
      else parse_loop Key (key @ whitespace @ [c]) v [] escapedspace cs)"
| "parse_loop Value key v whitespace escapedspace (c # cs) =
     (let v' = v @ (if v = [] then escapedspace else whitespace)
      in if c = BSLASH then
           (case cs of
              [] \<Rightarrow> (Value, key, v' @ [c], escapedspace)
            | d # ds \<Rightarrow>
                if escapable d then parse_loop Value key (v' @ [d]) [] [] ds
                else if d = SPACE then
                  parse_loop Value key v (whitespace @ [d]) (escapedspace @ [d]) ds
                else parse_loop Value key (v' @ [BSLASH, d]) [] [] ds)
         else if blank c then
           parse_loop Value key v (if v \<noteq> [] then whitespace @ [c] else whitespace) escapedspace cs
         else if c = CHR ''#'' then (Value, key, v @ escapedspace, escapedspace)
         else parse_loop Value key (v' @ [c]) [] [] cs)"

definition convert_text :: "char converter option \<Rightarrow> string \<Rightarrow> property_error + string" where
  "convert_text converter str = (case UTF8ToNative converter str of Inl e \<Rightarrow> Inl (ConversionError e) | Inr t \<Rightarrow> Inr t)"

definition parseLine :: "name_table \<Rightarrow> string \<Rightarrow> char converter option \<Rightarrow> properties \<Rightarrow>
    (property_error + unit) \<times> properties" where
  "parseLine table line converter s =
     (let (st, key, v0, escapedspace) = parse_loop Key [] [] [] [] line;
          v = v0 @ escapedspace
      in if (st = Key \<and> key \<noteq> []) \<or> (st = Value \<and> key = []) then
           (Inr (), warn (''invalid config file entry: '' @ [DQUOTE] @ line @ [DQUOTE]) s)
         else if key = [] then (Inr (), s)
         else bindP (convert_text converter key, s) (\<lambda>key' s.
              bindP (convert_text converter v, s) (\<lambda>v' s. setProperty table key' v' s)))"

section \<open>Command-line options\<close>

definition getCommandLineOptions :: "properties \<Rightarrow> string list" where
  "getCommandLineOptions s = map (\<lambda>(k, pv). ''--'' @ k @ ''='' @ val pv) (props s)"

definition option_line :: "string \<Rightarrow> string" where
  "option_line opt = drop 2 (if CHR ''='' \<in> set opt then opt else opt @ ''=1'')"

fun parse_options :: "name_table \<Rightarrow> string \<Rightarrow> string list \<Rightarrow> string list \<Rightarrow> properties \<Rightarrow>
    (property_error + string list) \<times> properties" where
  "parse_options table pfx [] result s = (Inr result, s)"
| "parse_options table pfx (opt # opts) result s =
     (if take (length pfx) opt = pfx then
        bindP (parseLine table (option_line opt) None s) (\<lambda>_ s. parse_options table pfx opts result s)
      else parse_options table pfx opts (result @ [opt]) s)"

definition option_prefix :: "string \<Rightarrow> string" where
  "option_prefix pre = ''--'' @ (if pre \<noteq> [] \<and> last pre \<noteq> CHR ''.'' then pre @ ''.'' else pre)"

definition parseCommandLineOptions :: "name_table \<Rightarrow> string \<Rightarrow> string list \<Rightarrow> properties \<Rightarrow>
    (property_error + string list) \<times> properties" where
  "parseCommandLineOptions table pre options s = parse_options table (option_prefix pre) options [] s"

fun parseIceCommandLineOptions :: "name_table \<Rightarrow> string list \<Rightarrow> string list \<Rightarrow> properties \<Rightarrow>
    (property_error + string list) \<times> properties" where
  "parseIceCommandLineOptions table [] args s = (Inr args, s)"
| "parseIceCommandLineOptions table (name # clPropNames) args s =
     bindP (parseCommandLineOptions table name args s)
       (\<lambda>args s. parseIceCommandLineOptions table clPropNames args s)"

section \<open>Configuration files\<close>

text \<open>The lines \<^verbatim>\<open>getline\<close> delivers: a line feed at the very end does not start another line.\<close>

definition line_rest :: "string \<Rightarrow> string" where
  "line_rest t = tl (dropWhile (\<lambda>c. c \<noteq> NEWLN) t)"

lemma length_line_rest:
  assumes "t \<noteq> []" shows "length (line_rest t) < length t"
proof -
  let ?d = "dropWhile (\<lambda>c. c \<noteq> NEWLN) t"
  have "length (tl xs) < length xs \<or> tl xs = []" for xs :: string by (cases xs) auto
  moreover have "length ?d \<le> length t" by (rule length_dropWhile_le)
  moreover have "0 < length t" using assms by simp
  ultimately show ?thesis unfolding line_rest_def by (metis leD linorder_not_le list.size(3) order_trans)
qed

function getlines :: "string \<Rightarrow> string list" where
  "getlines t = (if t = [] then [] else takeWhile (\<lambda>c. c \<noteq> NEWLN) t # getlines (line_rest t))"
  by pat_completeness auto
termination
  by (relation "measure length") (auto intro: length_line_rest)

declare getlines.simps [simp del]

definition UTF8_BOM :: string where
  "UTF8_BOM = [CHR 0xEF, CHR 0xBB, CHR 0xBF]"

definition skip_BOM :: "string \<Rightarrow> string" where
  "skip_BOM line = (if take 3 line = UTF8_BOM then drop 3 line else line)"

fun load_lines :: "name_table \<Rightarrow> bool \<Rightarrow> string list \<Rightarrow> properties \<Rightarrow> (property_error + unit) \<times> properties" where
  "load_lines table firstLine [] s = (Inr (), s)"
| "load_lines table firstLine (line # lines) s =
     bindP (parseLine table (if firstLine then skip_BOM line else line) (conv s) s)
       (\<lambda>_ s. load_lines table False lines s)"

text \<open>\<open>files\<close> is the file system: the contents of the files that can be opened.\<close>

definition load :: "name_table \<Rightarrow> (string \<Rightarrow> string option) \<Rightarrow> string \<Rightarrow> properties \<Rightarrow>
    (property_error + unit) \<times> properties" where
  "load table files file s =
     (case nativeToUTF8 (conv s) file of
        Inl e \<Rightarrow> (Inl (ConversionError e), s)
      | Inr path \<Rightarrow>
          (case files path of
             None \<Rightarrow> (Inl (FileException file), s)
           | Some text \<Rightarrow> load_lines table True (getlines text) s))"

fun load_files :: "name_table \<Rightarrow> (string \<Rightarrow> string option) \<Rightarrow> string list \<Rightarrow> properties \<Rightarrow>
    (property_error + unit) \<times> properties" where
  "load_files table files [] s = (Inr (), s)"
| "load_files table files (f # fs) s =
     bindP (load table files (trim f) s) (\<lambda>_ s. load_files table files fs s)"

text \<open>\<open>ice_config\<close> is the value of the environment variable (the branch for POSIX systems).\<close>

definition loadConfig :: "name_table \<Rightarrow> (string \<Rightarrow> string option) \<Rightarrow> string option \<Rightarrow> properties \<Rightarrow>
    (property_error + unit) \<times> properties" where
  "loadConfig table files ice_config s =
     (let (v0, s1) = getProperty ''Ice.Config'' s;
          v = (if v0 = [] \<or> v0 = ''1'' then
                 case ice_config of Some e \<Rightarrow> if e \<noteq> [] then e else v0 | None \<Rightarrow> v0
               else v0)
      in if v = [] then (Inr (), s1)
         else bindP (load_files table files (snd (splitString v '','' [])) s1)
           (\<lambda>_ s2. (Inr (), s2\<lparr>props := smap_put ''Ice.Config'' (PropertyValue v True) (props s2)\<rparr>)))"

section \<open>Construction\<close>

definition clone :: "properties \<Rightarrow> properties" where
  "clone s = \<lparr>props = props s, conv = conv s, warnings = warnings s\<rparr>"

definition set_program_name :: "string list \<Rightarrow> properties \<Rightarrow> properties" where
  "set_program_name args s =
     (case smap_find (props s) ''Ice.ProgramName'' of
        Some _ \<Rightarrow> mark_used ''Ice.ProgramName'' s
      | None \<Rightarrow>
          (case args of
             [] \<Rightarrow> s
           | q # _ \<Rightarrow>
               s\<lparr>props := smap_put ''Ice.ProgramName''
                   (PropertyValue (map (\<lambda>c. if c = BSLASH then CHR ''/'' else c) q) True) (props s)\<rparr>))"

fun config_args :: "name_table \<Rightarrow> string list \<Rightarrow> string list \<Rightarrow> bool \<Rightarrow> properties \<Rightarrow>
    (property_error + string list \<times> bool) \<times> properties" where
  "config_args table [] tmp loadConfigFiles s = (Inr (tmp, loadConfigFiles), s)"
| "config_args table (arg # args) tmp loadConfigFiles s =
     (if take 12 arg = ''--Ice.Config'' then
        bindP (parseLine table (option_line arg) None s) (\<lambda>_ s. config_args table args tmp True s)
      else config_args table args (tmp @ [arg]) loadConfigFiles s)"

text \<open>The constructor from arguments and defaults; it returns the remaining arguments.\<close>

definition properties_init :: "name_table \<Rightarrow> string list \<Rightarrow> (string \<Rightarrow> string option) \<Rightarrow> string option \<Rightarrow>
    string list \<Rightarrow> properties option \<Rightarrow> char converter option \<Rightarrow> (property_error + string list) \<times> properties" where
  "properties_init table clPropNames files ice_config args defaults converter =
     (let s0 = (case defaults of
                  None \<Rightarrow> properties_new converter
                | Some d \<Rightarrow> (properties_new converter)\<lparr>props := props d\<rparr>);
          s1 = set_program_name args s0
      in bindP (config_args table args [] False s1) (\<lambda>(tmp, loadConfigFiles) s2.
           bindP (if loadConfigFiles \<or> smap_find (props s2) ''Ice.Config'' = None
                  then loadConfig table files ice_config s2 else (Inr (), s2))
             (\<lambda>_ s3. parseIceCommandLineOptions table clPropNames tmp s3)))"

section \<open>Setting and looking up\<close>

text \<open>
  What the code relies on of the table of names: no group is empty, a group is named by its first pattern,
  and replacements of deprecated names are proper keys.
\<close>

definition replacements :: "name_table \<Rightarrow> string set" where
  "replacements table = {k. \<exists>names \<in> set table. \<exists>p \<in> set names. deprecatedBy p = Some k}"

definition proper_key :: "string \<Rightarrow> bool" where
  "proper_key k \<longleftrightarrow> k \<noteq> [] \<and> trim k = k"

definition table_ok :: "name_table \<Rightarrow> bool" where
  "table_ok table \<longleftrightarrow> (\<forall>names \<in> set table. names \<noteq> [] \<and> CHR ''.'' \<in> set (pattern (hd names)) \<and>
     (\<forall>p \<in> set names. pattern p \<noteq> [] \<and> (\<forall>k. deprecatedBy p = Some k \<longrightarrow> proper_key k)))"

lemma match_total: "k \<noteq> [] \<Longrightarrow> p \<noteq> [] \<Longrightarrow> \<exists>b. match k p e = Inr b"
  by (auto simp: match_def Let_def split: option.splits)

lemma toUpper_Nil_iff: "toUpper s = [] \<longleftrightarrow> s = []"
  by (simp add: toUpper_def)

lemma warn_simps [simp]: "props (warn m s) = props s" "conv (warn m s) = conv s"
  by (simp_all add: warn_def)

lemma check_names_result:
  assumes "key \<noteq> []" "\<forall>p \<in> set names. pattern p \<noteq> []"
  shows "\<exists>f oth k s'. check_names names key s = Inr (f, oth, k, s') \<and> props s' = props s \<and> conv s' = conv s
    \<and> (k = key \<or> (\<exists>p \<in> set names. deprecatedBy p = Some k))"
  using assms(2)
proof (induction names)
  case (Cons p ps)
  obtain b where b: "match key (pattern p) False = Inr b"
    using match_total assms(1) Cons.prems by fastforce
  obtain b' where b': "match (toUpper key) (toUpper (pattern p)) False = Inr b'"
    using match_total [of "toUpper key" "toUpper (pattern p)" False] assms(1) Cons.prems toUpper_Nil_iff by auto
  from Cons b b' show ?case
    by (cases b; cases b') (auto split: option.splits)
qed auto

lemma check_groups_result:
  assumes "table_ok table" "key \<noteq> []"
  shows "\<exists>k s'. check_groups table pre key s = Inr (k, s') \<and> props s' = props s \<and> conv s' = conv s
    \<and> (k = key \<or> k \<in> replacements table)"
  using assms
proof (induction table arbitrary: key s)
  case (Cons names table)
  from Cons.prems have tab: "table_ok table" and pats: "\<forall>p \<in> set names. pattern p \<noteq> []"
    and proper: "\<forall>p \<in> set names. \<forall>k. deprecatedBy p = Some k \<longrightarrow> k \<noteq> []"
    by (auto simp: table_ok_def proper_key_def)
  obtain first more where names: "names = first # more" and dot: "CHR ''.'' \<in> set (pattern first)"
    using Cons.prems(1) by (cases names) (auto simp: table_ok_def)
  then obtain d where d: "find_char CHR ''.'' (pattern first) 0 = Some d"
    using find_char_None by (cases "find_char CHR ''.'' (pattern first) 0") auto
  obtain f oth k s1 where n: "check_names names key s = Inr (f, oth, k, s1)" "props s1 = props s" "conv s1 = conv s"
    "k = key \<or> (\<exists>p \<in> set names. deprecatedBy p = Some k)"
    using check_names_result [OF Cons.prems(2) pats] by blast
  then have "k \<noteq> []" using proper Cons.prems(2) by blast
  have sub: "replacements table \<subseteq> replacements (names # table)"
    and k: "k = key \<or> k \<in> replacements (names # table)" using n(4) by (auto simp: replacements_def)
  define s2 where "s2 = (if \<not> f then warn (''unknown property: `'' @ k @ [SQUOTE]) s1
    else case oth of Some k' \<Rightarrow> warn (''unknown property: `'' @ k @ [SQUOTE] @ ''; did you mean `'' @ k' @ [SQUOTE]) s1
      | None \<Rightarrow> s1)"
  have s2: "props s2 = props s" "conv s2 = conv s" using n by (auto simp: s2_def split: option.splits)
  show ?case
  proof (cases "toUpper (take d (pattern first)) = toUpper pre")
    case True
    then have eq: "check_groups (names # table) pre key s = check_groups table pre k s2"
      using n(1) d by (simp add: names s2_def)
    obtain k2 s3 where "check_groups table pre k s2 = Inr (k2, s3)" "props s3 = props s2" "conv s3 = conv s2"
      "k2 = k \<or> k2 \<in> replacements table"
      using Cons.IH [OF tab \<open>k \<noteq> []\<close>, of s2] by blast
    then show ?thesis using eq k sub s2 by (intro exI [of _ k2] exI [of _ s3]) auto
  next
    case False
    then have "check_groups (names # table) pre key s = check_groups table pre key s"
      using d by (simp add: names)
    then show ?thesis using Cons.IH [OF tab Cons.prems(2), of s] sub by auto
  qed
qed auto

lemma setProperty_store:
  assumes "table_ok table" "trim key \<noteq> []"
  shows "\<exists>k s'. setProperty table key v s = (Inr (), store k v s') \<and> props s' = props s \<and> conv s' = conv s
    \<and> (k = trim key \<or> k \<in> replacements table)"
proof (cases "find_char CHR ''.'' (trim key) 0")
  case None
  then show ?thesis using assms by (auto simp: setProperty_def Let_def)
next
  case (Some d)
  from check_groups_result [OF assms, of "take d (trim key)" s]
  obtain k s' where k: "check_groups table (take d (trim key)) (trim key) s = Inr (k, s')" "props s' = props s"
    "conv s' = conv s" "k = trim key \<or> k \<in> replacements table" by blast
  then have "setProperty table key v s = (Inr (), store k v s')"
    using Some assms(2) by (simp add: setProperty_def Let_def)
  with k show ?thesis by blast
qed

text \<open>The values a property set stands for.\<close>

definition value_of :: "properties \<Rightarrow> string \<Rightarrow> string" where
  "value_of s k = (case smap_find (props s) k of Some pv \<Rightarrow> val pv | None \<Rightarrow> [])"

lemma store_find:
  "smap_inv (props s) \<Longrightarrow> smap_inv (props (store k v s)) \<and>
   smap_find (props (store k v s)) = (smap_find (props s))(k := if v = [] then None
     else Some (PropertyValue v (case smap_find (props s) k of Some pv \<Rightarrow> used pv | None \<Rightarrow> False)))"
  by (simp add: store_def smap.put_inv smap.erase_inv smap.put_lookup smap.erase_lookup)

lemma conv_store [simp]: "conv (store k v s) = conv s"
  by (simp add: store_def)

lemma value_of_store: "smap_inv (props s) \<Longrightarrow> value_of (store k v s) = (value_of s)(k := v)"
  by (auto simp: value_of_def store_find fun_eq_iff)

lemma mark_used_find:
  "smap_find (props (mark_used key s)) k
   = map_option (\<lambda>pv. if k = key then pv\<lparr>used := True\<rparr> else pv) (smap_find (props s) k)"
proof -
  have "map_of (map (\<lambda>(k, pv). (k, if k = key then pv\<lparr>used := True\<rparr> else pv)) m) k
    = map_option (\<lambda>pv. if k = key then pv\<lparr>used := True\<rparr> else pv) (map_of m k)" for m :: "(string \<times> property_value) list"
    by (induction m) auto
  then show ?thesis by (simp add: mark_used_def)
qed

lemma mark_used_keys [simp]: "map fst (props (mark_used key s)) = map fst (props s)"
  by (simp add: mark_used_def comp_def case_prod_beta)

lemma smap_inv_mark_used [simp]: "smap_inv (props (mark_used key s)) = smap_inv (props s)"
  by (simp add: smap_inv_def)

lemma value_of_mark_used [simp]: "value_of (mark_used key s) = value_of s"
  by (auto simp: value_of_def mark_used_find fun_eq_iff split: option.splits)

lemma getProperty_value: "fst (getProperty key s) = value_of s key"
  by (simp add: getProperty_def value_of_def split: option.splits)

text \<open>
  C36. \<open>setProperty\<close> implements an update of the abstract map from keys to values: under the trimmed key, or
  under the key the table of names gives in its place, look-up returns the new value afterwards, and
  every other key keeps its value; the empty value removes the property; usage marks survive; a
  key of white space only is refused and nothing changes.
\<close>

theorem setProperty_refines:
  assumes "table_ok table" "smap_inv (props s)"
  shows "(trim key = [] \<longrightarrow> setProperty table key v s = (Inl EmptyKey, s)) \<and>
    (trim key \<noteq> [] \<longrightarrow> (\<exists>k s'. setProperty table key v s = (Inr (), s') \<and> smap_inv (props s')
       \<and> (k = trim key \<or> k \<in> replacements table)
       \<and> (\<forall>j. fst (getProperty j s') = (if j = k then v else fst (getProperty j s)))
       \<and> (k \<in> fst ` set (props s') \<longleftrightarrow> v \<noteq> [])
       \<and> (\<forall>j \<in> fst ` set (props s) \<inter> fst ` set (props s').
            j \<in> set (getUnusedProperties s') \<longleftrightarrow> j \<in> set (getUnusedProperties s))))"
proof (intro conjI impI)
  show "setProperty table key v s = (Inl EmptyKey, s)" if "trim key = []"
    using that by (simp add: setProperty_def)
next
  assume "trim key \<noteq> []"
  then obtain k s0 where k: "setProperty table key v s = (Inr (), store k v s0)" "props s0 = props s"
    "k = trim key \<or> k \<in> replacements table"
    using setProperty_store [OF assms(1)] by blast
  let ?s = "store k v s0"
  have inv: "smap_inv (props s0)" "smap_inv (props ?s)" using assms(2) k(2) by (simp_all add: store_find)
  have find: "smap_find (props ?s) = (smap_find (props s))(k := if v = [] then None
     else Some (PropertyValue v (case smap_find (props s) k of Some pv \<Rightarrow> used pv | None \<Rightarrow> False)))"
    using store_find [OF inv(1)] k(2) by simp
  have unused: "j \<in> set (getUnusedProperties t) \<longleftrightarrow> (\<exists>pv. smap_find (props t) j = Some pv \<and> \<not> used pv)"
    if "smap_inv (props t)" for t j
    using smap_inv_distinct [OF that] by (force simp: getUnusedProperties_def map_of_eq_Some_iff)
  have dom: "j \<in> fst ` set (props t) \<longleftrightarrow> smap_find (props t) j \<noteq> None" for t :: properties and j
    by (auto simp: map_of_eq_None_iff image_iff)
  have "fst (getProperty j ?s) = (if j = k then v else fst (getProperty j s))" for j
    using value_of_store [OF inv(1), of k v] k(2) by (simp add: getProperty_value) (simp add: value_of_def)
  moreover have "k \<in> fst ` set (props ?s) \<longleftrightarrow> v \<noteq> []" unfolding dom find by simp
  moreover have "j \<in> set (getUnusedProperties ?s) \<longleftrightarrow> j \<in> set (getUnusedProperties s)"
    if "j \<in> fst ` set (props s) \<inter> fst ` set (props ?s)" for j
    using that unfolding unused [OF inv(2)] unused [OF assms(2)] Int_iff dom find
    by (cases "j = k") (auto split: if_splits)
  ultimately show "\<exists>k s'. setProperty table key v s = (Inr (), s') \<and> smap_inv (props s')
       \<and> (k = trim key \<or> k \<in> replacements table)
       \<and> (\<forall>j. fst (getProperty j s') = (if j = k then v else fst (getProperty j s)))
       \<and> (k \<in> fst ` set (props s') \<longleftrightarrow> v \<noteq> [])
       \<and> (\<forall>j \<in> fst ` set (props s) \<inter> fst ` set (props s').
            j \<in> set (getUnusedProperties s') \<longleftrightarrow> j \<in> set (getUnusedProperties s))"
    using k(1,3) inv(2) by (intro exI [of _ k] exI [of _ ?s]) simp
qed

section \<open>Invariants of the property set\<close>

text \<open>
  A predicate on the state that the primitive updates keep is kept by every operation, whether it
  returns or throws.
\<close>

locale property_invariant =
  fixes table :: name_table and I :: "properties \<Rightarrow> bool"
  assumes warn_I: "I s \<Longrightarrow> I (warn m s)"
    and mark_I: "I s \<Longrightarrow> I (mark_used k s)"
    and set_I: "I s \<Longrightarrow> I (snd (setProperty table k v s))"
    and config_I: "I s \<Longrightarrow> v \<noteq> [] \<Longrightarrow> I (s\<lparr>props := smap_put ''Ice.Config'' (PropertyValue v True) (props s)\<rparr>)"
    and program_I: "I s \<Longrightarrow> I (s\<lparr>props := smap_put ''Ice.ProgramName'' (PropertyValue v True) (props s)\<rparr>)"
begin

lemma bindP_I: "I (snd m) \<Longrightarrow> (\<And>x s. m = (Inr x, s) \<Longrightarrow> I s \<Longrightarrow> I (snd (f x s))) \<Longrightarrow> I (snd (bindP m f))"
  by (cases m; cases "fst m") auto

lemma getProperty_I: "I s \<Longrightarrow> I (snd (getProperty k s))"
  by (auto simp: getProperty_def mark_I split: option.splits)

lemma parseLine_I: "I s \<Longrightarrow> I (snd (parseLine table line c s))"
  by (auto simp: parseLine_def Let_def warn_I set_I split: prod.splits intro!: bindP_I)

lemma parse_options_I: "I s \<Longrightarrow> I (snd (parse_options table pfx opts result s))"
  by (induction opts arbitrary: result s) (auto intro!: bindP_I parseLine_I)

lemma parseIceCommandLineOptions_I: "I s \<Longrightarrow> I (snd (parseIceCommandLineOptions table names args s))"
  by (induction names arbitrary: args s)
    (auto intro!: bindP_I parse_options_I simp: parseCommandLineOptions_def)

lemma load_lines_I: "I s \<Longrightarrow> I (snd (load_lines table first ls s))"
  by (induction ls arbitrary: first s) (auto intro!: bindP_I parseLine_I)

lemma load_I: "I s \<Longrightarrow> I (snd (load table files file s))"
  by (auto simp: load_def load_lines_I split: sum.splits option.splits)

lemma load_files_I: "I s \<Longrightarrow> I (snd (load_files table files fs s))"
  by (induction fs arbitrary: s) (auto intro!: bindP_I load_I)

lemma loadConfig_I: "I s \<Longrightarrow> I (snd (loadConfig table files env s))"
  using getProperty_I [of s "''Ice.Config''"]
  by (auto simp: loadConfig_def Let_def split: prod.splits intro!: bindP_I load_files_I config_I)

lemma config_args_I: "I s \<Longrightarrow> I (snd (config_args table args tmp b s))"
  by (induction args arbitrary: tmp b s) (auto intro!: bindP_I parseLine_I)

lemma set_program_name_I: "I s \<Longrightarrow> I (set_program_name args s)"
  by (auto simp: set_program_name_def mark_I program_I split: option.splits list.splits)

lemma properties_init_I:
  assumes "I (properties_new c)" "\<And>d. defaults = Some d \<Longrightarrow> I ((properties_new c)\<lparr>props := props d\<rparr>)"
  shows "I (snd (properties_init table cl files env args defaults c))"
proof -
  let ?s0 = "case defaults of None \<Rightarrow> properties_new c | Some d \<Rightarrow> (properties_new c)\<lparr>props := props d\<rparr>"
  have "I ?s0" using assms by (auto split: option.splits)
  then have "I (set_program_name args ?s0)" by (rule set_program_name_I)
  then show ?thesis
    unfolding properties_init_def Let_def
    by (auto split: prod.splits intro!: bindP_I config_args_I loadConfig_I parseIceCommandLineOptions_I)
qed

end

text \<open>
  The invariant: entries are ordered by key, keys are trimmed and not empty, and no value is empty, except
  that the program name may be.
\<close>

definition props_ok :: "properties \<Rightarrow> bool" where
  "props_ok s \<longleftrightarrow> smap_inv (props s) \<and>
     (\<forall>(k, pv) \<in> set (props s). proper_key k \<and> (val pv = [] \<longrightarrow> k = ''Ice.ProgramName''))"

lemma set_smap_put_subset: "set (smap_put k v m) \<subseteq> insert (k, v) (set m)"
  by (induction k v m rule: smap_put.induct) auto

lemma props_ok_put:
  assumes "props_ok s" "proper_key k" "val pv \<noteq> [] \<or> k = ''Ice.ProgramName''"
  shows "props_ok (s\<lparr>props := smap_put k pv (props s)\<rparr>)"
  using assms set_smap_put_subset [of k pv "props s"]
  by (auto simp: props_ok_def smap_put_inv)

lemma props_ok_erase: "props_ok s \<Longrightarrow> props_ok (s\<lparr>props := smap_erase k (props s)\<rparr>)"
  using smap_erase_inv [of "props s" k] by (auto simp: props_ok_def) (auto simp: smap_erase_def)

lemma props_ok_store: "props_ok s \<Longrightarrow> proper_key k \<Longrightarrow> props_ok (store k v s)"
  by (auto simp: store_def intro: props_ok_put props_ok_erase)

lemma trim_trim [simp]: "trim (trim s) = trim s"
proof -
  let ?w = "\<lambda>c. c \<in> set trim_delim"
  define t where "t = dropWhile ?w s"
  have "dropWhile ?w (rev (dropWhile ?w (rev t))) = rev (dropWhile ?w (rev t))" if "t = [] \<or> \<not> ?w (hd t)"
  proof (cases "dropWhile ?w (rev t) = []")
    case False
    have "rev t = takeWhile ?w (rev t) @ dropWhile ?w (rev t)" by simp
    then have "t = rev (dropWhile ?w (rev t)) @ rev (takeWhile ?w (rev t))"
      by (metis rev_append rev_rev_ident)
    then have "hd t = hd (rev (dropWhile ?w (rev t)))" using False by (metis hd_append2 rev_is_Nil_conv)
    then show ?thesis using that False by (cases "rev (dropWhile ?w (rev t))") auto
  qed (simp only: rev.simps dropWhile.simps)
  moreover have start: "t = [] \<or> \<not> ?w (hd t)" unfolding t_def using hd_dropWhile by blast
  ultimately show ?thesis by (simp add: trim_eq t_def [symmetric])
qed

lemma props_ok_setProperty:
  assumes "table_ok table" "props_ok s" shows "props_ok (snd (setProperty table k v s))"
proof (cases "trim k = []")
  case False
  then obtain k' s' where k: "setProperty table k v s = (Inr (), store k' v s')" "props s' = props s"
    "k' = trim k \<or> k' \<in> replacements table"
    using setProperty_store [OF assms(1)] by blast
  have "proper_key k'" using k(3) False assms(1) by (auto simp: proper_key_def table_ok_def replacements_def)
  moreover have "props_ok s'" using assms(2) k(2) by (simp add: props_ok_def)
  ultimately show ?thesis using k(1) props_ok_store by simp
qed (use assms in \<open>simp add: setProperty_def\<close>)

lemma props_ok_mark_used: "props_ok s \<Longrightarrow> props_ok (mark_used k s)"
  by (auto simp: props_ok_def) (auto simp: mark_used_def split: if_splits)

lemma Ice_keys_proper: "proper_key ''Ice.Config''" "proper_key ''Ice.ProgramName''"
  by (simp_all add: proper_key_def trim_eq trim_delim_def)

interpretation pok: property_invariant table "\<lambda>s. table_ok table \<longrightarrow> props_ok s" for table
proof unfold_locales
  fix s :: properties and m assume "table_ok table \<longrightarrow> props_ok s"
  then show "table_ok table \<longrightarrow> props_ok (warn m s)" by (simp add: props_ok_def)
qed (auto intro: props_ok_put props_ok_mark_used props_ok_setProperty Ice_keys_proper)

interpretation pconv: property_invariant table "\<lambda>s. table_ok table \<longrightarrow> conv s = c" for table c
proof unfold_locales
  fix s :: properties and k v assume "table_ok table \<longrightarrow> conv s = c"
  then show "table_ok table \<longrightarrow> conv (snd (setProperty table k v s)) = c"
    using setProperty_store [of table k v s] by (cases "trim k = []") (auto simp: setProperty_def)
qed (simp_all add: mark_used_def)

text \<open>
  Whatever the arguments, the environment and the configuration files are, the property set the
  constructor builds satisfies the invariant and keeps the converter it was given, also at the point where
  an exception leaves the constructor; and every later operation that sets or loads properties
  keeps the invariant.
\<close>

theorem properties_invariant:
  assumes "table_ok table" "\<forall>d. defaults = Some d \<longrightarrow> props_ok d" "props_ok s"
  shows "props_ok (snd (properties_init table cl files env args defaults c)) \<and>
    conv (snd (properties_init table cl files env args defaults c)) = c \<and>
    props_ok (snd (setProperty table k v s)) \<and> props_ok (snd (parseLine table line conv' s)) \<and>
    props_ok (snd (load table files file s)) \<and> props_ok (snd (loadConfig table files env s)) \<and>
    props_ok (snd (parseCommandLineOptions table pre opts s)) \<and>
    props_ok (snd (parseIceCommandLineOptions table cl opts s)) \<and> props_ok (snd (getProperty k s))"
proof -
  have "props_ok (properties_new c)" by (simp add: props_ok_def properties_new_def)
  moreover have "props_ok ((properties_new c)\<lparr>props := props d\<rparr>)" if "defaults = Some d" for d
    using that assms(2) by (simp add: props_ok_def)
  ultimately have "props_ok (snd (properties_init table cl files env args defaults c))"
    using pok.properties_init_I [of table c defaults] assms(1) by blast
  moreover have "conv (snd (properties_init table cl files env args defaults c)) = c"
    using pconv.properties_init_I [of table c c defaults] assms(1) by (simp add: properties_new_def)
  ultimately show ?thesis
    unfolding parseCommandLineOptions_def
    using pok.parseLine_I [of table s] pok.load_I [of table s] pok.loadConfig_I [of table s]
      pok.parse_options_I [of table s] pok.parseIceCommandLineOptions_I [of table s] pok.getProperty_I [of table s]
      props_ok_setProperty assms(1,3) by simp
qed

text \<open>Part of the real table: the group of IcePatch2, with a deprecated name.\<close>

definition sample_table :: name_table where
  "sample_table = [[\<lparr>pattern = ''IcePatch2.ChunkSize'', deprecated = True, deprecatedBy = Some ''IcePatch2Client.ChunkSize''\<rparr>,
     \<lparr>pattern = ''IcePatch2.Directory'', deprecated = False, deprecatedBy = None\<rparr>]]"

lemma sample_table_ok: "table_ok sample_table"
  by (simp add: table_ok_def sample_table_def proper_key_def trim_eq trim_delim_def)

lemma setProperty_refines_witness:
  "table_ok sample_table \<and> (\<exists>k s'. setProperty sample_table '' IcePatch2.ChunkSize'' ''5'' (properties_new None) = (Inr (), s')
     \<and> fst (getProperty k s') = ''5'')"
  using setProperty_refines [OF sample_table_ok, of "properties_new None" "'' IcePatch2.ChunkSize''" "''5''"] sample_table_ok
  by (auto simp: properties_new_def trim_eq trim_delim_def)

lemma properties_invariant_witness:
  "table_ok sample_table \<and> props_ok (properties_new None) \<and>
   props_ok (snd (properties_init sample_table [''Ice''] (\<lambda>f. Some '' a = b'') None [''prog'', ''--Ice.Config=f''] None None))"
  using properties_invariant [OF sample_table_ok, where defaults = None and s = "properties_new None"] sample_table_ok
  by (auto simp: props_ok_def properties_new_def)

section \<open>Writing a configuration line\<close>

text \<open>
  The documented way to write a property: backslash, number sign and equals sign are escaped, and in the value
  blanks are escaped, too.
\<close>

definition quote_key :: "string \<Rightarrow> string" where
  "quote_key k = concat (map (\<lambda>c. if escapable c then [BSLASH, c] else [c]) k)"

definition quote_value :: "string \<Rightarrow> string" where
  "quote_value v = concat (map (\<lambda>c. if escapable c \<or> c = SPACE then [BSLASH, c] else [c]) v)"

lemma parse_key:
  assumes "set ws \<subseteq> Collect blank" "key = [] \<Longrightarrow> ws = [] \<and> (k = [] \<or> \<not> blank (hd k))"
    "\<not> blank (last (key @ ws @ k))"
  shows "parse_loop Key key [] ws [] (quote_key k @ CHR ''='' # rest) = parse_loop Value (key @ ws @ k) [] [] [] rest"
  using assms
proof (induction k arbitrary: key ws)
  case Nil
  then have "ws = []" using last_in_set by (cases "ws = []") auto
  then show ?case by (simp add: quote_key_def blank_def)
next
  case (Cons c k)
  have quote: "quote_key (c # k) = (if escapable c then [BSLASH, c] else [c]) @ quote_key k"
    by (simp add: quote_key_def)
  show ?case
  proof (cases "blank c")
    case True
    with Cons.prems(2) have "key \<noteq> []" by auto
    have "\<not> escapable c" "c \<noteq> BSLASH" using True by (auto simp: blank_def escapable_def)
    then have "parse_loop Key key [] ws [] (quote_key (c # k) @ CHR ''='' # rest)
       = parse_loop Key key [] (ws @ [c]) [] (quote_key k @ CHR ''='' # rest)"
      using True \<open>key \<noteq> []\<close> by (simp add: quote)
    then show ?thesis using Cons.IH [of "ws @ [c]" key] Cons.prems True \<open>key \<noteq> []\<close> by simp
  next
    case False
    then have "parse_loop Key key [] ws [] (quote_key (c # k) @ CHR ''='' # rest)
       = parse_loop Key (key @ ws @ [c]) [] [] [] (quote_key k @ CHR ''='' # rest)"
      by (auto simp: quote escapable_def blank_def)
    then show ?thesis using Cons.IH [of "[]" "key @ ws @ [c]"] Cons.prems by simp
  qed
qed

text \<open>
  A value can be written if, apart from blanks, it neither starts nor ends with another white space
  character.
\<close>

definition writable :: "string \<Rightarrow> bool" where
  "writable v \<longleftrightarrow> (let t = dropWhile ((=) SPACE) v; r = dropWhile ((=) SPACE) (rev v)
     in (t = [] \<or> \<not> blank (hd t)) \<and> (r = [] \<or> \<not> blank (hd r)))"

lemma dropWhile_blanks:
  assumes "dropWhile ((=) SPACE) (rev ws @ r) = [] \<or> \<not> blank (hd (dropWhile ((=) SPACE) (rev ws @ r)))"
    "set ws \<subseteq> Collect blank"
  shows "filter ((=) SPACE) ws = ws"
  using assms
proof (induction ws rule: rev_induct)
  case (snoc w ws)
  then show ?case by (cases "w = SPACE") (auto simp: blank_def)
qed simp

lemma parse_value:
  assumes "esc = filter ((=) SPACE) ws" "set ws \<subseteq> Collect blank"
    "v = [] \<Longrightarrow> ws = esc \<and> (dropWhile ((=) SPACE) w = [] \<or> \<not> blank (hd (dropWhile ((=) SPACE) w)))"
    "dropWhile ((=) SPACE) (rev (v @ ws @ w)) = [] \<or> \<not> blank (hd (dropWhile ((=) SPACE) (rev (v @ ws @ w))))"
  shows "\<exists>x y. parse_loop Value key v ws esc (quote_value w) = (Value, key, x, y) \<and> x @ y = v @ ws @ w"
  using assms
proof (induction w arbitrary: v ws esc)
  case Nil
  then have "esc = ws" using dropWhile_blanks [of ws "rev v"] by simp
  then show ?case by (simp add: quote_value_def)
next
  case (Cons c w)
  have quote: "quote_value (c # w) = (if escapable c \<or> c = SPACE then [BSLASH, c] else [c]) @ quote_value w"
    by (simp add: quote_value_def)
  let ?v = "v @ (if v = [] then esc else ws)"
  consider (space) "c = SPACE" | (white) "blank c" "c \<noteq> SPACE" | (char) "\<not> blank c" by blast
  then show ?case
  proof cases
    case space
    then have "parse_loop Value key v ws esc (quote_value (c # w)) = parse_loop Value key v (ws @ [c]) (esc @ [c]) (quote_value w)"
      unfolding quote by (simp add: escapable_def Let_def)
    moreover have "\<exists>x y. parse_loop Value key v (ws @ [c]) (esc @ [c]) (quote_value w) = (Value, key, x, y) \<and>
        x @ y = v @ (ws @ [c]) @ w"
      by (rule Cons.IH) (use Cons.prems space in \<open>auto simp: blank_def\<close>)
    ultimately show ?thesis by simp
  next
    case white
    with Cons.prems(3) have "v \<noteq> []" by auto
    then have "parse_loop Value key v ws esc (quote_value (c # w)) = parse_loop Value key v (ws @ [c]) esc (quote_value w)"
      using white by (auto simp: quote escapable_def blank_def)
    moreover have "\<exists>x y. parse_loop Value key v (ws @ [c]) esc (quote_value w) = (Value, key, x, y) \<and>
        x @ y = v @ (ws @ [c]) @ w"
      by (rule Cons.IH) (use Cons.prems white \<open>v \<noteq> []\<close> in auto)
    ultimately show ?thesis by simp
  next
    case char
    then have "parse_loop Value key v ws esc (quote_value (c # w)) = parse_loop Value key (?v @ [c]) [] [] (quote_value w)"
      by (auto simp: quote escapable_def blank_def Let_def)
    moreover have "?v = v @ ws" using Cons.prems(3) by auto
    moreover have "\<exists>x y. parse_loop Value key (v @ ws @ [c]) [] [] (quote_value w) = (Value, key, x, y) \<and>
        x @ y = (v @ ws @ [c]) @ [] @ w"
      by (rule Cons.IH) (use Cons.prems in auto)
    ultimately show ?thesis by simp
  qed
qed

lemma proper_key_ends:
  assumes "proper_key k" shows "\<not> blank (hd k) \<and> \<not> blank (last k)"
proof -
  have w: "c \<in> set trim_delim \<longleftrightarrow> blank c" for c by (auto simp: trim_delim_def blank_def)
  have "k \<noteq> []" and eq: "rev (dropWhile blank (rev (dropWhile blank k))) = k"
    using assms by (simp_all add: proper_key_def trim_eq w)
  then have "length (dropWhile blank (rev (dropWhile blank k))) = length k" by (metis length_rev)
  then have l: "length (dropWhile blank k) = length k"
    using length_dropWhile_le [of blank "rev (dropWhile blank k)"] length_dropWhile_le [of blank k] by simp
  then have "\<not> blank (hd k)" using \<open>k \<noteq> []\<close> length_dropWhile_le [of blank "tl k"] by (cases k) (auto split: if_splits)
  then have "dropWhile blank k = k" by (cases k) auto
  with eq have "dropWhile blank (rev k) = rev k" by (metis rev_swap)
  then have "\<not> blank (hd (rev k))" using \<open>k \<noteq> []\<close> hd_dropWhile [of blank "rev k"] by simp
  then show ?thesis using \<open>\<not> blank (hd k)\<close> by (simp add: hd_rev)
qed

lemma parseLine_quoted:
  assumes "proper_key k" "writable v"
  shows "parseLine table (quote_key k @ CHR ''='' # quote_value v) c s
    = bindP (convert_text c k, s) (\<lambda>k' s. bindP (convert_text c v, s) (\<lambda>v' s. setProperty table k' v' s))"
proof -
  have "\<exists>x y. parse_loop Value k [] [] [] (quote_value v) = (Value, k, x, y) \<and> x @ y = [] @ [] @ v"
    by (rule parse_value) (use assms(2) in \<open>auto simp: writable_def Let_def\<close>)
  moreover have "parse_loop Key [] [] [] [] (quote_key k @ CHR ''='' # quote_value v) = parse_loop Value k [] [] [] (quote_value v)"
    using parse_key [of "[]" "[]" k] proper_key_ends [OF assms(1)] assms(1) by (simp add: proper_key_def)
  ultimately show ?thesis using assms(1) by (auto simp: parseLine_def proper_key_def)
qed

lemma setProperty_value:
  assumes "table_ok table" "smap_inv (props s)" "proper_key key"
  shows "\<exists>k s'. setProperty table key v s = (Inr (), s') \<and> (k = key \<or> k \<in> replacements table)
    \<and> smap_inv (props s') \<and> value_of s' = (value_of s)(k := v)"
proof -
  obtain k s0 where k: "setProperty table key v s = (Inr (), store k v s0)" "props s0 = props s"
    "k = key \<or> k \<in> replacements table"
    using setProperty_store [OF assms(1), of key v s] assms(3) by (auto simp: proper_key_def)
  moreover have "smap_inv (props s0)" "value_of s0 = value_of s"
    using assms(2) k(2) by (simp_all add: value_of_def fun_eq_iff)
  ultimately show ?thesis
    using store_find [of s0 k v] value_of_store [of s0 k v] by (intro exI [of _ k] exI [of _ "store k v s0"]) simp
qed

text \<open>
  C37. A property written to a configuration line with the documented escapes is read back: for every proper
  key and every value that neither starts nor ends with white space other than blanks, \<open>parseLine\<close> on the quoted
  line sets exactly that value, and look-up then returns it, whatever the property was before; the
  other properties keep their values. A string converter is applied to key and value and to nothing else.
\<close>

theorem config_line_roundtrip:
  assumes "table_ok table" "smap_inv (props s)" "proper_key k" "writable v"
  shows "(\<exists>k' s'. parseLine table (quote_key k @ CHR ''='' # quote_value v) None s = (Inr (), s')
      \<and> (k' = k \<or> k' \<in> replacements table)
      \<and> (\<forall>j. fst (getProperty j s') = (if j = k' then v else fst (getProperty j s)))) \<and>
    parseLine table (quote_key k @ CHR ''='' # quote_value v) c s
      = bindP (convert_text c k, s) (\<lambda>k' s. bindP (convert_text c v, s) (\<lambda>v' s. setProperty table k' v' s))"
proof
  have "parseLine table (quote_key k @ CHR ''='' # quote_value v) None s = setProperty table k v s"
    using parseLine_quoted [OF assms(3,4)] by (simp add: convert_text_def UTF8ToNative_def)
  moreover obtain k' s' where "setProperty table k v s = (Inr (), s')" "k' = k \<or> k' \<in> replacements table"
    "value_of s' = (value_of s)(k' := v)"
    using setProperty_value [OF assms(1-3)] by blast
  ultimately show "\<exists>k' s'. parseLine table (quote_key k @ CHR ''='' # quote_value v) None s = (Inr (), s')
      \<and> (k' = k \<or> k' \<in> replacements table)
      \<and> (\<forall>j. fst (getProperty j s') = (if j = k' then v else fst (getProperty j s)))"
    by (intro exI [of _ k'] exI [of _ s']) (simp add: getProperty_value)
qed (rule parseLine_quoted [OF assms(3,4)])

lemma config_line_roundtrip_witness:
  "quote_value '' a#b '' = [BSLASH, SPACE, CHR ''a'', BSLASH, CHR ''#'', CHR ''b'', BSLASH, SPACE] \<and>
   (\<exists>s'. parseLine [] (''K='' @ quote_value '' a#b '') None (properties_new None) = (Inr (), s')
     \<and> fst (getProperty ''K'' s') = '' a#b '')"
proof -
  have hyps: "table_ok []" "smap_inv (props (properties_new None))" "proper_key ''K''" "writable '' a#b ''"
    by (simp_all add: table_ok_def properties_new_def proper_key_def trim_eq trim_delim_def writable_def blank_def)
  have q: "quote_key ''K'' = ''K''" by (simp add: quote_key_def escapable_def)
  from config_line_roundtrip [OF hyps, of None, THEN conjunct1] obtain k' s' where
    "parseLine [] (quote_key ''K'' @ CHR ''='' # quote_value '' a#b '') None (properties_new None) = (Inr (), s')"
    "k' = ''K'' \<or> k' \<in> replacements []"
    "\<forall>j. fst (getProperty j s') = (if j = k' then '' a#b '' else fst (getProperty j (properties_new None)))"
    by (elim exE conjE)
  then show ?thesis
    by (intro conjI exI [of _ s']) (auto simp: q replacements_def quote_value_def escapable_def)
qed

text \<open>
  The escaped blanks of a value are counted twice when a comment follows: with one escaped blank before the
  number sign the property gets two, and without the comment one.
\<close>

theorem escaped_blank_doubled:
  "fst (getProperty ''K'' (snd (parseLine [] (''K=v'' @ [BSLASH, SPACE] @ ''#c'') None (properties_new None)))) = ''v  '' \<and>
   fst (getProperty ''K'' (snd (parseLine [] (''K=v'' @ [BSLASH, SPACE]) None (properties_new None)))) = ''v ''"
  by (simp add: parseLine_def convert_text_def UTF8ToNative_def properties_new_def setProperty_def
      blank_def escapable_def trim_eq trim_delim_def find_from.simps store_def getProperty_def)

section \<open>Command-line options\<close>








text \<open>
  The options are not equivalent to the property set when a value contains a number sign, because nothing
  is escaped in them and the parser takes the rest of the value for a comment.
\<close>

theorem command_line_comment:
  "let s = store ''K'' ''a#b'' (properties_new None)
   in fst (getProperty ''K'' s) = ''a#b'' \<and>
      fst (getProperty ''K'' (snd (parseCommandLineOptions [] [] (getCommandLineOptions s) (properties_new None)))) = ''a''"
  by (simp add: parseLine_def convert_text_def UTF8ToNative_def properties_new_def setProperty_def
      blank_def escapable_def trim_eq trim_delim_def find_from.simps store_def getProperty_def
      parseCommandLineOptions_def option_prefix_def option_line_def getCommandLineOptions_def)

text \<open>
  With the option \<^verbatim>\<open>--Ice.Config\<close> and no environment variable the constructor tries to load a file
  named 1 and throws, on the branch for POSIX systems.
\<close>

theorem config_option_without_variable:
  assumes "files ''1'' = None"
  shows "fst (properties_init [] cl files None [''prog'', ''--Ice.Config''] None None) = Inl (FileException ''1'')"
  using assms
  by (simp add: properties_init_def set_program_name_def parseLine_def convert_text_def UTF8ToNative_def
      properties_new_def setProperty_def blank_def escapable_def trim_eq trim_delim_def find_from.simps store_def
      getProperty_def option_line_def loadConfig_def splitString_def splitString_loop.simps load_def nativeToUTF8_def
      Let_def mark_used_def)

lemma config_option_without_variable_witness:
  "fst (properties_init [] [] (\<lambda>_. None) None [''prog'', ''--Ice.Config''] None None) = Inl (FileException ''1'')"
  by (rule config_option_without_variable) simp

end
