(* ===== verification/Simulation.thy ===== *)
theory Simulation
  imports Prelude
begin

text \<open>
  Data refinement of an object with operations: a concrete and an abstract step function that answer
  every operation with a response and a new state. A component whose operations keep an invariant and
  commute with an abstraction function answers every sequence of operations like its specification.
\<close>

fun run_steps :: "('op \<Rightarrow> 's \<Rightarrow> 'r \<times> 's) \<Rightarrow> 'op list \<Rightarrow> 's \<Rightarrow> 'r list \<times> 's" where
  "run_steps step [] s = ([], s)"
| "run_steps step (op # ops) s =
     (let (r, s1) = step op s; (rs, s2) = run_steps step ops s1 in (r # rs, s2))"

lemma run_steps_append:
  "run_steps step (xs @ ys) s =
     (let (rs, s1) = run_steps step xs s; (rs', s2) = run_steps step ys s1 in (rs @ rs', s2))"
  by (induction xs arbitrary: s) (auto simp: Let_def split: prod.splits)

locale simulation =
  fixes cstep :: "'op \<Rightarrow> 'c \<Rightarrow> 'r \<times> 'c" and astep :: "'op \<Rightarrow> 'a \<Rightarrow> 'r \<times> 'a"
    and abs :: "'c \<Rightarrow> 'a" and inv :: "'c \<Rightarrow> bool"
  assumes step_inv: "inv c \<Longrightarrow> inv (snd (cstep op c))"
    and step_abs: "inv c \<Longrightarrow> astep op (abs c) = (fst (cstep op c), abs (snd (cstep op c)))"
begin

lemma run_simulates:
  "inv c \<Longrightarrow> inv (snd (run_steps cstep ops c)) \<and>
     run_steps astep ops (abs c) = (fst (run_steps cstep ops c), abs (snd (run_steps cstep ops c)))"
proof (induction ops arbitrary: c)
  case (Cons op ops)
  obtain r c' where step: "cstep op c = (r, c')" by force
  with step_inv [OF Cons.prems, of op] step_abs [OF Cons.prems, of op]
  have "inv c'" "astep op (abs c) = (r, abs c')" by simp_all
  with Cons.IH [of c'] step show ?case by (auto simp: Let_def split: prod.splits)
qed simp

end

text \<open>
  A system of events: an event that is enabled in a state leads to a state, or fails (\<open>None\<close>, a violated assertion).
  Events that are not enabled are skipped. A system that keeps an invariant never fails, and a preorder that every step
  respects holds between the ends of every run.
\<close>

fun run_events :: "('e \<Rightarrow> 's \<Rightarrow> bool) \<Rightarrow> ('e \<Rightarrow> 's \<Rightarrow> 's option) \<Rightarrow> 'e list \<Rightarrow> 's \<Rightarrow> 's option" where
  "run_events enabled step [] s = Some s"
| "run_events enabled step (e # es) s =
     (if enabled e s then (case step e s of None \<Rightarrow> None | Some s' \<Rightarrow> run_events enabled step es s')
      else run_events enabled step es s)"

lemma run_events_append:
  "run_events enabled step (xs @ ys) s =
     (case run_events enabled step xs s of None \<Rightarrow> None | Some s' \<Rightarrow> run_events enabled step ys s')"
  by (induction xs arbitrary: s) (auto split: option.splits)

locale safe_system =
  fixes enabled :: "'e \<Rightarrow> 's \<Rightarrow> bool" and step :: "'e \<Rightarrow> 's \<Rightarrow> 's option" and inv :: "'s \<Rightarrow> bool"
  assumes step_safe: "inv s \<Longrightarrow> enabled e s \<Longrightarrow> \<exists>s'. step e s = Some s' \<and> inv s'"
begin

lemma run_safe: "inv s \<Longrightarrow> \<exists>s'. run_events enabled step es s = Some s' \<and> inv s'"
proof (induction es arbitrary: s)
  case (Cons e es)
  show ?case
  proof (cases "enabled e s")
    case True
    with step_safe [OF Cons.prems] Cons.IH show ?thesis by fastforce
  qed (use Cons in simp)
qed simp

end

locale ordered_system = safe_system +
  fixes rel :: "'b \<Rightarrow> 'b \<Rightarrow> bool"
  assumes rel_refl: "rel s s" and rel_trans: "rel s t \<Longrightarrow> rel t u \<Longrightarrow> rel s u"
    and step_rel: "inv s \<Longrightarrow> enabled e s \<Longrightarrow> step e s = Some s' \<Longrightarrow> rel s s'"
begin

lemma run_rel: "inv s \<Longrightarrow> run_events enabled step es s = Some t \<Longrightarrow> rel s t"
proof (induction es arbitrary: s)
  case (Cons e es)
  show ?case
  proof (cases "enabled e s")
    case True
    with step_safe [OF Cons.prems(1)] obtain s' where s': "step e s = Some s'" "inv s'" by blast
    with True Cons.prems(2) have "run_events enabled step es s' = Some t" by simp
    with Cons.IH [OF s'(2)] step_rel [OF Cons.prems(1) True s'(1)] rel_trans show ?thesis by blast
  qed (use Cons in simp)
qed (simp add: rel_refl)

end

end
