(* ===== verification/ServantManager.thy ===== *)
theory ServantManager
  imports Identity StdMap Simulation
begin

text \<open>
  The active servant map of an object adapter, after \<^verbatim>\<open>cpp/src/Ice/ServantManager.h\<close> and
  \<^verbatim>\<open>cpp/src/Ice/ServantManager.cpp\<close>: servants by identity and facet, default servants and servant locators by
  category. Two iterators are kept as hints into the maps. An iterator is the key it points to, \<open>None\<close> for
  \<^verbatim>\<open>end()\<close>; using one whose element is gone is undefined behaviour in C++ and the error
  \<open>DanglingIterator\<close> here. Servants and locators are smart pointers, type parameters of the model.
\<close>

section \<open>State\<close>

record ('o, 'l) servant_manager =
  instance_set :: bool
  servantMapMap :: "(identity \<times> (string \<times> 'o) list) list"
  servantMapMapHint :: "identity option"
  defaultServantMap :: "(string \<times> 'o) list"
  locatorMap :: "(string \<times> 'l) list"
  locatorMapHint :: "string option"

datatype servant_error =
    AlreadyRegistered string string
  | NotRegistered string string
  | IdentityFailed identity_error
  | ServantAssert
  | DanglingIterator

definition servant_manager_new :: "('o, 'l) servant_manager" where
  "servant_manager_new = \<lparr>instance_set = True, servantMapMap = [], servantMapMapHint = None,
     defaultServantMap = [], locatorMap = [], locatorMapHint = None\<rparr>"

text \<open>The identity of a servant in an exception, with its facet.\<close>

definition servant_id :: "char converter option \<Rightarrow> identity \<Rightarrow> string \<Rightarrow> identity_error + string" where
  "servant_id c ident facet =
     bindE (identityToString c ident) (\<lambda>i.
     if facet = [] then Inr i
     else bindE (mapError ConversionFailed (nativeToUTF8 c facet)) (\<lambda>fs.
          bindE (mapError EscapeFailed (escapeString fs [])) (\<lambda>e. Inr (i @ '' -f '' @ e))))"

definition servant_exception ::
  "(string \<Rightarrow> string \<Rightarrow> servant_error) \<Rightarrow> char converter option \<Rightarrow> identity \<Rightarrow> string \<Rightarrow> servant_error" where
  "servant_exception ex c ident facet =
     (case servant_id c ident facet of Inl e \<Rightarrow> IdentityFailed e | Inr i \<Rightarrow> ex ''servant'' i)"

text \<open>
  The way every operation finds an element: the hint if it points to the key, else the map's own search. The
  result is the iterator.
\<close>

definition locate :: "'k option \<Rightarrow> 'k :: linorder \<Rightarrow> ('k \<times> 'v) list \<Rightarrow> servant_error + 'k option" where
  "locate hint k m =
     (case hint of
        None \<Rightarrow> Inr (if smap_find m k = None then None else Some k)
      | Some h \<Rightarrow>
          if smap_find m h = None then Inl DanglingIterator
          else if h = k then Inr hint
          else Inr (if smap_find m k = None then None else Some k))"

text \<open>Erasing the element of an iterator: a hint that points to it moves on first.\<close>

definition erase_ident :: "identity \<Rightarrow> ('o, 'l) servant_manager \<Rightarrow> ('o, 'l) servant_manager" where
  "erase_ident k s = s\<lparr>servantMapMap := smap_erase k (servantMapMap s),
     servantMapMapHint := (if servantMapMapHint s = Some k then smap_next k (servantMapMap s) else servantMapMapHint s)\<rparr>"

section \<open>Servants\<close>

definition addServant :: "char converter option \<Rightarrow> 'o \<Rightarrow> identity \<Rightarrow> string \<Rightarrow> ('o, 'l) servant_manager \<Rightarrow>
    servant_error + (unit \<times> ('o, 'l) servant_manager)" where
  "addServant c object ident facet s =
     (if \<not> instance_set s then Inl ServantAssert
      else bindE (locate (servantMapMapHint s) ident (servantMapMap s)) (\<lambda>p.
        case p of
          None \<Rightarrow> Inr ((), s\<lparr>servantMapMap := smap_put ident (smap_put facet object []) (servantMapMap s),
            servantMapMapHint := Some ident\<rparr>)
        | Some k \<Rightarrow>
            (let facets = the (smap_find (servantMapMap s) k)
             in if smap_find facets facet \<noteq> None then Inl (servant_exception AlreadyRegistered c ident facet)
                else Inr ((), s\<lparr>servantMapMap := smap_put k (smap_put facet object facets) (servantMapMap s),
                  servantMapMapHint := Some k\<rparr>))))"

definition addDefaultServant :: "'o \<Rightarrow> string \<Rightarrow> ('o, 'l) servant_manager \<Rightarrow>
    servant_error + (unit \<times> ('o, 'l) servant_manager)" where
  "addDefaultServant object category s =
     (if \<not> instance_set s then Inl ServantAssert
      else if smap_find (defaultServantMap s) category \<noteq> None then Inl (AlreadyRegistered ''default servant'' category)
      else Inr ((), s\<lparr>defaultServantMap := smap_put category object (defaultServantMap s)\<rparr>))"

definition removeServant :: "char converter option \<Rightarrow> identity \<Rightarrow> string \<Rightarrow> ('o, 'l) servant_manager \<Rightarrow>
    servant_error + ('o \<times> ('o, 'l) servant_manager)" where
  "removeServant c ident facet s =
     (if \<not> instance_set s then Inl ServantAssert
      else bindE (locate (servantMapMapHint s) ident (servantMapMap s)) (\<lambda>p.
        case p of
          None \<Rightarrow> Inl (servant_exception NotRegistered c ident facet)
        | Some k \<Rightarrow>
            (let facets = the (smap_find (servantMapMap s) k)
             in case smap_find facets facet of
                  None \<Rightarrow> Inl (servant_exception NotRegistered c ident facet)
                | Some servant \<Rightarrow>
                    (let facets' = smap_erase facet facets;
                         s' = s\<lparr>servantMapMap := smap_put k facets' (servantMapMap s)\<rparr>
                     in Inr (servant, if facets' = [] then erase_ident k s' else s')))))"

definition removeDefaultServant :: "string \<Rightarrow> ('o, 'l) servant_manager \<Rightarrow>
    servant_error + ('o \<times> ('o, 'l) servant_manager)" where
  "removeDefaultServant category s =
     (if \<not> instance_set s then Inl ServantAssert
      else (case smap_find (defaultServantMap s) category of
              None \<Rightarrow> Inl (NotRegistered ''default servant'' category)
            | Some servant \<Rightarrow> Inr (servant, s\<lparr>defaultServantMap := smap_erase category (defaultServantMap s)\<rparr>)))"

definition removeAllFacets :: "char converter option \<Rightarrow> identity \<Rightarrow> ('o, 'l) servant_manager \<Rightarrow>
    servant_error + ((string \<times> 'o) list \<times> ('o, 'l) servant_manager)" where
  "removeAllFacets c ident s =
     (if \<not> instance_set s then Inl ServantAssert
      else bindE (locate (servantMapMapHint s) ident (servantMapMap s)) (\<lambda>p.
        case p of
          None \<Rightarrow> Inl (servant_exception NotRegistered c ident [])
        | Some k \<Rightarrow> Inr (the (smap_find (servantMapMap s) k), erase_ident k s)))"

definition default_servant :: "string \<Rightarrow> ('o, 'l) servant_manager \<Rightarrow> 'o option" where
  "default_servant category s =
     (case smap_find (defaultServantMap s) category of
        None \<Rightarrow> smap_find (defaultServantMap s) []
      | Some servant \<Rightarrow> Some servant)"

definition findServant :: "identity \<Rightarrow> string \<Rightarrow> ('o, 'l) servant_manager \<Rightarrow>
    servant_error + ('o option \<times> ('o, 'l) servant_manager)" where
  "findServant ident facet s =
     bindE (locate (servantMapMapHint s) ident (servantMapMap s)) (\<lambda>p.
       case p of
         None \<Rightarrow> Inr (default_servant (icategory ident) s, s)
       | Some k \<Rightarrow>
           (case smap_find (the (smap_find (servantMapMap s) k)) facet of
              None \<Rightarrow> Inr (default_servant (icategory ident) s, s)
            | Some servant \<Rightarrow> Inr (Some servant, s\<lparr>servantMapMapHint := Some k\<rparr>)))"

definition findDefaultServant :: "string \<Rightarrow> ('o, 'l) servant_manager \<Rightarrow> 'o option" where
  "findDefaultServant category s = smap_find (defaultServantMap s) category"

definition findAllFacets :: "identity \<Rightarrow> ('o, 'l) servant_manager \<Rightarrow>
    servant_error + ((string \<times> 'o) list \<times> ('o, 'l) servant_manager)" where
  "findAllFacets ident s =
     (if \<not> instance_set s then Inl ServantAssert
      else bindE (locate (servantMapMapHint s) ident (servantMapMap s)) (\<lambda>p.
        case p of
          None \<Rightarrow> Inr ([], s)
        | Some k \<Rightarrow> Inr (the (smap_find (servantMapMap s) k), s\<lparr>servantMapMapHint := Some k\<rparr>)))"

definition hasServant :: "identity \<Rightarrow> ('o, 'l) servant_manager \<Rightarrow>
    servant_error + (bool \<times> ('o, 'l) servant_manager)" where
  "hasServant ident s =
     bindE (locate (servantMapMapHint s) ident (servantMapMap s)) (\<lambda>p.
       case p of
         None \<Rightarrow> Inr (False, s)
       | Some k \<Rightarrow>
           if the (smap_find (servantMapMap s) k) = [] then Inl ServantAssert
           else Inr (True, s\<lparr>servantMapMapHint := Some k\<rparr>))"

section \<open>Servant locators\<close>

definition addServantLocator :: "'l \<Rightarrow> string \<Rightarrow> ('o, 'l) servant_manager \<Rightarrow>
    servant_error + (unit \<times> ('o, 'l) servant_manager)" where
  "addServantLocator locator category s =
     (if \<not> instance_set s then Inl ServantAssert
      else bindE (locate (locatorMapHint s) category (locatorMap s)) (\<lambda>p.
        if p \<noteq> None then Inl (AlreadyRegistered ''servant locator'' category)
        else Inr ((), s\<lparr>locatorMap := smap_put category locator (locatorMap s), locatorMapHint := Some category\<rparr>)))"

definition removeServantLocator :: "string \<Rightarrow> ('o, 'l) servant_manager \<Rightarrow>
    servant_error + ('l \<times> ('o, 'l) servant_manager)" where
  "removeServantLocator category s =
     (if \<not> instance_set s then Inl ServantAssert
      else bindE (locate (locatorMapHint s) category (locatorMap s)) (\<lambda>p.
        case p of
          None \<Rightarrow> Inl (NotRegistered ''servant locator'' category)
        | Some k \<Rightarrow>
            (let m' = smap_erase k (locatorMap s)
             in Inr (the (smap_find (locatorMap s) k),
                  s\<lparr>locatorMap := m', locatorMapHint := (case m' of [] \<Rightarrow> None | (k', _) # _ \<Rightarrow> Some k')\<rparr>))))"

definition findServantLocator :: "string \<Rightarrow> ('o, 'l) servant_manager \<Rightarrow>
    servant_error + ('l option \<times> ('o, 'l) servant_manager)" where
  "findServantLocator category s =
     bindE (locate (locatorMapHint s) category (locatorMap s)) (\<lambda>p.
       case p of
         None \<Rightarrow> Inr (None, s)
       | Some k \<Rightarrow> Inr (smap_find (locatorMap s) k, s\<lparr>locatorMapHint := Some k\<rparr>))"

section \<open>Destruction\<close>

text \<open>
  \<open>destroy\<close> empties the servant and locator maps under the lock and then calls \<^verbatim>\<open>deactivate\<close> on
  every locator. \<open>deactivate\<close> is the application's code: it may throw an exception derived from
  \<^verbatim>\<open>Ice::Exception\<close>, given with its text, or another one. The result is the sequence of calls and what is logged.
\<close>

datatype deactivation = Deactivated | IceException string | UnknownException

fun deactivate_locators :: "('l \<Rightarrow> string \<Rightarrow> deactivation) \<Rightarrow> string \<Rightarrow> (string \<times> 'l) list \<Rightarrow> string list" where
  "deactivate_locators deactivate adapterName [] = []"
| "deactivate_locators deactivate adapterName ((category, locator) # m) =
     (let place = ''object adapter: `'' @ adapterName @ [SQUOTE, NEWLN] @ ''locator category: `'' @ category @ [SQUOTE];
          rest = deactivate_locators deactivate adapterName m
      in case deactivate locator category of
           Deactivated \<Rightarrow> rest
         | IceException ex \<Rightarrow>
             (''exception during locator deactivation:'' @ [NEWLN] @ place @ [NEWLN] @ ex) # rest
         | UnknownException \<Rightarrow> (''unknown exception during locator deactivation:'' @ [NEWLN] @ place) # rest)"

definition destroy :: "('l \<Rightarrow> string \<Rightarrow> deactivation) \<Rightarrow> string \<Rightarrow> ('o, 'l) servant_manager \<Rightarrow>
    servant_error + (((string \<times> 'l) list \<times> string list) \<times> ('o, 'l) servant_manager)" where
  "destroy deactivate adapterName s =
     (if \<not> instance_set s then Inl ServantAssert
      else Inr ((locatorMap s, deactivate_locators deactivate adapterName (locatorMap s)),
        s\<lparr>instance_set := False, servantMapMap := [], servantMapMapHint := None,
          locatorMap := [], locatorMapHint := None\<rparr>))"

section \<open>Operations and responses\<close>

text \<open>One step of the manager: an operation, its response, and the state it leaves; a throw leaves it unchanged.\<close>

datatype ('o, 'l) operation =
    AddServant 'o identity string | AddDefaultServant 'o string
  | RemoveServant identity string | RemoveDefaultServant string | RemoveAllFacets identity
  | FindServant identity string | FindDefaultServant string | FindAllFacets identity | HasServant identity
  | AddServantLocator 'l string | RemoveServantLocator string | FindServantLocator string
  | Destroy

datatype ('o, 'l) response =
    Done | AServant "'o option" | SomeFacets "string \<rightharpoonup> 'o" | Answer bool | ALocator "'l option"
  | Deactivations "string \<rightharpoonup> 'l" | Failed servant_error

definition respond :: "('a \<Rightarrow> ('o, 'l) response) \<Rightarrow> 's \<Rightarrow> servant_error + ('a \<times> 's) \<Rightarrow> ('o, 'l) response \<times> 's" where
  "respond f s m = (case m of Inl e \<Rightarrow> (Failed e, s) | Inr (x, s') \<Rightarrow> (f x, s'))"

fun exec :: "char converter option \<Rightarrow> ('l \<Rightarrow> string \<Rightarrow> deactivation) \<Rightarrow> string \<Rightarrow> ('o, 'l) operation \<Rightarrow>
    ('o, 'l) servant_manager \<Rightarrow> ('o, 'l) response \<times> ('o, 'l) servant_manager" where
  "exec c d n (AddServant ob i f) s = respond (\<lambda>_. Done) s (addServant c ob i f s)"
| "exec c d n (AddDefaultServant ob cat) s = respond (\<lambda>_. Done) s (addDefaultServant ob cat s)"
| "exec c d n (RemoveServant i f) s = respond (\<lambda>x. AServant (Some x)) s (removeServant c i f s)"
| "exec c d n (RemoveDefaultServant cat) s = respond (\<lambda>x. AServant (Some x)) s (removeDefaultServant cat s)"
| "exec c d n (RemoveAllFacets i) s = respond (\<lambda>x. SomeFacets (map_of x)) s (removeAllFacets c i s)"
| "exec c d n (FindServant i f) s = respond AServant s (findServant i f s)"
| "exec c d n (FindDefaultServant cat) s = (AServant (findDefaultServant cat s), s)"
| "exec c d n (FindAllFacets i) s = respond (\<lambda>x. SomeFacets (map_of x)) s (findAllFacets i s)"
| "exec c d n (HasServant i) s = respond Answer s (hasServant i s)"
| "exec c d n (AddServantLocator l cat) s = respond (\<lambda>_. Done) s (addServantLocator l cat s)"
| "exec c d n (RemoveServantLocator cat) s = respond (\<lambda>x. ALocator (Some x)) s (removeServantLocator cat s)"
| "exec c d n (FindServantLocator cat) s = respond ALocator s (findServantLocator cat s)"
| "exec c d n Destroy s = respond (\<lambda>x. Deactivations (map_of (fst x))) s (destroy d n s)"

section \<open>Specification\<close>

text \<open>The registry the manager promises: three finite maps, and no hints.\<close>

record ('o, 'l) registry =
  alive :: bool
  servants :: "identity \<Rightarrow> string \<rightharpoonup> 'o"
  defaults :: "string \<rightharpoonup> 'o"
  locators :: "string \<rightharpoonup> 'l"

fun spec :: "char converter option \<Rightarrow> ('o, 'l) operation \<Rightarrow> ('o, 'l) registry \<Rightarrow> ('o, 'l) response \<times> ('o, 'l) registry" where
  "spec c (AddServant ob i f) a =
     (if \<not> alive a then (Failed ServantAssert, a)
      else if servants a i f \<noteq> None then (Failed (servant_exception AlreadyRegistered c i f), a)
      else (Done, a\<lparr>servants := (servants a)(i := (servants a i)(f \<mapsto> ob))\<rparr>))"
| "spec c (AddDefaultServant ob cat) a =
     (if \<not> alive a then (Failed ServantAssert, a)
      else if defaults a cat \<noteq> None then (Failed (AlreadyRegistered ''default servant'' cat), a)
      else (Done, a\<lparr>defaults := (defaults a)(cat \<mapsto> ob)\<rparr>))"
| "spec c (RemoveServant i f) a =
     (if \<not> alive a then (Failed ServantAssert, a)
      else if servants a i f = None then (Failed (servant_exception NotRegistered c i f), a)
      else (AServant (servants a i f), a\<lparr>servants := (servants a)(i := (servants a i)(f := None))\<rparr>))"
| "spec c (RemoveDefaultServant cat) a =
     (if \<not> alive a then (Failed ServantAssert, a)
      else if defaults a cat = None then (Failed (NotRegistered ''default servant'' cat), a)
      else (AServant (defaults a cat), a\<lparr>defaults := (defaults a)(cat := None)\<rparr>))"
| "spec c (RemoveAllFacets i) a =
     (if \<not> alive a then (Failed ServantAssert, a)
      else if servants a i = Map.empty then (Failed (servant_exception NotRegistered c i []), a)
      else (SomeFacets (servants a i), a\<lparr>servants := (servants a)(i := Map.empty)\<rparr>))"
| "spec c (FindServant i f) a =
     (AServant (case servants a i f of
        Some ob \<Rightarrow> Some ob
      | None \<Rightarrow> (case defaults a (icategory i) of Some ob \<Rightarrow> Some ob | None \<Rightarrow> defaults a [])), a)"
| "spec c (FindDefaultServant cat) a = (AServant (defaults a cat), a)"
| "spec c (FindAllFacets i) a = (if \<not> alive a then (Failed ServantAssert, a) else (SomeFacets (servants a i), a))"
| "spec c (HasServant i) a = (Answer (servants a i \<noteq> Map.empty), a)"
| "spec c (AddServantLocator l cat) a =
     (if \<not> alive a then (Failed ServantAssert, a)
      else if locators a cat \<noteq> None then (Failed (AlreadyRegistered ''servant locator'' cat), a)
      else (Done, a\<lparr>locators := (locators a)(cat \<mapsto> l)\<rparr>))"
| "spec c (RemoveServantLocator cat) a =
     (if \<not> alive a then (Failed ServantAssert, a)
      else if locators a cat = None then (Failed (NotRegistered ''servant locator'' cat), a)
      else (ALocator (locators a cat), a\<lparr>locators := (locators a)(cat := None)\<rparr>))"
| "spec c (FindServantLocator cat) a = (ALocator (locators a cat), a)"
| "spec c Destroy a =
     (if \<not> alive a then (Failed ServantAssert, a)
      else (Deactivations (locators a), a\<lparr>alive := False, servants := (\<lambda>_. Map.empty), locators := Map.empty\<rparr>))"

text \<open>The abstraction and the invariant: sorted maps, no empty facet map, no dangling hint.\<close>

definition facets_of :: "(identity \<times> (string \<times> 'o) list) list \<Rightarrow> identity \<Rightarrow> (string \<times> 'o) list" where
  "facets_of m i = (case smap_find m i of None \<Rightarrow> [] | Some fs \<Rightarrow> fs)"

definition registry_of :: "('o, 'l) servant_manager \<Rightarrow> ('o, 'l) registry" where
  "registry_of s = \<lparr>alive = instance_set s, servants = (\<lambda>i. map_of (facets_of (servantMapMap s) i)),
     defaults = map_of (defaultServantMap s), locators = map_of (locatorMap s)\<rparr>"

definition facet_maps_ok :: "(identity \<times> (string \<times> 'o) list) list \<Rightarrow> bool" where
  "facet_maps_ok m \<longleftrightarrow> smap_inv m \<and> (\<forall>i fs. smap_find m i = Some fs \<longrightarrow> smap_inv fs \<and> fs \<noteq> [])"

definition manager_inv :: "('o, 'l) servant_manager \<Rightarrow> bool" where
  "manager_inv s \<longleftrightarrow> facet_maps_ok (servantMapMap s) \<and> hint_ok (servantMapMapHint s) (servantMapMap s) \<and>
     smap_inv (defaultServantMap s) \<and> smap_inv (locatorMap s) \<and> hint_ok (locatorMapHint s) (locatorMap s)"

section \<open>The manager implements the registry\<close>

lemma locate_ok: "hint_ok hint m \<Longrightarrow> locate hint k m = Inr (if smap_find m k = None then None else Some k)"
  by (auto simp: locate_def hint_ok_def split: option.splits)

lemma facets_of_put: "smap_inv m \<Longrightarrow> facets_of (smap_put k fs m) = (facets_of m)(k := fs)"
  by (auto simp: facets_of_def smap_put_find fun_eq_iff)

lemma facets_of_erase: "facets_of (smap_erase k m) = (facets_of m)(k := [])"
  by (auto simp: facets_of_def smap_erase_find fun_eq_iff)

lemma facet_maps_put:
  "facet_maps_ok m \<Longrightarrow> smap_inv fs \<Longrightarrow> fs \<noteq> [] \<Longrightarrow> facet_maps_ok (smap_put k fs m)"
  by (auto simp: facet_maps_ok_def smap_put_inv smap_put_find split: if_splits)

lemma facet_maps_erase: "facet_maps_ok m \<Longrightarrow> facet_maps_ok (smap_erase k m)"
  by (auto simp: facet_maps_ok_def smap_erase_inv smap_erase_find split: if_splits)

lemma facets_of_ok: "facet_maps_ok m \<Longrightarrow> smap_inv (facets_of m i) \<and> (facets_of m i = [] \<longleftrightarrow> smap_find m i = None)"
  by (auto simp: facet_maps_ok_def facets_of_def split: option.splits)

lemma the_facets: "smap_find m i \<noteq> None \<Longrightarrow> the (smap_find m i) = facets_of m i"
  by (auto simp: facets_of_def)

lemma smap_erase_put: "smap_inv m \<Longrightarrow> smap_erase k (smap_put k v m) = smap_erase k m"
  by (rule sorted_alist_unique)
    (simp_all add: smap_erase_inv smap_put_inv smap_erase_find smap_put_find smap_inv_def [symmetric])

lemma erase_ident_inv: "manager_inv s \<Longrightarrow> manager_inv (erase_ident k s)"
  using hint_ok_erase [of "servantMapMapHint s" "servantMapMap s" k]
  by (simp add: manager_inv_def erase_ident_def facet_maps_erase)

lemma registry_of_erase_ident: "registry_of (erase_ident k s) = (registry_of s)\<lparr>servants := (servants (registry_of s))(k := Map.empty)\<rparr>"
  by (auto simp: registry_of_def erase_ident_def facets_of_erase fun_eq_iff)

lemma registry_simps [simp]:
  "alive (registry_of s) = instance_set s" "servants (registry_of s) i = map_of (facets_of (servantMapMap s) i)"
  "defaults (registry_of s) = map_of (defaultServantMap s)" "locators (registry_of s) = map_of (locatorMap s)"
  by (simp_all add: registry_of_def)

lemma map_of_empty_iff [simp]: "map_of xs = Map.empty \<longleftrightarrow> xs = []"
  by (cases xs) (auto simp: fun_eq_iff split: if_splits)

lemma manager_invD:
  assumes "manager_inv s"
  shows "locate (servantMapMapHint s) i (servantMapMap s) = Inr (if facets_of (servantMapMap s) i = [] then None else Some i)"
    "facets_of (servantMapMap s) i \<noteq> [] \<Longrightarrow> smap_find (servantMapMap s) i = Some (facets_of (servantMapMap s) i)"
  using assms locate_ok [of "servantMapMapHint s" "servantMapMap s" i] facets_of_ok [of "servantMapMap s" i]
  by (auto simp: manager_inv_def facets_of_def split: option.splits)

lemma manager_inv_locators:
  "manager_inv s \<Longrightarrow>
     locate (locatorMapHint s) k (locatorMap s) = Inr (if smap_find (locatorMap s) k = None then None else Some k)"
  by (simp add: manager_inv_def locate_ok)

definition simulated :: "char converter option \<Rightarrow> ('o, 'l) operation \<Rightarrow> ('o, 'l) response \<times> ('o, 'l) servant_manager \<Rightarrow>
    ('o, 'l) servant_manager \<Rightarrow> bool" where
  "simulated c op rs s \<longleftrightarrow> manager_inv (snd rs) \<and> spec c op (registry_of s) = (fst rs, registry_of (snd rs))"

lemma addServant_simulated:
  assumes inv: "manager_inv s"
  shows "simulated c (AddServant ob i f) (exec c d n (AddServant ob i f) s) s"
proof (cases "instance_set s \<and> smap_find (facets_of (servantMapMap s) i) f = None")
  case True
  let ?fs = "facets_of (servantMapMap s) i"
  let ?s = "s\<lparr>servantMapMap := smap_put i (smap_put f ob ?fs) (servantMapMap s), servantMapMapHint := Some i\<rparr>"
  have "exec c d n (AddServant ob i f) s = (Done, ?s)"
    using True manager_invD [OF inv, of i] by (simp add: addServant_def respond_def Let_def)
  moreover have fs: "smap_inv ?fs" "smap_inv (servantMapMap s)"
    using inv facets_of_ok [of "servantMapMap s" i] by (auto simp: manager_inv_def facet_maps_ok_def)
  moreover have "smap_put f ob ?fs \<noteq> []" using set_smap_put [of f ob ?fs] by (cases "smap_put f ob ?fs") auto
  ultimately show ?thesis
    using inv True facet_maps_put [of "servantMapMap s" "smap_put f ob ?fs" i]
    by (auto simp: simulated_def manager_inv_def registry_of_def facets_of_put smap_put_inv smap_put_find fun_eq_iff)
next
  case False
  then show ?thesis
    using inv manager_invD [OF inv, of i] by (auto simp: simulated_def addServant_def respond_def Let_def)
qed

lemma removeServant_simulated:
  assumes inv: "manager_inv s"
  shows "simulated c (RemoveServant i f) (exec c d n (RemoveServant i f) s) s"
proof (cases "instance_set s \<and> smap_find (facets_of (servantMapMap s) i) f \<noteq> None")
  case True
  let ?fs = "facets_of (servantMapMap s) i"
  let ?s1 = "s\<lparr>servantMapMap := smap_put i (smap_erase f ?fs) (servantMapMap s)\<rparr>"
  let ?s = "if smap_erase f ?fs = [] then erase_ident i ?s1 else ?s1"
  have ne: "?fs \<noteq> []" using True by auto
  have e: "exec c d n (RemoveServant i f) s = (AServant (smap_find ?fs f), ?s)"
    using True ne manager_invD [OF inv, of i] by (auto simp: removeServant_def respond_def Let_def)
  have fs: "smap_inv ?fs" "smap_inv (servantMapMap s)" "facet_maps_ok (servantMapMap s)"
    using inv facets_of_ok [of "servantMapMap s" i] by (auto simp: manager_inv_def facet_maps_ok_def)
  have abs: "registry_of ?s = (registry_of s)\<lparr>servants := (servants (registry_of s))(i := (map_of ?fs)(f := None))\<rparr>"
  proof (cases "smap_erase f ?fs = []")
    case True
    then have "(map_of ?fs)(f := None) = Map.empty" using smap_erase_find [of f ?fs] by simp
    with True fs show ?thesis
      by (simp add: registry_of_erase_ident) (auto simp: registry_of_def facets_of_put fun_eq_iff)
  next
    case False
    with fs show ?thesis by (auto simp: registry_of_def facets_of_put smap_erase_find fun_eq_iff)
  qed
  have "manager_inv ?s"
  proof (cases "smap_erase f ?fs = []")
    case True
    have "hint_ok (servantMapMapHint s) (smap_put i [] (servantMapMap s))"
      using inv fs by (simp add: manager_inv_def hint_ok_put)
    from hint_ok_erase [OF this, of i] show ?thesis
      using True inv fs facet_maps_erase [of "servantMapMap s" i]
      by (auto simp add: manager_inv_def erase_ident_def smap_erase_put)
  next
    case False
    with inv fs show ?thesis by (simp add: manager_inv_def facet_maps_put smap_erase_inv hint_ok_put)
  qed
  then show ?thesis unfolding simulated_def e using True abs by simp
next
  case False
  then show ?thesis
    using inv manager_invD [OF inv, of i] by (auto simp: simulated_def removeServant_def respond_def Let_def split: option.splits)
qed

lemma lookup_simulated:
  assumes inv: "manager_inv s"
  shows "simulated c (FindServant i f) (exec c d n (FindServant i f) s) s"
    "simulated c (FindAllFacets i) (exec c d n (FindAllFacets i) s) s"
    "simulated c (HasServant i) (exec c d n (HasServant i) s) s"
    "simulated c (FindDefaultServant cat) (exec c d n (FindDefaultServant cat) s) s"
    "simulated c (FindServantLocator cat) (exec c d n (FindServantLocator cat) s) s"
proof -
  have hint: "manager_inv (s\<lparr>servantMapMapHint := Some i\<rparr>)" if "facets_of (servantMapMap s) i \<noteq> []"
    using inv manager_invD(2) [OF inv that] by (simp add: manager_inv_def)
  have lhint: "manager_inv (s\<lparr>locatorMapHint := Some cat\<rparr>)" if "smap_find (locatorMap s) cat \<noteq> None"
    using inv that by (simp add: manager_inv_def)
  have same: "registry_of (s\<lparr>servantMapMapHint := h\<rparr>) = registry_of s" "registry_of (s\<lparr>locatorMapHint := h'\<rparr>) = registry_of s" for h h'
    by (simp_all add: registry_of_def)
  note D = manager_invD [OF inv, of i] manager_inv_locators [OF inv, of cat]
  show "simulated c (FindServant i f) (exec c d n (FindServant i f) s) s"
    using inv D(1,2) hint
    by (cases "facets_of (servantMapMap s) i = []")
      (auto simp: simulated_def findServant_def respond_def default_servant_def same split: option.splits)
  show "simulated c (FindAllFacets i) (exec c d n (FindAllFacets i) s) s"
    using inv D(1,2) hint by (auto simp: simulated_def findAllFacets_def respond_def same)
  show "simulated c (HasServant i) (exec c d n (HasServant i) s) s"
    using inv D(1,2) hint by (auto simp: simulated_def hasServant_def respond_def same)
  show "simulated c (FindDefaultServant cat) (exec c d n (FindDefaultServant cat) s) s"
    using inv by (simp add: simulated_def findDefaultServant_def)
  show "simulated c (FindServantLocator cat) (exec c d n (FindServantLocator cat) s) s"
    using inv D(3) lhint by (auto simp: simulated_def findServantLocator_def respond_def same)
qed

lemma update_simulated:
  assumes inv: "manager_inv s"
  shows "simulated c (AddDefaultServant ob cat) (exec c d n (AddDefaultServant ob cat) s) s"
    "simulated c (RemoveDefaultServant cat) (exec c d n (RemoveDefaultServant cat) s) s"
    "simulated c (RemoveAllFacets i) (exec c d n (RemoveAllFacets i) s) s"
    "simulated c (AddServantLocator l cat) (exec c d n (AddServantLocator l cat) s) s"
    "simulated c (RemoveServantLocator cat) (exec c d n (RemoveServantLocator cat) s) s"
    "simulated c Destroy (exec c d n Destroy s) s"
proof -
  note D = manager_invD [OF inv, of i] manager_inv_locators [OF inv, of cat]
  have sorted: "smap_inv (defaultServantMap s)" "smap_inv (locatorMap s)" using inv by (simp_all add: manager_inv_def)
  show "simulated c (AddDefaultServant ob cat) (exec c d n (AddDefaultServant ob cat) s) s"
    using inv sorted
    by (auto simp: simulated_def addDefaultServant_def respond_def manager_inv_def smap_put_inv registry_of_def smap_put_find)
  show "simulated c (RemoveDefaultServant cat) (exec c d n (RemoveDefaultServant cat) s) s"
    using inv sorted
    by (auto simp: simulated_def removeDefaultServant_def respond_def manager_inv_def smap_erase_inv registry_of_def
        smap_erase_find split: option.splits)
  show "simulated c (RemoveAllFacets i) (exec c d n (RemoveAllFacets i) s) s"
    using inv D(1,2) erase_ident_inv [OF inv, of i]
    by (auto simp: simulated_def removeAllFacets_def respond_def registry_of_erase_ident)
  show "simulated c (AddServantLocator l cat) (exec c d n (AddServantLocator l cat) s) s"
    using inv sorted D(3)
    by (auto simp: simulated_def addServantLocator_def respond_def manager_inv_def smap_put_inv registry_of_def smap_put_find)
  have first: "hint_ok (case m of [] \<Rightarrow> None | (k, v) # r \<Rightarrow> Some k) m" for m :: "(string \<times> 'l) list"
    by (cases m) auto
  have "manager_inv (s\<lparr>locatorMap := smap_erase cat (locatorMap s),
     locatorMapHint := (case smap_erase cat (locatorMap s) of [] \<Rightarrow> None | (k, v) # r \<Rightarrow> Some k)\<rparr>)"
    using inv sorted first [of "smap_erase cat (locatorMap s)"] by (simp add: manager_inv_def smap_erase_inv)
  then show "simulated c (RemoveServantLocator cat) (exec c d n (RemoveServantLocator cat) s) s"
    using inv D(3)
    by (auto simp: simulated_def removeServantLocator_def respond_def registry_of_def smap_erase_find Let_def)
  show "simulated c Destroy (exec c d n Destroy s) s"
    using inv by (auto simp: simulated_def destroy_def respond_def manager_inv_def registry_of_def facets_of_def facet_maps_ok_def)
qed

lemma exec_simulated: "manager_inv s \<Longrightarrow> simulated c op (exec c d n op s) s"
  by (cases op) (simp_all only: addServant_simulated removeServant_simulated lookup_simulated update_simulated)

interpretation sm: simulation "exec conv deact nm" "spec conv" registry_of manager_inv for conv deact nm
  by unfold_locales (simp_all add: exec_simulated [unfolded simulated_def])

lemma manager_inv_new: "manager_inv servant_manager_new"
  by (simp add: manager_inv_def servant_manager_new_def facet_maps_ok_def)

definition registry_new :: "('o, 'l) registry" where
  "registry_new = \<lparr>alive = True, servants = (\<lambda>_. Map.empty), defaults = Map.empty, locators = Map.empty\<rparr>"

lemma registry_of_new: "registry_of servant_manager_new = registry_new"
  by (simp add: registry_of_def servant_manager_new_def registry_new_def facets_of_def)

text \<open>
  C39. For every sequence of operations on a new servant manager, from any converter and with locators that may
  throw, the manager answers exactly like the registry of three maps, exceptions included: the iterators kept as
  hints only save searches, and moving them on erasure keeps them usable.
\<close>

theorem servant_manager_refines:
  "run_steps (spec c) ops registry_new =
     (fst (run_steps (exec c d n) ops servant_manager_new), registry_of (snd (run_steps (exec c d n) ops servant_manager_new)))"
  using sm.run_simulates [OF manager_inv_new, where conv = c and deact = d and nm = n and ops = ops] by (simp add: registry_of_new)

lemma spec_not_dangling: "fst (spec c op a) \<noteq> Failed DanglingIterator"
  by (cases op) (auto simp: servant_exception_def split: sum.splits)

lemma run_spec_not_dangling: "Failed DanglingIterator \<notin> set (fst (run_steps (spec c) ops a))"
proof (induction ops arbitrary: a)
  case (Cons op ops)
  then show ?case using spec_not_dangling [of c op a] by (auto simp: Let_def split: prod.splits) (metis fst_conv)
qed simp

text \<open>
  C40. Invariant of the servant manager: after every sequence of operations the maps are ordered, no identity has an
  empty facet map, and both hints point to elements of their maps or to the end; consequently no operation
  in the sequence dereferenced a dangling iterator.
\<close>

theorem servant_manager_invariant:
  "manager_inv (snd (run_steps (exec c d n) ops servant_manager_new)) \<and>
   Failed DanglingIterator \<notin> set (fst (run_steps (exec c d n) ops servant_manager_new))"
proof -
  note run = sm.run_simulates [OF manager_inv_new, where conv = c and deact = d and nm = n and ops = ops]
  then have "fst (run_steps (exec c d n) ops servant_manager_new) = fst (run_steps (spec c) ops (registry_of servant_manager_new))"
    by simp
  then show ?thesis using run run_spec_not_dangling [of c ops "registry_of servant_manager_new"] by simp
qed

text \<open>
  \<open>destroy\<close> calls \<^verbatim>\<open>deactivate\<close> once for every registered locator, in the order of the categories and
  whatever the earlier calls throw, logs exactly the calls that throw, and afterwards the
  operations that need the instance fail their assertion while \<open>findServant\<close> still answers from the
  default servants.
\<close>

theorem destroy_deactivates:
  assumes "manager_inv s" "instance_set s"
  shows "\<exists>calls log s'. destroy d n s = Inr ((calls, log), s')
    \<and> map_of calls = map_of (locatorMap s) \<and> sorted_wrt (<) (map fst calls)
    \<and> length log = length (filter (\<lambda>(cat, l). d l cat \<noteq> Deactivated) calls)
    \<and> destroy d n s' = Inl ServantAssert \<and> addServant c ob i f s' = Inl ServantAssert
    \<and> findServant i f s' = Inr (default_servant (icategory i) s, s')"
proof -
  have "length (deactivate_locators d n m) = length (filter (\<lambda>(cat, l). d l cat \<noteq> Deactivated) m)" for m
    by (induction d n m rule: deactivate_locators.induct) (auto simp: Let_def split: deactivation.splits)
  moreover have "sorted_wrt (<) (map fst (locatorMap s))" using assms(1) by (simp add: manager_inv_def smap_inv_def)
  ultimately show ?thesis
    using assms(2) by (auto simp: destroy_def addServant_def findServant_def locate_def default_servant_def split: option.splits)
qed

lemma destroy_deactivates_witness:
  "\<exists>calls log s'. destroy (\<lambda>l cat. UnknownException) ''A''
      (snd (exec None (\<lambda>l cat. Deactivated) [] (AddServantLocator (7 :: nat) ''c'') (servant_manager_new :: (nat, nat) servant_manager)))
      = Inr ((calls, log), s') \<and> map_of calls ''c'' = Some 7 \<and> length log = length calls"
proof -
  let ?s = "snd (exec None (\<lambda>l cat. Deactivated) [] (AddServantLocator (7 :: nat) ''c'')
    (servant_manager_new :: (nat, nat) servant_manager))"
  have "manager_inv ?s" "instance_set ?s" "locatorMap ?s = [(''c'', 7)]"
    using exec_simulated [OF manager_inv_new, of None "AddServantLocator (7 :: nat) ''c''" "\<lambda>l cat. Deactivated" "[]"]
    by (auto simp: simulated_def) (simp_all add: respond_def addServantLocator_def locate_def servant_manager_new_def)
  from destroy_deactivates [OF this(1,2), of "\<lambda>l cat. UnknownException" "''A''" None 0 "Identity [] []" "[]"] this(3)
  show ?thesis by auto
qed

end
