(* ===== verification/Connection.thy ===== *)
theory Connection
  imports StdMap Protocol "HOL-Library.Monad_Syntax"
begin

text \<open>
  A connection: \<^verbatim>\<open>cpp/src/Ice/ConnectionI.h\<close> and \<^verbatim>\<open>cpp/src/Ice/ConnectionI.cpp\<close>, in the variant for
  selectors that report readiness (not the completion ports of Windows). The operations run under the
  connection's mutex and are functions from the state to the state they leave, with \<open>None\<close> for a
  violated \<^verbatim>\<open>assert\<close>. The transport is the environment: each call of \<^verbatim>\<open>read\<close> or \<^verbatim>\<open>write\<close> on the
  transceiver takes its outcome from the arguments. Visible effects on the callers, the thread pool and the
  reaper are recorded in the state. Instrumentation (observers, tracing) is left out.
\<close>

section \<open>State\<close>

datatype conn_state =
    StateNotInitialized | StateNotValidated | StateActive | StateHolding | StateClosing | StateClosed | StateFinished

fun state_rank :: "conn_state \<Rightarrow> nat" where
  "state_rank StateNotInitialized = 0" | "state_rank StateNotValidated = 1" | "state_rank StateActive = 2"
| "state_rank StateHolding = 3" | "state_rank StateClosing = 4" | "state_rank StateClosed = 5" | "state_rank StateFinished = 6"

lemma state_rank_inject: "state_rank x = state_rank y \<longleftrightarrow> x = y"
  by (cases x; cases y) simp_all

instantiation conn_state :: linorder
begin

definition less_eq_conn_state :: "conn_state \<Rightarrow> conn_state \<Rightarrow> bool" where
  "less_eq_conn_state x y \<longleftrightarrow> state_rank x \<le> state_rank y"

definition less_conn_state :: "conn_state \<Rightarrow> conn_state \<Rightarrow> bool" where
  "less_conn_state x y \<longleftrightarrow> state_rank x < state_rank y"

instance
  by standard (auto simp: less_eq_conn_state_def less_conn_state_def state_rank_inject)

end

lemmas state_order = less_eq_conn_state_def less_conn_state_def

datatype local_exception =
    CloseConnectionException | ForcedCloseConnectionException | ConnectionTimeoutException
  | CommunicatorDestroyedException | ObjectAdapterDeactivatedException | ConnectionLostException
  | ConnectTimeoutException | TimeoutException | CloseTimeoutException
  | UnknownRequestIdException | UnknownMessageException | UnmarshalOutOfBoundsException
  | BadMagicException "byte list" | UnsupportedVersionException version_error
  | ConnectionNotValidatedException | IllegalMessageSizeException | MemoryLimitException | DatagramLimitException
  | SocketException nat | CompressionException string | OtherLocalException string

text \<open>What a call on the transceiver does; \<open>ReadDone\<close> carries the bytes that fill the buffer.\<close>

datatype write_result = WriteDone | WriteBlocked | WriteFailed local_exception

datatype read_result = ReadDone "byte list" | ReadBlocked | ReadFailed local_exception

datatype socket_operation = OpRead | OpWrite | OpReadWrite

datatype init_result = InitDone | InitWait socket_operation | InitFailed local_exception

text \<open>A message to be sent: its stream, who waits for it, and the flags of \<^verbatim>\<open>OutgoingMessage\<close>.\<close>

datatype 'o caller = NoCaller | Sync 'o | Async 'o

record 'o message =
  m_stream :: "byte list"
  m_caller :: "'o caller"
  m_compress :: bool
  m_requestId :: int
  m_isSent :: bool

text \<open>How an invocation ends: with the reply, or with an exception and whether the request counts as sent.\<close>

datatype completion = GotReply "byte list" | GotException local_exception bool

text \<open>The status codes of the compression library.\<close>

datatype bz_error =
    BZ_RUN_OK | BZ_FLUSH_OK | BZ_FINISH_OK | BZ_STREAM_END | BZ_CONFIG_ERROR | BZ_SEQUENCE_ERROR | BZ_PARAM_ERROR | BZ_MEM_ERROR
  | BZ_DATA_ERROR | BZ_DATA_ERROR_MAGIC | BZ_IO_ERROR | BZ_UNEXPECTED_EOF | BZ_OUTBUFF_FULL | BZ_OTHER int

text \<open>
  What does not change: properties of the endpoint, settings, and the code the connection calls. \<open>bzCompress\<close> and
  \<open>bzDecompress\<close> are the two functions of the compression library, with the capacity of the output buffer as first argument;
  \<open>reply_error\<close> is the exception with which a waiting \<^verbatim>\<open>Outgoing\<close> refuses a malformed reply.
\<close>

record 'o config =
  datagram :: bool
  has_adapter :: bool
  warn_connections :: bool
  acm_enabled :: bool
  batchAutoFlush :: bool
  messageSizeMax :: int
  connectTimeout :: int
  endpointTimeout :: int
  closeTimeout :: int
  bzCompress :: "nat \<Rightarrow> byte list \<Rightarrow> bz_error + byte list"
  bzDecompress :: "nat \<Rightarrow> byte list \<Rightarrow> bz_error + byte list"
  sent_callback :: "'o \<Rightarrow> bool"
  reply_error :: "byte list \<Rightarrow> local_exception option"

record 'o connection =
  state :: conn_state
  except :: "local_exception option"
  validated :: bool
  shutdownInitiated :: bool
  dispatchCount :: int
  nextRequestId :: int
  requests :: "(int \<times> 'o) list"
  requestsHint :: "int option"
  asyncRequests :: "(int \<times> 'o) list"
  asyncRequestsHint :: "int option"
  sendStreams :: "'o message list"
  writeStream :: "byte list"
  writeAtEnd :: bool
  readStream :: "byte list"
  readPos :: nat
  readAtEnd :: bool
  readHeader :: bool
  startCallback :: bool
  readTimeoutScheduled :: bool
  writeTimeoutScheduled :: bool
  readRegistered :: bool
  writeRegistered :: bool
  poolFinish :: bool
  monitored :: bool
  transceiverClosed :: bool
  reaped :: nat
  warned :: "local_exception list"
  wire :: "byte list list"
  sent_to :: "'o list"
  completed :: "('o \<times> completion) list"

definition connection_new :: "'o connection" where
  "connection_new = \<lparr>state = StateNotInitialized, except = None, validated = False, shutdownInitiated = False,
     dispatchCount = 0, nextRequestId = 1, requests = [], requestsHint = None, asyncRequests = [],
     asyncRequestsHint = None, sendStreams = [], writeStream = [], writeAtEnd = True, readStream = [], readPos = 0, readAtEnd = True,
     readHeader = False, startCallback = False, readTimeoutScheduled = False, writeTimeoutScheduled = False,
     readRegistered = False, writeRegistered = False, poolFinish = False, monitored = False, transceiverClosed = False,
     reaped = 0, warned = [], wire = [], sent_to = [], completed = []\<rparr>"

text \<open>\<^verbatim>\<open>assert\<close>.\<close>

definition ensure :: "bool \<Rightarrow> unit option" where
  "ensure b = (if b then Some () else None)"

lemma ensure_simps [simp]: "ensure True = Some ()" "ensure False = None"
  by (simp_all add: ensure_def)

lemma ensure_Some_iff [simp]: "ensure b = Some u \<longleftrightarrow> b"
  by (simp add: ensure_def)

section \<open>Timeouts\<close>

fun reads :: "socket_operation \<Rightarrow> bool" where
  "reads OpRead = True" | "reads OpWrite = False" | "reads OpReadWrite = True"

fun writes :: "socket_operation \<Rightarrow> bool" where
  "writes OpRead = False" | "writes OpWrite = True" | "writes OpReadWrite = True"

definition scheduleTimeout :: "socket_operation \<Rightarrow> int \<Rightarrow> 'o connection \<Rightarrow> 'o connection" where
  "scheduleTimeout op t c =
     (if t < 0 then c
      else c\<lparr>readTimeoutScheduled := readTimeoutScheduled c \<or> reads op,
             writeTimeoutScheduled := writeTimeoutScheduled c \<or> writes op\<rparr>)"

definition unscheduleTimeout :: "socket_operation \<Rightarrow> 'o connection \<Rightarrow> 'o connection" where
  "unscheduleTimeout op c =
     c\<lparr>readTimeoutScheduled := readTimeoutScheduled c \<and> \<not> reads op,
       writeTimeoutScheduled := writeTimeoutScheduled c \<and> \<not> writes op\<rparr>"

section \<open>Changing the state\<close>

text \<open>
  The switch of \<open>setState\<close>: \<open>Some None\<close> is the early return, and the effects are those on the thread pool
  and the transceiver.
\<close>

definition switch_state :: "conn_state \<Rightarrow> 'o connection \<Rightarrow> 'o connection option option" where
  "switch_state st c =
     (case st of
        StateNotInitialized \<Rightarrow> None
      | StateNotValidated \<Rightarrow>
          if state c \<noteq> StateNotInitialized then (if state c = StateClosed then Some None else None) else Some (Some c)
      | StateActive \<Rightarrow>
          if state c \<noteq> StateHolding \<and> state c \<noteq> StateNotValidated then Some None
          else Some (Some (c\<lparr>readRegistered := True\<rparr>))
      | StateHolding \<Rightarrow>
          if state c \<noteq> StateActive \<and> state c \<noteq> StateNotValidated then Some None
          else Some (Some (if state c = StateActive then c\<lparr>readRegistered := False\<rparr> else c))
      | StateClosing \<Rightarrow>
          if state c \<ge> StateClosed then Some None
          else Some (Some (if state c = StateHolding then c\<lparr>readRegistered := True\<rparr> else c))
      | StateClosed \<Rightarrow>
          if state c = StateFinished then Some None else Some (Some (c\<lparr>poolFinish := True\<rparr>))
      | StateFinished \<Rightarrow>
          if state c \<noteq> StateClosed then None else Some (Some (c\<lparr>transceiverClosed := True\<rparr>)))"

text \<open>The requested state after the two shortcuts from closing to closed.\<close>

definition target_state :: "'o config \<Rightarrow> conn_state \<Rightarrow> 'o connection \<Rightarrow> conn_state" where
  "target_state cfg st c =
     (if st = StateClosing \<and> (datagram cfg \<or> state c \<le> StateNotValidated) then StateClosed else st)"

text \<open>\<open>setState\<close> up to the point where the new state is in force; the flag says whether it switched.\<close>

definition enter_state :: "'o config \<Rightarrow> conn_state \<Rightarrow> 'o connection \<Rightarrow> (bool \<times> 'o connection) option" where
  "enter_state cfg st c =
     (let st' = target_state cfg st c
      in if state c = st' then Some (False, c)
         else
           (case switch_state st' c of
              None \<Rightarrow> None
            | Some None \<Rightarrow> Some (False, c)
            | Some (Some c1) \<Rightarrow>
                Some (True,
                  c1\<lparr>monitored := (if acm_enabled cfg then st' = StateActive \<or> (monitored c1 \<and> state c \<noteq> StateActive)
                       else monitored c1),
                     state := st'\<rparr>)))"

text \<open>Setting the exception, with its warning.\<close>

definition expected_exception :: "conn_state \<Rightarrow> local_exception \<Rightarrow> bool" where
  "expected_exception st ex \<longleftrightarrow>
     ex \<in> {CloseConnectionException, ForcedCloseConnectionException, ConnectionTimeoutException,
       CommunicatorDestroyedException, ObjectAdapterDeactivatedException} \<or>
     (ex = ConnectionLostException \<and> st = StateClosing)"

definition set_exception :: "'o config \<Rightarrow> local_exception \<Rightarrow> 'o connection \<Rightarrow> 'o connection option" where
  "set_exception cfg ex c =
     (if except c = None then
        do {
          _ \<leftarrow> ensure (state c \<noteq> StateClosed);
          Some (c\<lparr>except := Some ex,
            warned := (if warn_connections cfg \<and> validated c \<and> \<not> expected_exception (state c) ex
              then warned c @ [ex] else warned c)\<rparr>)
        }
      else Some c)"

text \<open>\<^verbatim>\<open>setState(StateClosed, ex)\<close>.\<close>

definition close_with :: "'o config \<Rightarrow> local_exception \<Rightarrow> 'o connection \<Rightarrow> 'o connection option" where
  "close_with cfg ex c =
     (if state c = StateClosed then Some c
      else do {
        c1 \<leftarrow> set_exception cfg ex c;
        (_, c2) \<leftarrow> enter_state cfg StateClosed c1;
        Some c2
      })"

section \<open>Compression\<close>

fun getBZ2Error :: "bz_error \<Rightarrow> string" where
  "getBZ2Error BZ_RUN_OK = '': BZ_RUN_OK''"
| "getBZ2Error BZ_FLUSH_OK = '': BZ_FLUSH_OK''"
| "getBZ2Error BZ_FINISH_OK = '': BZ_FINISH_OK''"
| "getBZ2Error BZ_STREAM_END = '': BZ_STREAM_END''"
| "getBZ2Error BZ_CONFIG_ERROR = '': BZ_CONFIG_ERROR''"
| "getBZ2Error BZ_SEQUENCE_ERROR = '': BZ_SEQUENCE_ERROR''"
| "getBZ2Error BZ_PARAM_ERROR = '': BZ_PARAM_ERROR''"
| "getBZ2Error BZ_MEM_ERROR = '': BZ_MEM_ERROR''"
| "getBZ2Error BZ_DATA_ERROR = '': BZ_DATA_ERROR''"
| "getBZ2Error BZ_DATA_ERROR_MAGIC = '': BZ_DATA_ERROR_MAGIC''"
| "getBZ2Error BZ_IO_ERROR = '': BZ_IO_ERROR''"
| "getBZ2Error BZ_UNEXPECTED_EOF = '': BZ_UNEXPECTED_EOF''"
| "getBZ2Error BZ_OUTBUFF_FULL = '': BZ_OUTBUFF_FULL''"
| "getBZ2Error (BZ_OTHER n) = []"

text \<open>
  \<open>doCompress\<close> compresses the body, puts the size of the whole message before it and copies the header, in which the size
  of the compressed message has been filled in. The capacity is the truncated \<^verbatim>\<open>uncompressedLen * 1.01 + 600\<close>.
\<close>

definition doCompress :: "'o config \<Rightarrow> byte list \<Rightarrow> local_exception + byte list" where
  "doCompress cfg uncompressed =
     (let uncompressedLen = length uncompressed - headerSize;
          compressedLen = (uncompressedLen * 101) div 100 + 600
      in case bzCompress cfg compressedLen (drop headerSize uncompressed) of
           Inl bzError \<Rightarrow> Inl (CompressionException (''BZ2_bzBuffToBuffCompress failed'' @ getBZ2Error bzError))
         | Inr z \<Rightarrow>
             (let compressed = replicate (headerSize + 4) 0 @ z;
                  uncompressed1 = memcpy_at uncompressed 10 (nat_to_le 4 (length compressed));
                  compressed1 = memcpy_at compressed headerSize (nat_to_le 4 (length uncompressed))
              in Inr (memcpy_at compressed1 0 (take headerSize uncompressed1))))"

text \<open>A signed 32-bit integer in a buffer.\<close>

definition int_at :: "byte list \<Rightarrow> nat \<Rightarrow> int" where
  "int_at b pos = sint (word_of_nat (le_to_nat (take 4 (drop pos b))) :: int32)"

definition doUncompress :: "'o config \<Rightarrow> byte list \<Rightarrow> local_exception + byte list" where
  "doUncompress cfg compressed =
     (if length compressed < headerSize + 4 then Inl UnmarshalOutOfBoundsException
      else
        (let uncompressedSize = int_at compressed headerSize
         in if uncompressedSize \<le> int headerSize then Inl IllegalMessageSizeException
            else if uncompressedSize > messageSizeMax cfg then Inl MemoryLimitException
            else
              (let uncompressedLen = nat uncompressedSize - headerSize
               in case bzDecompress cfg uncompressedLen (drop (headerSize + 4) compressed) of
                    Inl bzError \<Rightarrow> Inl (CompressionException (''BZ2_bzBuffToBuffCompress failed'' @ getBZ2Error bzError))
                  | Inr d \<Rightarrow>
                      Inr (memcpy_at (memcpy_at (replicate (nat uncompressedSize) 0) headerSize d) 0 (take headerSize compressed)))))"

section \<open>Sending\<close>

text \<open>The message as it goes to the transport: compressed, or with its size filled in.\<close>

definition fill_size :: "byte list \<Rightarrow> byte list" where
  "fill_size b = memcpy_at b 10 (nat_to_le 4 (length b))"

definition prepare :: "'o config \<Rightarrow> 'o message \<Rightarrow> (local_exception + byte list) option" where
  "prepare cfg m =
     do {
       _ \<leftarrow> ensure (headerSize \<le> length (m_stream m));
       Some (if m_compress m \<and> length (m_stream m) \<ge> 100 then doCompress cfg ((m_stream m)[9 := 2])
             else Inr (fill_size (if m_compress m then (m_stream m)[9 := 1] else m_stream m)))
     }"

text \<open>\<^verbatim>\<open>OutgoingMessage::sent\<close>: the caller is told, and the result is whether a sent callback is to be called.\<close>

definition message_sent :: "'o config \<Rightarrow> 'o message \<Rightarrow> 'o connection \<Rightarrow> bool \<times> 'o connection" where
  "message_sent cfg m c =
     (case m_caller m of
        NoCaller \<Rightarrow> (False, c)
      | Sync q \<Rightarrow> (False, c\<lparr>sent_to := sent_to c @ [q]\<rparr>)
      | Async q \<Rightarrow> (sent_callback cfg q, c\<lparr>sent_to := sent_to c @ [q]\<rparr>))"

datatype async_status = AsyncStatusQueued | AsyncStatusSent bool

definition sendMessage :: "'o config \<Rightarrow> write_result \<Rightarrow> 'o message \<Rightarrow> 'o connection \<Rightarrow>
    ((local_exception + async_status) \<times> 'o connection) option" where
  "sendMessage cfg io m c =
     do {
       _ \<leftarrow> ensure (state c < StateClosed);
       if sendStreams c \<noteq> [] then Some (Inr AsyncStatusQueued, c\<lparr>sendStreams := sendStreams c @ [m]\<rparr>)
       else do {
         p \<leftarrow> prepare cfg m;
         case p of
           Inl ex \<Rightarrow> Some (Inl ex, c)
         | Inr bytes \<Rightarrow>
             (case io of
                WriteFailed ex \<Rightarrow> Some (Inl ex, c)
              | WriteDone \<Rightarrow>
                  (let (cb, c1) = message_sent cfg m (c\<lparr>wire := wire c @ [bytes]\<rparr>)
                   in Some (Inr (AsyncStatusSent cb), c1))
              | WriteBlocked \<Rightarrow>
                  Some (Inr AsyncStatusQueued,
                    (scheduleTimeout OpWrite (endpointTimeout cfg)
                       (c\<lparr>sendStreams := [m\<lparr>m_stream := writeStream c\<rparr>], writeStream := bytes, writeAtEnd := False\<rparr>))
                    \<lparr>writeRegistered := True\<rparr>))
       }
     }"

text \<open>The header of the messages the connection itself sends.\<close>

definition control_message :: "byte \<Rightarrow> byte \<Rightarrow> byte list" where
  "control_message msgType compress =
     magic @ [protocolMajor, protocolMinor, protocolEncodingMajor, protocolEncodingMinor, msgType, compress] @
     nat_to_le 4 headerSize"

definition initiateShutdown :: "'o config \<Rightarrow> write_result \<Rightarrow> 'o connection \<Rightarrow>
    ((local_exception + unit) \<times> 'o connection) option" where
  "initiateShutdown cfg io c =
     do {
       _ \<leftarrow> ensure (state c = StateClosing \<and> dispatchCount c = 0 \<and> \<not> shutdownInitiated c);
       (let c1 = c\<lparr>shutdownInitiated := True\<rparr>
        in if datagram cfg then Some (Inr (), c1)
           else do {
             (r, c2) \<leftarrow> sendMessage cfg io \<lparr>m_stream = control_message closeConnectionMsg 1, m_caller = NoCaller,
               m_compress = False, m_requestId = 0, m_isSent = False\<rparr> c1;
             Some (case r of
                Inl ex \<Rightarrow> (Inl ex, c2)
              | Inr (AsyncStatusSent _) \<Rightarrow> (Inr (), scheduleTimeout OpWrite (closeTimeout cfg) c2)
              | Inr AsyncStatusQueued \<Rightarrow> (Inr (), c2))
           })
     }"

definition shutdown_or_close :: "'o config \<Rightarrow> write_result \<Rightarrow> 'o connection \<Rightarrow> 'o connection option" where
  "shutdown_or_close cfg io c =
     do {
       (r, c1) \<leftarrow> initiateShutdown cfg io c;
       case r of Inr _ \<Rightarrow> Some c1 | Inl ex \<Rightarrow> close_with cfg ex c1
     }"

definition setState :: "'o config \<Rightarrow> write_result \<Rightarrow> conn_state \<Rightarrow> 'o connection \<Rightarrow> 'o connection option" where
  "setState cfg io st c =
     do {
       (switched, c1) \<leftarrow> enter_state cfg st c;
       if switched \<and> state c1 = StateClosing \<and> dispatchCount c1 = 0 then shutdown_or_close cfg io c1 else Some c1
     }"

definition setState_ex :: "'o config \<Rightarrow> write_result \<Rightarrow> conn_state \<Rightarrow> local_exception \<Rightarrow> 'o connection \<Rightarrow>
    'o connection option" where
  "setState_ex cfg io st ex c =
     do {
       _ \<leftarrow> ensure (st \<ge> StateClosing);
       if state c = st then Some c
       else do {
         c1 \<leftarrow> set_exception cfg ex c;
         setState cfg io st c1
       }
     }"

section \<open>Operations of the communicator and the object adapter\<close>

definition activate :: "'o config \<Rightarrow> 'o connection \<Rightarrow> 'o connection option" where
  "activate cfg c = (if state c \<le> StateNotValidated then Some c else setState cfg WriteBlocked StateActive c)"

definition hold :: "'o config \<Rightarrow> 'o connection \<Rightarrow> 'o connection option" where
  "hold cfg c = (if state c \<le> StateNotValidated then Some c else setState cfg WriteBlocked StateHolding c)"

datatype destruction_reason = ObjectAdapterDeactivated | CommunicatorDestroyed

definition destroy :: "'o config \<Rightarrow> write_result \<Rightarrow> destruction_reason \<Rightarrow> 'o connection \<Rightarrow> 'o connection option" where
  "destroy cfg io reason c =
     (case reason of
        ObjectAdapterDeactivated \<Rightarrow> setState_ex cfg io StateClosing ObjectAdapterDeactivatedException c
      | CommunicatorDestroyed \<Rightarrow> setState_ex cfg io StateClosing CommunicatorDestroyedException c)"

text \<open>
  \<open>close\<close> without force waits until no request is outstanding and goes on from there: \<open>close_ready\<close> is the
  condition of its loop.
\<close>

definition close_ready :: "bool \<Rightarrow> 'o connection \<Rightarrow> bool" where
  "close_ready force c \<longleftrightarrow> force \<or> (requests c = [] \<and> asyncRequests c = [])"

definition close :: "'o config \<Rightarrow> write_result \<Rightarrow> bool \<Rightarrow> 'o connection \<Rightarrow> 'o connection option" where
  "close cfg io force c =
     (if force then setState_ex cfg io StateClosed ForcedCloseConnectionException c
      else setState_ex cfg io StateClosing CloseConnectionException c)"

definition isActiveOrHolding :: "'o connection \<Rightarrow> bool" where
  "isActiveOrHolding c \<longleftrightarrow> state c > StateNotValidated \<and> state c < StateClosing"

definition isFinished :: "'o connection \<Rightarrow> bool" where
  "isFinished c \<longleftrightarrow> \<not> (state c \<noteq> StateFinished \<or> dispatchCount c \<noteq> 0)"

definition throwException :: "'o connection \<Rightarrow> (local_exception + unit) option" where
  "throwException c =
     (case except c of
        None \<Rightarrow> Some (Inr ())
      | Some ex \<Rightarrow> do { _ \<leftarrow> ensure (state c \<ge> StateClosing); Some (Inl ex) })"

text \<open>
  Idle connections: \<open>expired\<close> is the comparison with the clock, and \<open>batchPending\<close> whether the batch stream has data.
\<close>

definition monitor :: "'o config \<Rightarrow> write_result \<Rightarrow> bool \<Rightarrow> bool \<Rightarrow> 'o connection \<Rightarrow> 'o connection option" where
  "monitor cfg io expired batchPending c =
     (if state c \<noteq> StateActive then Some c
      else if \<not> acm_enabled cfg \<or> requests c \<noteq> [] \<or> asyncRequests c \<noteq> [] \<or> dispatchCount c > 0 \<or>
        length (readStream c) > headerSize \<or> writeStream c \<noteq> [] \<or> batchPending then Some c
      else if expired then setState_ex cfg io StateClosing ConnectionTimeoutException c
      else Some c)"

definition timedOut :: "'o config \<Rightarrow> 'o connection \<Rightarrow> 'o connection option" where
  "timedOut cfg c =
     (if state c \<le> StateNotValidated then close_with cfg ConnectTimeoutException c
      else if state c < StateClosing then close_with cfg TimeoutException c
      else if state c = StateClosing then close_with cfg CloseTimeoutException c
      else Some c)"

definition exception :: "'o config \<Rightarrow> local_exception \<Rightarrow> 'o connection \<Rightarrow> 'o connection option" where
  "exception cfg ex c = close_with cfg ex c"

section \<open>Requests\<close>

text \<open>\<^verbatim>\<open>_nextRequestId++\<close> on a 32-bit integer that wraps around.\<close>

definition incr32 :: "int \<Rightarrow> int" where
  "incr32 n = (if n = 2 ^ 31 - 1 then - (2 ^ 31) else n + 1)"

definition new_request_id :: "int \<Rightarrow> int \<times> int" where
  "new_request_id n = (if n \<le> 0 then (1, incr32 1) else (n, incr32 n))"

text \<open>\<^verbatim>\<open>map::insert\<close> keeps an entry that is already there; the iterator points to the key in both cases.\<close>

definition insert_request :: "int \<Rightarrow> 'o \<Rightarrow> (int \<times> 'o) list \<Rightarrow> (int \<times> 'o) list" where
  "insert_request k q m = (if smap_find m k = None then smap_put k q m else m)"

text \<open>
  \<open>sendRequest\<close> (\<open>async = False\<close>) and \<open>sendAsyncRequest\<close>, which differ in the map that gets the request. A
  connection that has its exception refuses with \<open>Retry\<close>; an exception of the transport or the compressor closes
  the connection. \<open>too_big\<close> is the answer of \<^verbatim>\<open>checkSendSize\<close>.
\<close>

datatype send_result = Retry local_exception | TooBig | SendFailed local_exception | SendOk async_status

definition fill_request_id :: "int \<Rightarrow> byte list \<Rightarrow> byte list" where
  "fill_request_id requestId b = memcpy_at b headerSize (nat_to_le 4 (nat requestId))"

definition send_request :: "bool \<Rightarrow> 'o config \<Rightarrow> write_result \<Rightarrow> bool \<Rightarrow> 'o \<Rightarrow> byte list \<Rightarrow> bool \<Rightarrow> bool \<Rightarrow> 'o connection \<Rightarrow>
    (send_result \<times> 'o connection) option" where
  "send_request async cfg io too_big q os compress response c =
     (case except c of
        Some ex \<Rightarrow> Some (Retry ex, c)
      | None \<Rightarrow>
          do {
            _ \<leftarrow> ensure (state c > StateNotValidated \<and> state c < StateClosing);
            if too_big then Some (TooBig, c)
            else
              (let (requestId, next) = (if response then new_request_id (nextRequestId c) else (0, nextRequestId c));
                   b = (if response then fill_request_id requestId os else os);
                   m = \<lparr>m_stream = b, m_caller = (if async then Async q else Sync q), m_compress = compress,
                     m_requestId = requestId, m_isSent = False\<rparr>
               in do {
                 (r, c1) \<leftarrow> sendMessage cfg io m (c\<lparr>nextRequestId := next\<rparr>);
                 case r of
                   Inl ex \<Rightarrow> do {
                     c2 \<leftarrow> close_with cfg ex c1;
                     ex' \<leftarrow> except c2;
                     Some (SendFailed ex', c2)
                   }
                 | Inr status \<Rightarrow>
                     Some (SendOk status,
                       if \<not> response then c1
                       else if async then c1\<lparr>asyncRequests := insert_request requestId q (asyncRequests c1),
                         asyncRequestsHint := Some requestId\<rparr>
                       else c1\<lparr>requests := insert_request requestId q (requests c1), requestsHint := Some requestId\<rparr>)
               })
          })"

definition sendRequest :: "'o config \<Rightarrow> write_result \<Rightarrow> bool \<Rightarrow> 'o \<Rightarrow> byte list \<Rightarrow> bool \<Rightarrow> bool \<Rightarrow> 'o connection \<Rightarrow>
    (send_result \<times> 'o connection) option" where
  "sendRequest = send_request False"

definition sendAsyncRequest :: "'o config \<Rightarrow> write_result \<Rightarrow> bool \<Rightarrow> 'o \<Rightarrow> byte list \<Rightarrow> bool \<Rightarrow> bool \<Rightarrow> 'o connection \<Rightarrow>
    (send_result \<times> 'o connection) option" where
  "sendAsyncRequest = send_request True"

section \<open>Dispatch\<close>

text \<open>The decrement that \<open>sendResponse\<close>, \<open>sendNoResponse\<close> and the end of \<open>dispatch\<close> share.\<close>

definition dispatch_done :: "int \<Rightarrow> 'o connection \<Rightarrow> 'o connection" where
  "dispatch_done n c =
     (let c1 = c\<lparr>dispatchCount := dispatchCount c - n\<rparr>
      in if dispatchCount c1 = 0 \<and> state c1 = StateFinished then c1\<lparr>reaped := reaped c1 + 1\<rparr> else c1)"

definition sendResponse :: "'o config \<Rightarrow> write_result \<Rightarrow> write_result \<Rightarrow> byte list \<Rightarrow> bool \<Rightarrow> 'o connection \<Rightarrow>
    'o connection option" where
  "sendResponse cfg io io' os compress c =
     do {
       _ \<leftarrow> ensure (state c > StateNotValidated);
       (let c1 = dispatch_done 1 c
        in if state c1 \<ge> StateClosed then do { ex \<leftarrow> except c1; close_with cfg ex c1 }
           else do {
             (r, c2) \<leftarrow> sendMessage cfg io \<lparr>m_stream = os, m_caller = NoCaller, m_compress = compress, m_requestId = 0,
               m_isSent = False\<rparr> c1;
             case r of
               Inl ex \<Rightarrow> close_with cfg ex c2
             | Inr _ \<Rightarrow>
                 if state c2 = StateClosing \<and> dispatchCount c2 = 0 then shutdown_or_close cfg io' c2 else Some c2
           })
     }"

definition sendNoResponse :: "'o config \<Rightarrow> write_result \<Rightarrow> 'o connection \<Rightarrow> 'o connection option" where
  "sendNoResponse cfg io c =
     do {
       _ \<leftarrow> ensure (state c > StateNotValidated);
       (let c1 = dispatch_done 1 c
        in if state c1 \<ge> StateClosed then do { ex \<leftarrow> except c1; close_with cfg ex c1 }
           else if state c1 = StateClosing \<and> dispatchCount c1 = 0 then shutdown_or_close cfg io c1
           else Some c1)
     }"

text \<open>A fatal exception while \<open>invokeNum\<close> requests of a message are still to be dispatched.\<close>

definition invokeException :: "'o config \<Rightarrow> local_exception \<Rightarrow> int \<Rightarrow> 'o connection \<Rightarrow> 'o connection option" where
  "invokeException cfg ex invokeNum c =
     do {
       c1 \<leftarrow> close_with cfg ex c;
       if invokeNum > 0 then do {
         _ \<leftarrow> ensure (dispatchCount c1 > 0 \<and> dispatchCount c1 - invokeNum \<ge> 0);
         Some (dispatch_done invokeNum c1)
       } else Some c1
     }"

text \<open>The end of \<open>dispatch\<close>, when the sent and reply callbacks have been called.\<close>

definition callbacks_done :: "'o config \<Rightarrow> write_result \<Rightarrow> 'o connection \<Rightarrow> 'o connection option" where
  "callbacks_done cfg io c =
     (let c1 = dispatch_done 1 c
      in if dispatchCount c1 = 0 \<and> state c1 = StateClosing \<and> \<not> shutdownInitiated c1
         then shutdown_or_close cfg io c1 else Some c1)"

section \<open>Messages from the transport\<close>

text \<open>
  The loop of \<open>sendNextMessage\<close>; its first argument is the queue. The front message has been written: its caller is
  told, and the next one goes out, until the transport blocks (the outcomes run out), fails, or nothing is left.
  The callers whose sent callback is to be called are collected. The first component of the result says whether
  everything was sent.
\<close>

function (sequential) send_loop :: "'o config \<Rightarrow> 'o message list \<Rightarrow> write_result list \<Rightarrow> 'o caller list \<Rightarrow> 'o connection \<Rightarrow>
    (bool \<times> 'o caller list \<times> 'o connection) option" where
  "send_loop cfg [] ios cbs c = None"
| "send_loop cfg (m # ms) ios cbs c =
     (let (cb, c1) = message_sent cfg m (c\<lparr>writeStream := m_stream m, sendStreams := ms\<rparr>);
          cbs1 = (if cb then cbs @ [m_caller m] else cbs)
      in if state c1 \<ge> StateClosed then Some (False, cbs1, c1)
         else
           (case ms of
              [] \<Rightarrow> Some (True, cbs1, c1)
            | n # ns \<Rightarrow>
                do {
                  p \<leftarrow> prepare cfg n;
                  case p of
                    Inl ex \<Rightarrow> do { c2 \<leftarrow> close_with cfg ex c1; Some (False, cbs1, c2) }
                  | Inr bytes \<Rightarrow>
                      (let n' = n\<lparr>m_stream := writeStream c1\<rparr>;
                           c2 = c1\<lparr>sendStreams := n' # ns, writeStream := bytes, writeAtEnd := False\<rparr>
                       in case ios of
                            WriteDone # rest \<Rightarrow>
                              send_loop cfg (n' # ns) rest cbs1 (c2\<lparr>writeAtEnd := True, wire := wire c2 @ [bytes]\<rparr>)
                          | WriteFailed ex # rest \<Rightarrow>
                              do { c3 \<leftarrow> close_with cfg ex c2; Some (False, cbs1, c3) }
                          | _ \<Rightarrow> Some (False, cbs1, scheduleTimeout OpWrite (endpointTimeout cfg) c2))
                }))"
  by pat_completeness auto
termination
  by (relation "measure (\<lambda>(cfg, q, ios, cbs, c). length q)") auto

definition sendNextMessage :: "'o config \<Rightarrow> write_result list \<Rightarrow> 'o connection \<Rightarrow>
    ('o caller list \<times> 'o connection) option" where
  "sendNextMessage cfg ios c =
     do {
       _ \<leftarrow> ensure (sendStreams c \<noteq> [] \<and> writeStream c \<noteq> [] \<and> writeAtEnd c);
       (all_sent, cbs, c1) \<leftarrow> send_loop cfg (sendStreams c) ios [] c;
       if all_sent then do {
         _ \<leftarrow> ensure (writeStream c1 = []);
         (let c2 = c1\<lparr>writeRegistered := False\<rparr>
          in Some (cbs, if state c2 = StateClosing then scheduleTimeout OpWrite (closeTimeout cfg) c2 else c2))
       } else Some (cbs, c1)
     }"

text \<open>The checks on a message header: the announced size, or the exception.\<close>

definition check_versions :: "byte list \<Rightarrow> local_exception + unit" where
  "check_versions b =
     (if take 4 b \<noteq> magic then Inl (BadMagicException (take 4 b))
      else
        (case checkSupportedProtocol (Version (b ! 4) (b ! 5)) of
           Inl e \<Rightarrow> Inl (UnsupportedVersionException e)
         | Inr _ \<Rightarrow>
             (case checkSupportedProtocolEncoding (Version (b ! 6) (b ! 7)) of
                Inl e \<Rightarrow> Inl (UnsupportedVersionException e)
              | Inr _ \<Rightarrow> Inr ())))"

definition check_header :: "'o config \<Rightarrow> byte list \<Rightarrow> local_exception + int" where
  "check_header cfg b =
     (if length b < headerSize then Inl IllegalMessageSizeException
      else
        (case check_versions b of
           Inl ex \<Rightarrow> Inl ex
         | Inr _ \<Rightarrow>
             if int_at b 10 < int headerSize then Inl IllegalMessageSizeException
             else if int_at b 10 > messageSizeMax cfg then Inl MemoryLimitException
             else Inr (int_at b 10)))"

text \<open>The state of the read stream before a message.\<close>

definition reset_read :: "'o connection \<Rightarrow> 'o connection" where
  "reset_read c = c\<lparr>readStream := replicate headerSize 0, readPos := 0, readAtEnd := False, readHeader := True\<rparr>"

text \<open>Completing a request that has its reply.\<close>

definition complete :: "'o \<Rightarrow> completion \<Rightarrow> 'o connection \<Rightarrow> 'o connection" where
  "complete q r c = c\<lparr>completed := completed c @ [(q, r)]\<rparr>"

text \<open>
  Which request a reply belongs to: the hints first, then the two maps. \<open>None\<close> is a hint whose element is
  gone; the flag of the result is true for an asynchronous request.
\<close>

definition hint_key :: "int option \<Rightarrow> (int \<times> 'o) list \<Rightarrow> int \<Rightarrow> bool option" where
  "hint_key hint m k =
     (case hint of
        None \<Rightarrow> Some False
      | Some h \<Rightarrow> if smap_find m h = None then None else Some (h = k))"

definition find_request :: "int \<Rightarrow> 'o connection \<Rightarrow> (bool \<times> 'o) option option" where
  "find_request requestId c =
     do {
       p \<leftarrow> hint_key (requestsHint c) (requests c) requestId;
       if p then Some (map_option (\<lambda>q. (False, q)) (smap_find (requests c) requestId))
       else do {
         a \<leftarrow> hint_key (asyncRequestsHint c) (asyncRequests c) requestId;
         if a then Some (map_option (\<lambda>q. (True, q)) (smap_find (asyncRequests c) requestId))
         else
           (case smap_find (requests c) requestId of
              Some q \<Rightarrow> Some (Some (False, q))
            | None \<Rightarrow> Some (map_option (\<lambda>q. (True, q)) (smap_find (asyncRequests c) requestId)))
       }
     }"

definition erase_request :: "bool \<Rightarrow> int \<Rightarrow> 'o connection \<Rightarrow> 'o connection" where
  "erase_request async k c =
     (if async then
        c\<lparr>asyncRequests := smap_erase k (asyncRequests c),
          asyncRequestsHint := (if asyncRequestsHint c = Some k then smap_next k (asyncRequests c) else asyncRequestsHint c)\<rparr>
      else
        c\<lparr>requests := smap_erase k (requests c),
          requestsHint := (if requestsHint c = Some k then smap_next k (requests c) else requestsHint c)\<rparr>)"

text \<open>
  What \<open>parseMessage\<close> hands to \<open>dispatch\<close>: the number of invocations, the request id, and the asynchronous request
  whose reply arrived.
\<close>

record 'o parsed =
  invokeNum :: int
  requestId :: int
  outAsync :: "('o \<times> byte list) option"

definition nothing_parsed :: "'o parsed" where
  "nothing_parsed = \<lparr>invokeNum = 0, requestId = 0, outAsync = None\<rparr>"

text \<open>The body of the try block of \<open>parseMessage\<close>: an exception, or what was parsed.\<close>

definition parse_body :: "'o config \<Rightarrow> byte list \<Rightarrow> 'o connection \<Rightarrow>
    ((local_exception + 'o parsed) \<times> 'o connection) option" where
  "parse_body cfg b0 c =
     (case (if b0 ! 9 = 2 then doUncompress cfg b0 else Inr b0) of
        Inl ex \<Rightarrow> Some (Inl ex, c)
      | Inr b \<Rightarrow>
          (let messageType = b0 ! 8; short = length b < headerSize + 4
           in if messageType = closeConnectionMsg then
                (if datagram cfg then Some (Inr nothing_parsed, c)
                 else do { c1 \<leftarrow> close_with cfg CloseConnectionException c; Some (Inr nothing_parsed, c1) })
              else if messageType = requestMsg then
                (if state c = StateClosing then Some (Inr nothing_parsed, c)
                 else if short then Some (Inl UnmarshalOutOfBoundsException, c)
                 else Some (Inr (nothing_parsed\<lparr>invokeNum := 1, requestId := int_at b headerSize\<rparr>),
                   c\<lparr>dispatchCount := dispatchCount c + 1\<rparr>))
              else if messageType = requestBatchMsg then
                (if state c = StateClosing then Some (Inr nothing_parsed, c)
                 else if short \<or> int_at b headerSize < 0 then Some (Inl UnmarshalOutOfBoundsException, c)
                 else Some (Inr (nothing_parsed\<lparr>invokeNum := int_at b headerSize\<rparr>),
                   c\<lparr>dispatchCount := dispatchCount c + int_at b headerSize\<rparr>))
              else if messageType = replyMsg then
                (if short then Some (Inl UnmarshalOutOfBoundsException, c)
                 else do {
                   found \<leftarrow> find_request (int_at b headerSize) c;
                   case found of
                     None \<Rightarrow> Some (Inl UnknownRequestIdException, c)
                   | Some (async, q) \<Rightarrow>
                       (let c1 = erase_request async (int_at b headerSize) c
                        in if async then Some (Inr (nothing_parsed\<lparr>requestId := int_at b headerSize, outAsync := Some (q, b)\<rparr>), c1)
                           else
                             (case reply_error cfg b of
                                Some ex \<Rightarrow> Some (Inl ex, c)
                              | None \<Rightarrow> Some (Inr (nothing_parsed\<lparr>requestId := int_at b headerSize\<rparr>), complete q (GotReply b) c1)))
                 })
              else if messageType = validateConnectionMsg then Some (Inr nothing_parsed, c)
              else Some (Inl UnknownMessageException, c)))"

definition parseMessage :: "'o config \<Rightarrow> 'o connection \<Rightarrow> ('o parsed \<times> 'o connection) option" where
  "parseMessage cfg c =
     do {
       _ \<leftarrow> ensure (state c > StateNotValidated \<and> state c < StateClosed \<and> readAtEnd c);
       _ \<leftarrow> ensure (headerSize \<le> length (readStream c));
       (r, c1) \<leftarrow> parse_body cfg (readStream c) ((reset_read c)\<lparr>validated := True\<rparr>);
       case r of
         Inr x \<Rightarrow> Some (x, c1)
       | Inl ex \<Rightarrow>
           if datagram cfg then Some (nothing_parsed, if warn_connections cfg then c1\<lparr>warned := warned c1 @ [ex]\<rparr> else c1)
           else do { c2 \<leftarrow> close_with cfg ex c1; Some (nothing_parsed, c2) }
     }"

section \<open>The event handler\<close>

text \<open>
  The stages of \<open>message\<close> go on, return, or throw an exception to its catch clauses; in each case with the state
  reached.
\<close>

datatype 'c progress = Continue 'c | Return 'c | Throw local_exception 'c

definition andThen :: "'c progress option \<Rightarrow> ('c \<Rightarrow> 'd progress option) \<Rightarrow> ('c \<Rightarrow> 'd) \<Rightarrow> 'd progress option" where
  "andThen m f stop =
     (case m of
        None \<Rightarrow> None
      | Some (Continue c) \<Rightarrow> f c
      | Some (Return c) \<Rightarrow> Some (Return (stop c))
      | Some (Throw ex c) \<Rightarrow> Some (Throw ex (stop c)))"

definition read_into :: "read_result \<Rightarrow> ('o connection \<Rightarrow> 'o connection) \<Rightarrow> 'o connection \<Rightarrow> 'o connection progress" where
  "read_into r blocked c =
     (if readAtEnd c then Continue c
      else
        (case r of
           ReadDone d \<Rightarrow> Continue (c\<lparr>readStream := take (readPos c) (readStream c) @ d, readAtEnd := True\<rparr>)
         | ReadBlocked \<Rightarrow> Return (blocked c)
         | ReadFailed ex \<Rightarrow> Throw ex c))"

definition write_from :: "write_result \<Rightarrow> ('o connection \<Rightarrow> 'o connection) \<Rightarrow> 'o connection \<Rightarrow> 'o connection progress" where
  "write_from w blocked c =
     (if writeAtEnd c then Continue c
      else
        (case w of
           WriteDone \<Rightarrow> Continue (c\<lparr>writeAtEnd := True, wire := wire c @ [writeStream c]\<rparr>)
         | WriteBlocked \<Rightarrow> Return (blocked c)
         | WriteFailed ex \<Rightarrow> Throw ex c))"

definition write_stage :: "'o config \<Rightarrow> socket_operation \<Rightarrow> write_result \<Rightarrow> 'o connection \<Rightarrow> 'o connection progress option" where
  "write_stage cfg op w c =
     Some (if writes op \<and> writeStream c \<noteq> []
       then write_from w (scheduleTimeout OpWrite (endpointTimeout cfg)) c else Continue c)"

text \<open>Reading the header, checking it and making room for the rest of the message.\<close>

definition header_stage :: "'o config \<Rightarrow> read_result \<Rightarrow> 'o connection \<Rightarrow> 'o connection progress option" where
  "header_stage cfg r c =
     (if \<not> readHeader c then Some (Continue c)
      else andThen (Some (read_into r (\<lambda>c. c) c)) (\<lambda>c1.
        case check_header cfg (readStream c1) of
          Inl ex \<Rightarrow> Some (Throw ex (c1\<lparr>readHeader := False\<rparr>))
        | Inr sz \<Rightarrow>
            (let pos = length (readStream c1)
             in Some (Continue (c1\<lparr>readHeader := False, readPos := pos,
                  readStream := readStream c1 @ replicate (nat sz - pos) 0,
                  readAtEnd := \<not> sz > int pos\<rparr>)))) (\<lambda>c. c))"

definition read_stage :: "'o config \<Rightarrow> socket_operation \<Rightarrow> read_result \<Rightarrow> read_result \<Rightarrow> 'o connection \<Rightarrow>
    'o connection progress option" where
  "read_stage cfg op rh rb c =
     (if reads op \<and> readStream c \<noteq> [] then
        andThen (header_stage cfg rh c) (\<lambda>c1.
          if \<not> readAtEnd c1 \<and> datagram cfg then Some (Throw DatagramLimitException c1)
          else Some (read_into rb (scheduleTimeout OpRead (endpointTimeout cfg)) c1)) (\<lambda>c. c)
      else Some (Continue c))"

text \<open>Thread pool registration: \<^verbatim>\<open>unregister\<close> and \<^verbatim>\<open>update\<close>.\<close>

definition unregister :: "socket_operation \<Rightarrow> 'o connection \<Rightarrow> 'o connection" where
  "unregister op c = c\<lparr>readRegistered := readRegistered c \<and> \<not> reads op, writeRegistered := writeRegistered c \<and> \<not> writes op\<rparr>"

definition update_pool :: "socket_operation option \<Rightarrow> socket_operation \<Rightarrow> 'o connection \<Rightarrow> 'o connection" where
  "update_pool op new c =
     (let c1 = (case op of None \<Rightarrow> c | Some x \<Rightarrow> unregister x c)
      in c1\<lparr>readRegistered := readRegistered c1 \<or> reads new, writeRegistered := writeRegistered c1 \<or> writes new\<rparr>)"

definition initialize :: "'o config \<Rightarrow> socket_operation option \<Rightarrow> init_result \<Rightarrow> 'o connection \<Rightarrow>
    'o connection progress option" where
  "initialize cfg op ini c =
     (case ini of
        InitFailed ex \<Rightarrow> Some (Throw ex c)
      | InitWait s \<Rightarrow> Some (Return (update_pool op s (scheduleTimeout s (connectTimeout cfg) c)))
      | InitDone \<Rightarrow> do { c1 \<leftarrow> setState cfg WriteBlocked StateNotValidated c; Some (Continue c1) })"

definition check_validation :: "byte list \<Rightarrow> local_exception + unit" where
  "check_validation b =
     (case check_versions b of
        Inl ex \<Rightarrow> Inl ex
      | Inr _ \<Rightarrow>
          if b ! 8 \<noteq> validateConnectionMsg then Inl ConnectionNotValidatedException
          else if int_at b 10 \<noteq> int headerSize then Inl IllegalMessageSizeException
          else Inr ())"

definition validate :: "'o config \<Rightarrow> socket_operation option \<Rightarrow> write_result \<Rightarrow> read_result \<Rightarrow> 'o connection \<Rightarrow>
    'o connection progress option" where
  "validate cfg op vw vr c =
     andThen
       (if datagram cfg then Some (Continue c)
        else if has_adapter cfg then
          (let c1 = (if writeStream c = [] then c\<lparr>writeStream := control_message validateConnectionMsg 0, writeAtEnd := False\<rparr> else c)
           in Some (write_from vw (\<lambda>c. update_pool op OpWrite (scheduleTimeout OpWrite (connectTimeout cfg) c)) c1))
        else
          (let c1 = (if readStream c = [] then c\<lparr>readStream := replicate headerSize 0, readPos := 0, readAtEnd := False\<rparr> else c)
           in andThen (Some (read_into vr (\<lambda>c. update_pool op OpRead (scheduleTimeout OpRead (connectTimeout cfg) c)) c1)) (\<lambda>c2.
                if length (readStream c2) < headerSize then None
                else (case check_validation (readStream c2) of
                        Inl ex \<Rightarrow> Some (Throw ex c2)
                      | Inr _ \<Rightarrow> Some (Continue (c2\<lparr>validated := True\<rparr>)))) (\<lambda>c. c)))
       (\<lambda>c. Some (Continue ((reset_read c)\<lparr>writeStream := [], writeAtEnd := True\<rparr>))) (\<lambda>c. c)"

datatype start_result = StartCompleted | StartPending | StartFailed local_exception

text \<open>\<open>start\<close> with a callback; a result that is pending is delivered by \<open>message\<close> or \<open>finish\<close> later.\<close>

definition start :: "'o config \<Rightarrow> init_result \<Rightarrow> write_result \<Rightarrow> read_result \<Rightarrow> 'o connection \<Rightarrow>
    (start_result \<times> 'o connection) option" where
  "start cfg ini vw vr c =
     (if state c \<ge> StateClosed then do { ex \<leftarrow> except c; c1 \<leftarrow> exception cfg ex c; Some (StartFailed ex, c1) }
      else do {
        p \<leftarrow> andThen (initialize cfg None ini c) (validate cfg None vw vr) (\<lambda>c. c);
        case p of
          Return c1 \<Rightarrow> Some (StartPending, c1\<lparr>startCallback := True\<rparr>)
        | Continue c1 \<Rightarrow> do { c2 \<leftarrow> setState cfg WriteBlocked StateHolding c1; Some (StartCompleted, c2) }
        | Throw ex c1 \<Rightarrow> do { c2 \<leftarrow> exception cfg ex c1; ex' \<leftarrow> except c2; Some (StartFailed ex', c2) }
      })"

text \<open>The outcomes of the calls on the transceiver that one \<open>message\<close> event may make.\<close>

record transport =
  t_write :: write_result
  t_header :: read_result
  t_body :: read_result
  t_init :: init_result
  t_validate_write :: write_result
  t_validate_read :: read_result
  t_next :: "write_result list"

text \<open>What is left to do outside the lock: the start callback, the sent callbacks, and what was parsed.\<close>

record 'o todo =
  startCB :: bool
  sentCBs :: "'o caller list"
  parsed_msg :: "'o parsed"

definition nothing_todo :: "'o todo" where
  "nothing_todo = \<lparr>startCB = False, sentCBs = [], parsed_msg = nothing_parsed\<rparr>"

definition setup_stage :: "'o config \<Rightarrow> socket_operation \<Rightarrow> transport \<Rightarrow> 'o connection \<Rightarrow> ('o todo \<times> 'o connection) progress option" where
  "setup_stage cfg op t c =
     andThen
       (if state c = StateNotInitialized then initialize cfg (Some op) (t_init t) c else Some (Continue c))
       (\<lambda>c1. andThen
         (if state c1 \<le> StateNotValidated then validate cfg (Some op) (t_validate_write t) (t_validate_read t) c1 else Some (Continue c1))
         (\<lambda>c2. do {
            c3 \<leftarrow> setState cfg WriteBlocked StateHolding (unregister op c2);
            Some (Continue (nothing_todo\<lparr>startCB := startCallback c3\<rparr>, c3\<lparr>startCallback := False\<rparr>))
          })
         (\<lambda>c. (nothing_todo, c)))
       (\<lambda>c. (nothing_todo, c))"

definition transfer_stage :: "'o config \<Rightarrow> socket_operation \<Rightarrow> transport \<Rightarrow> 'o connection \<Rightarrow> ('o todo \<times> 'o connection) progress option" where
  "transfer_stage cfg op t c =
     do {
       _ \<leftarrow> ensure (state c \<le> StateClosing);
       (x, c1) \<leftarrow> (if reads op then parseMessage cfg c else Some (nothing_parsed, c));
       (cbs, c2) \<leftarrow> (if writes op then sendNextMessage cfg (t_next t) c1 else Some ([], c1));
       Some (Continue (nothing_todo\<lparr>sentCBs := cbs, parsed_msg := x\<rparr>,
         if cbs \<noteq> [] \<or> outAsync x \<noteq> None then c2\<lparr>dispatchCount := dispatchCount c2 + 1\<rparr> else c2))
     }"

definition is_socket_exception :: "local_exception \<Rightarrow> bool" where
  "is_socket_exception ex \<longleftrightarrow> (case ex of SocketException _ \<Rightarrow> True | ConnectionLostException \<Rightarrow> True | _ \<Rightarrow> False)"

text \<open>The catch clauses.\<close>

definition catch_exception :: "'o config \<Rightarrow> local_exception \<Rightarrow> 'o connection \<Rightarrow> 'o connection option" where
  "catch_exception cfg ex c =
     (if ex = DatagramLimitException then Some (reset_read c)
      else if is_socket_exception ex \<or> \<not> datagram cfg then close_with cfg ex c
      else Some (reset_read (if warn_connections cfg then c\<lparr>warned := warned c @ [ex]\<rparr> else c)))"

definition message :: "'o config \<Rightarrow> socket_operation \<Rightarrow> transport \<Rightarrow> 'o connection \<Rightarrow> ('o todo \<times> 'o connection) option" where
  "message cfg op t c =
     (if state c \<ge> StateClosed then Some (nothing_todo, c)
      else do {
        p \<leftarrow> andThen
               (andThen (write_stage cfg op (t_write t) (unscheduleTimeout op c))
                  (read_stage cfg op (t_header t) (t_body t)) (\<lambda>c. c))
               (\<lambda>c1. if state c1 \<le> StateNotValidated then setup_stage cfg op t c1 else transfer_stage cfg op t c1)
               (\<lambda>c. (nothing_todo, c));
        case p of
          Continue r \<Rightarrow> Some r
        | Return r \<Rightarrow> Some r
        | Throw ex (_, c1) \<Rightarrow> do { c2 \<leftarrow> catch_exception cfg ex c1; Some (nothing_todo, c2) }
      })"

section \<open>The end of a connection\<close>

definition finished :: "'o connection \<Rightarrow> 'o connection option" where
  "finished c = do { _ \<leftarrow> ensure (state c = StateClosed); Some (unscheduleTimeout OpReadWrite c) }"

text \<open>\<^verbatim>\<open>OutgoingMessage::finished\<close> for one message that was not sent, and the removal of its request.\<close>

definition fail_message :: "local_exception \<Rightarrow> 'o message \<Rightarrow> 'o connection \<Rightarrow> 'o connection" where
  "fail_message ex m c =
     (let c1 = (case m_caller m of
                  NoCaller \<Rightarrow> c
                | Sync q \<Rightarrow> complete q (GotException ex (m_isSent m)) c
                | Async q \<Rightarrow> complete q (GotException ex (m_isSent m)) c)
      in if m_requestId m = 0 then c1
         else (case m_caller m of
                 Sync q \<Rightarrow> c1\<lparr>requests := smap_erase (m_requestId m) (requests c1)\<rparr>
               | _ \<Rightarrow> c1\<lparr>asyncRequests := smap_erase (m_requestId m) (asyncRequests c1)\<rparr>))"

definition fail_requests :: "local_exception \<Rightarrow> 'o connection \<Rightarrow> 'o connection" where
  "fail_requests ex c =
     c\<lparr>completed := completed c @ map (\<lambda>(_, q). (q, GotException ex True)) (requests c @ asyncRequests c),
       requests := [], asyncRequests := []\<rparr>"

definition finish :: "'o config \<Rightarrow> 'o connection \<Rightarrow> 'o connection option" where
  "finish cfg c =
     do {
       ex \<leftarrow> except c;
       (let c0 = (case sendStreams c of
                    m # _ \<Rightarrow> if writeStream c \<noteq> [] then c\<lparr>writeStream := m_stream m\<rparr> else c
                  | [] \<Rightarrow> c);
            c1 = fold (fail_message ex) (sendStreams c) (c0\<lparr>startCallback := False\<rparr>);
            c2 = fail_requests ex (c1\<lparr>sendStreams := []\<rparr>)
        in do {
          c3 \<leftarrow> setState cfg WriteBlocked StateFinished c2;
          Some (if dispatchCount c3 = 0 then c3\<lparr>reaped := reaped c3 + 1\<rparr> else c3)
        })
     }"

end
