(* ===== verification/ConnectionProofs.thy ===== *)
theory ConnectionProofs
  imports Connection
begin

text \<open>
  The connection keeps its invariant and no assertion fails, whatever the transport does and however the operations
  of application threads, thread pool and timer interleave.
\<close>

section \<open>The invariant\<close>

definition idle :: "'o connection \<Rightarrow> bool" where
  "idle c \<longleftrightarrow> sendStreams c = [] \<and> requests c = [] \<and> asyncRequests c = [] \<and> requestsHint c = None \<and> asyncRequestsHint c = None"

fun queue_inv :: "'o message list \<Rightarrow> byte list \<Rightarrow> bool \<Rightarrow> bool" where
  "queue_inv [] ws reg \<longleftrightarrow> ws = [] \<and> \<not> reg"
| "queue_inv (m # ms) ws reg \<longleftrightarrow> ws \<noteq> [] \<and> reg \<and> m_stream m = [] \<and> (\<forall>x \<in> set ms. headerSize \<le> length (m_stream x))"

definition queue_ok :: "'o connection \<Rightarrow> bool" where
  "queue_ok c \<longleftrightarrow> queue_inv (sendStreams c) (writeStream c) (writeRegistered c)"

definition read_ok :: "'o connection \<Rightarrow> bool" where
  "read_ok c \<longleftrightarrow> headerSize \<le> length (readStream c) \<and>
     (\<not> readHeader c \<longrightarrow> headerSize \<le> readPos c \<and> readPos c \<le> length (readStream c))"

definition maps_ok :: "'o connection \<Rightarrow> bool" where
  "maps_ok c \<longleftrightarrow> smap_inv (requests c) \<and> smap_inv (asyncRequests c) \<and>
     hint_ok (requestsHint c) (requests c) \<and> hint_ok (asyncRequestsHint c) (asyncRequests c)"

text \<open>\<open>n\<close> requests are being dispatched and \<open>k\<close> callbacks are being called.\<close>

definition control_ok :: "'o config \<Rightarrow> int \<Rightarrow> int \<Rightarrow> 'o connection \<Rightarrow> bool" where
  "control_ok cfg n k c \<longleftrightarrow>
     (except c = None \<longleftrightarrow> state c < StateClosing) \<and>
     0 \<le> n \<and> 0 \<le> k \<and> dispatchCount c = n + k \<and>
     (shutdownInitiated c \<longrightarrow> StateClosing \<le> state c) \<and>
     (state c = StateClosing \<longrightarrow> \<not> datagram cfg \<and> (dispatchCount c = 0 \<longrightarrow> shutdownInitiated c) \<and> (shutdownInitiated c \<longrightarrow> n = 0)) \<and>
     (poolFinish c \<longleftrightarrow> StateClosed \<le> state c) \<and> (transceiverClosed c \<longleftrightarrow> state c = StateFinished) \<and>
     reaped c = (if state c = StateFinished \<and> dispatchCount c = 0 then 1 else 0) \<and>
     (state c \<le> StateNotValidated \<longrightarrow> n = 0 \<and> k = 0)"

text \<open>The same without the clause on the shutdown, which does not hold while it is being initiated.\<close>

definition weak_ok :: "'o config \<Rightarrow> int \<Rightarrow> int \<Rightarrow> 'o connection \<Rightarrow> bool" where
  "weak_ok cfg n k c \<longleftrightarrow>
     (except c = None \<longleftrightarrow> state c < StateClosing) \<and>
     0 \<le> n \<and> 0 \<le> k \<and> dispatchCount c = n + k \<and>
     (shutdownInitiated c \<longrightarrow> StateClosing \<le> state c) \<and>
     (poolFinish c \<longleftrightarrow> StateClosed \<le> state c) \<and> (transceiverClosed c \<longleftrightarrow> state c = StateFinished) \<and>
     reaped c = (if state c = StateFinished \<and> dispatchCount c = 0 then 1 else 0) \<and>
     (state c \<le> StateNotValidated \<longrightarrow> n = 0 \<and> k = 0)"

lemma control_ok_weak: "control_ok cfg n k c \<Longrightarrow> weak_ok cfg n k c"
  unfolding control_ok_def weak_ok_def by blast

lemma weak_ok_closed: "weak_ok cfg n k c \<Longrightarrow> state c \<noteq> StateClosing \<Longrightarrow> control_ok cfg n k c"
  unfolding control_ok_def weak_ok_def by blast

definition data_ok :: "'o connection \<Rightarrow> bool" where
  "data_ok c \<longleftrightarrow>
     (state c \<le> StateNotValidated \<longrightarrow> idle c) \<and>
     (StateNotValidated < state c \<and> state c < StateClosed \<longrightarrow> queue_ok c \<and> read_ok c \<and> maps_ok c) \<and>
     (state c = StateFinished \<longrightarrow> sendStreams c = [] \<and> requests c = [] \<and> asyncRequests c = [])"

definition conn_ok :: "'o config \<Rightarrow> int \<Rightarrow> int \<Rightarrow> 'o connection \<Rightarrow> bool" where
  "conn_ok cfg n k c \<longleftrightarrow> control_ok cfg n k c \<and> data_ok c"

text \<open>
  What the connection relies on of compression and decompression, and that the two routines give it for every
  compression library: a message still has its header.
\<close>

definition config_ok :: "'o config \<Rightarrow> bool" where
  "config_ok cfg \<longleftrightarrow> (\<forall>b b'. doCompress cfg b = Inr b' \<longrightarrow> headerSize \<le> length b') \<and>
     (\<forall>b b'. doUncompress cfg b = Inr b' \<longrightarrow> headerSize \<le> length b')"

lemma config_ok: "config_ok cfg"
proof -
  have "headerSize \<le> length b'" if "doCompress cfg b = Inr b'" for b b'
    using that by (auto simp: doCompress_def memcpy_at_def headerSize_def Let_def split: sum.splits)
  moreover have "headerSize \<le> length b'" if "doUncompress cfg b = Inr b'" for b b'
    using that by (auto simp: doUncompress_def memcpy_at_def headerSize_def Let_def split: sum.splits if_splits)
  ultimately show ?thesis by (auto simp: config_ok_def)
qed

lemma conn_ok_new: "conn_ok cfg 0 0 connection_new"
  by (simp add: conn_ok_def control_ok_def data_ok_def idle_def connection_new_def state_order)

text \<open>The part of the state that only requests, replies and the end of the connection change.\<close>

definition same_requests :: "'o connection \<Rightarrow> 'o connection \<Rightarrow> bool" where
  "same_requests c c' \<longleftrightarrow> requests c' = requests c \<and> asyncRequests c' = asyncRequests c \<and> completed c' = completed c \<and>
     transceiverClosed c' = transceiverClosed c"

lemma same_requests_refl [simp]: "same_requests c c"
  by (simp add: same_requests_def)

lemma same_requests_trans: "same_requests a b \<Longrightarrow> same_requests b c \<Longrightarrow> same_requests a c"
  by (simp add: same_requests_def)

section \<open>Closing\<close>

lemma close_with_closed: "StateClosed \<le> state c \<Longrightarrow> except c \<noteq> None \<Longrightarrow> close_with cfg ex c = Some c"
  by (cases "state c") (auto simp: close_with_def set_exception_def enter_state_def target_state_def switch_state_def state_order)

lemma enter_closed:
  assumes "state c < StateClosed"
  shows "\<exists>m. enter_state cfg StateClosed c = Some (True, c\<lparr>poolFinish := True, monitored := m, state := StateClosed\<rparr>)"
proof -
  have "state c \<noteq> StateClosed" "state c \<noteq> StateFinished" using assms by (auto simp: state_order)
  then show ?thesis
    by (intro exI [of _ "if acm_enabled cfg then monitored c \<and> state c \<noteq> StateActive else monitored c"])
      (simp add: enter_state_def target_state_def switch_state_def Let_def)
qed

lemma set_exception_open:
  assumes "state c \<noteq> StateClosed"
  shows "\<exists>w. set_exception cfg ex c = Some (c\<lparr>except := Some (case except c of None \<Rightarrow> ex | Some e \<Rightarrow> e), warned := w\<rparr>)"
proof (cases "except c")
  case None
  with assms show ?thesis
    by (intro exI [of _ "if warn_connections cfg \<and> validated c \<and> \<not> expected_exception (state c) ex
      then warned c @ [ex] else warned c"]) (simp add: set_exception_def)
next
  case (Some e)
  have "c\<lparr>except := except c, warned := warned c\<rparr> = c" by (cases c) simp
  with Some show ?thesis by (intro exI [of _ "warned c"]) (simp add: set_exception_def)
qed

lemma close_with_open:
  assumes "state c < StateClosed"
  shows "\<exists>w m. close_with cfg ex c = Some (c\<lparr>except := Some (case except c of None \<Rightarrow> ex | Some e \<Rightarrow> e), warned := w,
    poolFinish := True, monitored := m, state := StateClosed\<rparr>)"
proof -
  let ?e = "Some (case except c of None \<Rightarrow> ex | Some e \<Rightarrow> e)"
  have ne: "state c \<noteq> StateClosed" using assms by (auto simp: state_order)
  then obtain w where w: "set_exception cfg ex c = Some (c\<lparr>except := ?e, warned := w\<rparr>)"
    using set_exception_open by blast
  obtain m where "enter_state cfg StateClosed (c\<lparr>except := ?e, warned := w\<rparr>)
      = Some (True, c\<lparr>except := ?e, warned := w, poolFinish := True, monitored := m, state := StateClosed\<rparr>)"
    using enter_closed [of "c\<lparr>except := ?e, warned := w\<rparr>" cfg] assms by auto
  then have "close_with cfg ex c = Some (c\<lparr>except := ?e, warned := w, poolFinish := True, monitored := m, state := StateClosed\<rparr>)"
    using ne w by (simp add: close_with_def)
  then show ?thesis by blast
qed

text \<open>Closing keeps the invariant, always succeeds, and touches nothing but the control part of the state.\<close>

lemma close_with_weak:
  assumes "weak_ok cfg n k c" "data_ok c"
  shows "\<exists>c' w p m e s. close_with cfg ex c = Some c' \<and> control_ok cfg n k c' \<and> data_ok c' \<and>
    c' = c\<lparr>except := e, warned := w, poolFinish := p, monitored := m, state := s\<rparr> \<and>
    s = (if state c = StateFinished then StateFinished else StateClosed) \<and> e \<noteq> None"
proof (cases "state c < StateClosed")
  case True
  obtain w m where "close_with cfg ex c = Some (c\<lparr>except := Some (case except c of None \<Rightarrow> ex | Some e \<Rightarrow> e), warned := w,
    poolFinish := True, monitored := m, state := StateClosed\<rparr>)" (is "_ = Some ?c")
    using close_with_open [OF True] by blast
  moreover have "control_ok cfg n k ?c" "data_ok ?c"
    using assms True by (auto simp: control_ok_def weak_ok_def data_ok_def state_order)
  moreover have "StateClosed = (if state c = StateFinished then StateFinished else StateClosed)"
    using True by (auto simp: state_order)
  ultimately show ?thesis by blast
next
  case False
  then have ge: "StateClosed \<le> state c" by simp
  then have ex: "except c \<noteq> None" using assms(1) by (auto simp: weak_ok_def state_order)
  have "control_ok cfg n k c" using assms(1) ge by (intro weak_ok_closed) (auto simp: state_order)
  moreover have "c = c\<lparr>except := except c, warned := warned c, poolFinish := poolFinish c, monitored := monitored c, state := state c\<rparr>"
    by (cases c) simp
  moreover have "state c = (if state c = StateFinished then StateFinished else StateClosed)"
    using ge by (cases "state c") (auto simp: state_order)
  ultimately show ?thesis using close_with_closed [OF ge ex] assms ex by blast
qed

lemmas close_with_ok = close_with_weak [OF control_ok_weak]

section \<open>Sending\<close>

text \<open>Sending a message changes the queue, the write stream, timers and registrations, and nothing of the following.\<close>

definition same_control :: "'o connection \<Rightarrow> 'o connection \<Rightarrow> bool" where
  "same_control c c' \<longleftrightarrow> state c' = state c \<and> except c' = except c \<and> shutdownInitiated c' = shutdownInitiated c \<and>
     dispatchCount c' = dispatchCount c \<and> requests c' = requests c \<and> requestsHint c' = requestsHint c \<and>
     asyncRequests c' = asyncRequests c \<and> asyncRequestsHint c' = asyncRequestsHint c \<and> readStream c' = readStream c \<and>
     readPos c' = readPos c \<and> readAtEnd c' = readAtEnd c \<and> readHeader c' = readHeader c \<and> poolFinish c' = poolFinish c \<and>
     reaped c' = reaped c \<and> completed c' = completed c \<and> transceiverClosed c' = transceiverClosed c"

lemma same_control_refl [simp]: "same_control c c"
  by (simp add: same_control_def)

lemma same_control_trans: "same_control a b \<Longrightarrow> same_control b c \<Longrightarrow> same_control a c"
  by (simp add: same_control_def)

lemma same_control_schedule [simp]: "same_control c (scheduleTimeout op t c)"
  by (simp add: same_control_def scheduleTimeout_def)

lemma queue_ok_schedule [simp]: "queue_ok (scheduleTimeout op t c) = queue_ok c"
  by (simp add: queue_ok_def scheduleTimeout_def)

lemma control_ok_same: "same_control c c' \<Longrightarrow> control_ok cfg n k c' = control_ok cfg n k c"
  by (simp add: same_control_def control_ok_def)

lemma data_ok_same:
  "same_control c c' \<Longrightarrow> data_ok c \<Longrightarrow> StateNotValidated < state c \<Longrightarrow> state c < StateClosed \<Longrightarrow> queue_ok c' \<Longrightarrow> data_ok c'"
  by (auto simp: same_control_def data_ok_def read_ok_def maps_ok_def state_order)

lemma prepare_ok:
  assumes "config_ok cfg" "headerSize \<le> length (m_stream m)"
  shows "\<exists>r. prepare cfg m = Some r \<and> (\<forall>b. r = Inr b \<longrightarrow> headerSize \<le> length b)"
proof -
  have "headerSize \<le> length (fill_size b)" if "headerSize \<le> length b" for b
    using that by (simp add: fill_size_def headerSize_def)
  then show ?thesis using assms by (auto simp: prepare_def config_ok_def)
qed

lemma message_sent_same: "message_sent cfg m c = (cb, c') \<Longrightarrow> same_control c c' \<and> queue_ok c' = queue_ok c \<and>
    sendStreams c' = sendStreams c \<and> writeStream c' = writeStream c \<and> writeRegistered c' = writeRegistered c"
  by (auto simp: message_sent_def same_control_def queue_ok_def split: caller.splits)

lemma sendMessage_ok:
  assumes "config_ok cfg" "state c < StateClosed" "queue_ok c" "headerSize \<le> length (m_stream m)"
  shows "\<exists>r c'. sendMessage cfg io m c = Some (r, c') \<and> same_control c c' \<and> queue_ok c'"
proof (cases "sendStreams c")
  case (Cons x xs)
  then have "sendMessage cfg io m c = Some (Inr AsyncStatusQueued, c\<lparr>sendStreams := sendStreams c @ [m]\<rparr>)"
    using assms(2) by (simp add: sendMessage_def)
  moreover have "queue_ok (c\<lparr>sendStreams := sendStreams c @ [m]\<rparr>)" using assms(3,4) Cons by (simp add: queue_ok_def)
  ultimately show ?thesis by (simp add: same_control_def)
next
  case Nil
  then have w: "writeStream c = []" using assms(3) by (simp add: queue_ok_def)
  obtain p where p: "prepare cfg m = Some p" "\<And>b. p = Inr b \<Longrightarrow> headerSize \<le> length b"
    using prepare_ok [OF assms(1,4)] by blast
  show ?thesis
  proof (cases p)
    case (Inl ex)
    then show ?thesis using assms(2,3) Nil p by (simp add: sendMessage_def)
  next
    case (Inr b)
    then have b: "b \<noteq> []" using p(2) by (auto simp: headerSize_def)
    show ?thesis
    proof (cases io)
      case WriteDone
      obtain cb c1 where c1: "message_sent cfg m (c\<lparr>wire := wire c @ [b]\<rparr>) = (cb, c1)" by force
      with message_sent_same [OF this] WriteDone Inr assms(2,3) Nil p(1) show ?thesis
        by (auto simp: sendMessage_def same_control_def queue_ok_def)
    next
      case WriteBlocked
      with Inr assms(2) Nil p(1) w b show ?thesis
        by (simp add: sendMessage_def) (auto simp: same_control_def queue_ok_def scheduleTimeout_def)
    next
      case (WriteFailed ex)
      with Inr assms(2,3) Nil p(1) show ?thesis by (simp add: sendMessage_def)
    qed
  qed
qed

lemma length_control_message [simp]: "length (control_message t z) = headerSize"
  by (simp add: control_message_def magic_def headerSize_def)

text \<open>
  Shutting down a closing connection: the assertions of \<open>initiateShutdown\<close> hold when no request is being dispatched
  and it has not been done before.
\<close>

lemma shutdown_or_close_ok:
  assumes cfg: "config_ok cfg" and st: "state c = StateClosing" "\<not> shutdownInitiated c" "dispatchCount c = 0"
    and ok: "control_ok cfg 0 0 (c\<lparr>shutdownInitiated := True\<rparr>)" "data_ok c"
  shows "\<exists>c'. shutdown_or_close cfg io c = Some c' \<and> control_ok cfg 0 0 c' \<and> data_ok c' \<and> same_requests c c' \<and>
    StateClosing \<le> state c'"
proof -
  let ?m = "\<lparr>m_stream = control_message closeConnectionMsg 1, m_caller = NoCaller, m_compress = False, m_requestId = 0,
    m_isSent = False\<rparr> :: 'a message"
  let ?c = "c\<lparr>shutdownInitiated := True\<rparr>"
  have open_ok: "queue_ok c" using ok(2) st(1) by (simp add: data_ok_def state_order)
  then have q: "queue_ok ?c" by (simp add: queue_ok_def)
  have d: "data_ok ?c" using ok(2) by (simp add: data_ok_def idle_def queue_ok_def read_ok_def maps_ok_def)
  obtain r c1 where send: "sendMessage cfg io ?m ?c = Some (r, c1)" "same_control ?c c1" "queue_ok c1"
    using sendMessage_ok [OF cfg _ q, of ?m io] st(1) by (auto simp: state_order)
  define c2 where "c2 = (case r of Inr (AsyncStatusSent b) \<Rightarrow> scheduleTimeout OpWrite (closeTimeout cfg) c1 | _ \<Rightarrow> c1)"
  have same: "same_control ?c c2" "queue_ok c2"
    using send(2,3) same_control_trans [OF send(2) same_control_schedule]
    by (auto simp: c2_def split: sum.splits async_status.splits)
  have ok2: "control_ok cfg 0 0 c2" "data_ok c2"
    using control_ok_same [OF same(1)] data_ok_same [OF same(1) d] ok(1) st(1) same(2) by (simp_all add: state_order)
  have init: "initiateShutdown cfg io c = Some (case r of Inl ex \<Rightarrow> Inl ex | Inr _ \<Rightarrow> Inr (), c2)"
    using st send(1) ok(1) by (auto simp: initiateShutdown_def c2_def control_ok_def split: sum.splits async_status.splits)
  show ?thesis
  proof (cases r)
    case (Inl ex)
    obtain c3 w p m e s where "close_with cfg ex c2 = Some c3" "control_ok cfg 0 0 c3" "data_ok c3"
      "c3 = c2\<lparr>except := e, warned := w, poolFinish := p, monitored := m, state := s\<rparr>"
      "s = (if state c2 = StateFinished then StateFinished else StateClosed)"
      using close_with_ok [OF ok2] by blast
    with init Inl same(1) show ?thesis by (auto simp: shutdown_or_close_def same_control_def same_requests_def state_order)
  next
    case (Inr x)
    with init same(1) ok2 st(1) show ?thesis by (auto simp: shutdown_or_close_def same_control_def same_requests_def)
  qed
qed

section \<open>Changing the state\<close>

text \<open>The result of an operation that keeps the invariant and does not go back in the life of the connection.\<close>

definition forward :: "'o connection \<Rightarrow> 'o connection \<Rightarrow> bool" where
  "forward c c' \<longleftrightarrow> (StateClosing \<le> state c \<longrightarrow> state c \<le> state c') \<and> (StateNotValidated < state c \<longrightarrow> StateNotValidated < state c')"

lemma forward_le: "state c \<le> state c' \<Longrightarrow> forward c c'"
  by (auto simp: forward_def)

lemma forward_refl [simp]: "forward c c"
  by (simp add: forward_def)

lemma forward_open: "state c < StateClosing \<Longrightarrow> StateNotValidated < state c' \<Longrightarrow> forward c c'"
  by (auto simp: forward_def)

lemma forward_closing: "state c \<le> StateClosing \<Longrightarrow> StateClosing \<le> state c' \<Longrightarrow> forward c c'"
  by (auto intro: forward_le)

lemma forward_trans: "forward a b \<Longrightarrow> forward b c \<Longrightarrow> forward a c"
  by (auto simp: forward_def)

definition keeps :: "'o config \<Rightarrow> int \<Rightarrow> int \<Rightarrow> 'o connection \<Rightarrow> 'o connection option \<Rightarrow> bool" where
  "keeps cfg n k c r \<longleftrightarrow> (\<exists>c'. r = Some c' \<and> control_ok cfg n k c' \<and> data_ok c' \<and> same_requests c c' \<and> forward c c')"

lemma close_with_keeps_weak: "weak_ok cfg n k c \<Longrightarrow> data_ok c \<Longrightarrow> keeps cfg n k c (close_with cfg ex c)"
proof -
  assume "weak_ok cfg n k c" "data_ok c"
  then obtain c' w p m e s where c': "close_with cfg ex c = Some c'" "control_ok cfg n k c'" "data_ok c'"
    "c' = c\<lparr>except := e, warned := w, poolFinish := p, monitored := m, state := s\<rparr>"
    "s = (if state c = StateFinished then StateFinished else StateClosed)"
    using close_with_weak by blast
  have "state c \<le> s" using c'(5) by (cases "state c") (simp_all add: state_order)
  with c' show ?thesis by (simp add: keeps_def same_requests_def forward_le)
qed

lemmas close_with_keeps = close_with_keeps_weak [OF control_ok_weak]

lemma close_with_result:
  assumes "control_ok cfg n k c" "data_ok c"
  shows "\<exists>c'. close_with cfg ex c = Some c' \<and> control_ok cfg n k c' \<and> data_ok c' \<and> same_requests c c' \<and> state c \<le> state c' \<and>
    StateClosed \<le> state c' \<and> except c' \<noteq> None \<and> sendStreams c' = sendStreams c \<and> writeStream c' = writeStream c \<and>
    writeRegistered c' = writeRegistered c \<and> writeAtEnd c' = writeAtEnd c"
proof -
  obtain c' w p m e s where c': "close_with cfg ex c = Some c'" "control_ok cfg n k c'" "data_ok c'"
    "c' = c\<lparr>except := e, warned := w, poolFinish := p, monitored := m, state := s\<rparr>"
    "s = (if state c = StateFinished then StateFinished else StateClosed)" "e \<noteq> None"
    using close_with_ok [OF assms] by blast
  have "state c \<le> s" "StateClosed \<le> s" using c'(5) by (cases "state c"; simp add: state_order)+
  with c' show ?thesis by (simp add: same_requests_def)
qed

text \<open>Moving between the open states, or from one to closing.\<close>

lemma control_ok_open:
  assumes "control_ok cfg n k c" "StateNotValidated < state c" "state c < StateClosing" "StateNotValidated < st" "st < StateClosing"
  shows "control_ok cfg n k (c\<lparr>readRegistered := r, monitored := m, state := st\<rparr>)"
proof -
  have "state c \<noteq> StateFinished" "st \<noteq> StateFinished" "st \<noteq> StateClosing" "\<not> StateClosing \<le> state c" "\<not> StateClosed \<le> state c"
    "\<not> StateClosed \<le> st" "\<not> st \<le> StateNotValidated" "\<not> StateClosing \<le> st"
    using assms(2-5) by (auto simp: state_order)
  then show ?thesis using assms(1,3,5) by (simp add: control_ok_def)
qed

lemma data_ok_open:
  assumes "data_ok c" "StateNotValidated < state c" "state c < StateClosed" "StateNotValidated < st" "st < StateClosed"
  shows "data_ok (c\<lparr>except := e, warned := w, readRegistered := r, monitored := m, state := st\<rparr>)"
    "data_ok (c\<lparr>readRegistered := r, monitored := m, state := st\<rparr>)"
proof -
  have "st \<noteq> StateFinished" "\<not> st \<le> StateNotValidated" using assms(4,5) by (auto simp: state_order)
  then show "data_ok (c\<lparr>except := e, warned := w, readRegistered := r, monitored := m, state := st\<rparr>)"
    "data_ok (c\<lparr>readRegistered := r, monitored := m, state := st\<rparr>)"
    using assms(1-3) by (simp_all add: data_ok_def queue_ok_def read_ok_def maps_ok_def)
qed

lemma enter_open:
  assumes "StateNotValidated < state c" "st = StateActive \<or> st = StateHolding"
  shows "enter_state cfg st c = Some (False, c) \<or>
    (state c < StateClosing \<and> (\<exists>r m. enter_state cfg st c = Some (True, c\<lparr>readRegistered := r, monitored := m, state := st\<rparr>)))"
proof (cases "state c = StateActive \<and> st = StateHolding \<or> state c = StateHolding \<and> st = StateActive")
  case True
  then have "enter_state cfg st c = Some (True, c\<lparr>readRegistered := (st = StateActive),
      monitored := (if acm_enabled cfg then st = StateActive \<or> (monitored c \<and> state c \<noteq> StateActive) else monitored c), state := st\<rparr>)"
    by (elim disjE) (simp_all add: enter_state_def target_state_def switch_state_def Let_def)
  moreover have "state c < StateClosing" using True by (auto simp: state_order)
  ultimately show ?thesis by blast
next
  case False
  moreover have "state c \<noteq> StateNotValidated" using assms(1) by auto
  ultimately have "enter_state cfg st c = Some (False, c)"
    using assms(2) by (elim disjE) (simp_all add: enter_state_def target_state_def switch_state_def Let_def)
  then show ?thesis by simp
qed

lemma setState_hold_active:
  assumes "control_ok cfg n k c" "data_ok c" "StateNotValidated < state c" "st = StateActive \<or> st = StateHolding"
  shows "keeps cfg n k c (setState cfg io st c)"
proof -
  have st: "StateNotValidated < st" "st < StateClosing" "st < StateClosed" "st \<noteq> StateClosing"
    using assms(4) by (auto simp: state_order)
  from enter_open [OF assms(3,4), of cfg] show ?thesis
  proof (elim disjE conjE exE)
    assume "enter_state cfg st c = Some (False, c)"
    then show ?thesis using assms by (simp add: setState_def keeps_def)
  next
    fix r m assume lt: "state c < StateClosing"
      and e: "enter_state cfg st c = Some (True, c\<lparr>readRegistered := r, monitored := m, state := st\<rparr>)"
    have "state c < StateClosed" "\<not> StateClosing \<le> state c" using lt by (auto simp: state_order)
    then show ?thesis
      using e st control_ok_open [OF assms(1,3) lt st(1,2)] data_ok_open(2) [OF assms(2,3) _ st(1,3)]
      by (simp add: setState_def keeps_def same_requests_def forward_def)
  qed
qed

lemma enter_closing:
  assumes "StateNotValidated < state c" "state c < StateClosing" "\<not> datagram cfg"
  shows "\<exists>r m. enter_state cfg StateClosing c = Some (True, c\<lparr>readRegistered := r, monitored := m, state := StateClosing\<rparr>)"
proof -
  have ne: "state c \<noteq> StateClosing" "\<not> state c \<le> StateNotValidated" "\<not> StateClosed \<le> state c" using assms by (auto simp: state_order)
  have "enter_state cfg StateClosing c = Some (True, c\<lparr>readRegistered := (if state c = StateHolding then True else readRegistered c),
      monitored := (if acm_enabled cfg then monitored c \<and> state c \<noteq> StateActive else monitored c), state := StateClosing\<rparr>)"
    using ne assms(3) by (simp add: enter_state_def target_state_def switch_state_def Let_def)
  then show ?thesis by blast
qed

lemma setState_Closing_shortcut:
  assumes "state c < StateClosing" "datagram cfg \<or> state c \<le> StateNotValidated"
  shows "setState_ex cfg io StateClosing ex c = close_with cfg ex c"
proof -
  have ne: "state c \<noteq> StateClosing" "state c \<noteq> StateClosed" "state c < StateClosed" using assms(1) by (auto simp: state_order)
  obtain w where w: "set_exception cfg ex c = Some (c\<lparr>except := Some (case except c of None \<Rightarrow> ex | Some e \<Rightarrow> e), warned := w\<rparr>)"
    (is "_ = Some ?c") using set_exception_open [OF ne(2)] by blast
  obtain m where "enter_state cfg StateClosed ?c = Some (True, ?c\<lparr>poolFinish := True, monitored := m, state := StateClosed\<rparr>)"
    using enter_closed [of ?c cfg] ne(3) by auto
  moreover have "enter_state cfg StateClosing ?c = enter_state cfg StateClosed ?c"
    using assms(2) by (simp add: enter_state_def target_state_def)
  ultimately show ?thesis using ne w by (simp add: setState_ex_def setState_def close_with_def)
qed

lemma setState_Closing:
  assumes cfg: "config_ok cfg" and ok: "control_ok cfg n k c" "data_ok c"
  shows "keeps cfg n k c (setState_ex cfg io StateClosing ex c)"
proof -
  consider (closing) "state c = StateClosing" | (closed) "StateClosed \<le> state c"
    | (short) "state c < StateClosing" "datagram cfg \<or> state c \<le> StateNotValidated"
    | (open_state) "state c < StateClosing" "\<not> datagram cfg" "StateNotValidated < state c"
    by (cases "state c") (auto simp: state_order)
  then show ?thesis
  proof cases
    case closing
    then show ?thesis using ok by (simp add: setState_ex_def keeps_def)
  next
    case closed
    then obtain e where "except c = Some e" using ok(1) by (auto simp: control_ok_def state_order)
    moreover have "state c \<noteq> StateClosing" using closed by (auto simp: state_order)
    moreover have "state c = StateClosed \<or> state c = StateFinished" using closed by (cases "state c") (auto simp: state_order)
    then have "enter_state cfg StateClosing c = Some (False, c)"
      by (elim disjE) (auto simp: enter_state_def target_state_def switch_state_def Let_def state_order)
    ultimately have "setState_ex cfg io StateClosing ex c = Some c"
      by (simp add: setState_ex_def set_exception_def setState_def)
    then show ?thesis using ok by (simp add: keeps_def)
  next
    case short
    then show ?thesis using close_with_keeps [OF ok] setState_Closing_shortcut by metis
  next
    case open_state
    let ?e = "Some (case except c of None \<Rightarrow> ex | Some e \<Rightarrow> e)"
    have ne: "state c \<noteq> StateClosing" "state c \<noteq> StateClosed" using open_state(1) by (auto simp: state_order)
    obtain w where w: "set_exception cfg ex c = Some (c\<lparr>except := ?e, warned := w\<rparr>)" using set_exception_open [OF ne(2)] by blast
    obtain r m where enter: "enter_state cfg StateClosing (c\<lparr>except := ?e, warned := w\<rparr>)
        = Some (True, c\<lparr>except := ?e, warned := w, readRegistered := r, monitored := m, state := StateClosing\<rparr>)" (is "_ = Some (True, ?c)")
      using enter_closing [of "c\<lparr>except := ?e, warned := w\<rparr>" cfg] open_state by auto
    have eq: "setState_ex cfg io StateClosing ex c = (if dispatchCount c = 0 then shutdown_or_close cfg io ?c else Some ?c)"
      using w enter ne by (simp add: setState_ex_def setState_def)
    have d: "data_ok ?c" using data_ok_open(1) [OF ok(2) open_state(3)] open_state(1) by (auto simp: state_order)
    have facts: "\<not> shutdownInitiated c" "0 \<le> n" "0 \<le> k" "dispatchCount c = n + k" "\<not> poolFinish c" "reaped c = 0" "\<not> transceiverClosed c"
      using ok(1) open_state by (auto simp: control_ok_def state_order)
    show ?thesis
    proof (cases "dispatchCount c = 0")
      case True
      then have nk: "n = 0" "k = 0" using facts by linarith+
      have "control_ok cfg 0 0 (?c\<lparr>shutdownInitiated := True\<rparr>)"
        using facts True open_state(2) by (simp add: control_ok_def state_order)
      then obtain c' where "shutdown_or_close cfg io ?c = Some c'" "control_ok cfg 0 0 c'" "data_ok c'" "same_requests ?c c'" "StateClosing \<le> state c'"
        using shutdown_or_close_ok [OF cfg _ _ _ _ d, of io] True facts(1) by auto
      then show ?thesis using eq True nk forward_closing [of c c'] open_state(1) by (auto simp: keeps_def same_requests_def)
    next
      case False
      then have "control_ok cfg n k ?c" using facts open_state(2) by (simp add: control_ok_def state_order)
      then show ?thesis using eq False d open_state(1) by (auto simp: keeps_def same_requests_def forward_closing)
    qed
  qed
qed

lemma schedule_simps [simp]:
  "data_ok (scheduleTimeout op t c) = data_ok c" "control_ok cfg n k (scheduleTimeout op t c) = control_ok cfg n k c"
  "state (scheduleTimeout op t c) = state c" "same_requests b (scheduleTimeout op t c) = same_requests b c"
  "sendStreams (scheduleTimeout op t c) = sendStreams c"
  "data_ok (unscheduleTimeout op c) = data_ok c" "control_ok cfg n k (unscheduleTimeout op c) = control_ok cfg n k c"
  "state (unscheduleTimeout op c) = state c" "same_requests b (unscheduleTimeout op c) = same_requests b c"
  "sendStreams (unscheduleTimeout op c) = sendStreams c"
  by (simp_all add: scheduleTimeout_def unscheduleTimeout_def data_ok_def control_ok_def idle_def queue_ok_def read_ok_def
      maps_ok_def same_requests_def)

section \<open>Dispatch\<close>

lemma keepsI:
  "r = Some c' \<Longrightarrow> control_ok cfg n k c' \<Longrightarrow> data_ok c' \<Longrightarrow> same_requests c c' \<Longrightarrow>
     forward c c' \<Longrightarrow> keeps cfg n k c r"
  by (auto simp: keeps_def)

lemma keeps_trans:
  assumes "keeps cfg n k b r" "same_requests a b" "state a \<le> state b"
  shows "keeps cfg n k a r"
proof -
  obtain c where c: "r = Some c" "control_ok cfg n k c" "data_ok c" "same_requests b c" "forward b c"
    using assms(1) by (auto simp: keeps_def)
  with assms(2) same_requests_trans forward_trans [OF forward_le [OF assms(3)]] show ?thesis by (metis keepsI)
qed

lemma dispatch_done_fields:
  "state (dispatch_done m c) = state c" "except (dispatch_done m c) = except c" "shutdownInitiated (dispatch_done m c) = shutdownInitiated c"
  "dispatchCount (dispatch_done m c) = dispatchCount c - m" "poolFinish (dispatch_done m c) = poolFinish c"
  "transceiverClosed (dispatch_done m c) = transceiverClosed c"
  "same_requests c (dispatch_done m c)" "data_ok (dispatch_done m c) = data_ok c" "queue_ok (dispatch_done m c) = queue_ok c"
  "reaped (dispatch_done m c) = (if dispatchCount c = m \<and> state c = StateFinished then reaped c + 1 else reaped c)"
  by (simp_all add: dispatch_done_def Let_def same_requests_def data_ok_def idle_def queue_ok_def read_ok_def maps_ok_def)

lemma control_ok_counts: "control_ok cfg n k c \<Longrightarrow> 0 \<le> n \<and> 0 \<le> k \<and> dispatchCount c = n + k"
  by (simp add: control_ok_def)

text \<open>
  The count of running dispatches goes down: the invariant holds again unless the connection is closing, this was the
  last one, and the shutdown has to be initiated now.
\<close>

lemma dispatch_done_ok:
  assumes ok: "control_ok cfg n k c" and nk: "0 \<le> n'" "n' \<le> n" "0 \<le> k'" "k' \<le> k" "m = n + k - n' - k'" "0 < m"
    and st: "state c = StateClosing \<Longrightarrow> n' + k' = 0 \<Longrightarrow> shutdownInitiated c"
  shows "control_ok cfg n' k' (dispatch_done m c)"
proof -
  have dc: "dispatchCount c = n + k" "n' + k' < n + k" "0 \<le> n'" "0 \<le> k'" "dispatchCount c - m = n' + k'" "dispatchCount c = m \<longleftrightarrow> n' + k' = 0"
    using control_ok_counts [OF ok] nk by auto
  have r: "reaped c = 0" using ok dc by (auto simp: control_ok_def)
  have facts: "except c = None \<longleftrightarrow> state c < StateClosing" "shutdownInitiated c \<longrightarrow> StateClosing \<le> state c"
    "poolFinish c \<longleftrightarrow> StateClosed \<le> state c" "transceiverClosed c \<longleftrightarrow> state c = StateFinished"
    using ok unfolding control_ok_def by blast+
  have closing: "\<not> datagram cfg \<and> (n' + k' = 0 \<longrightarrow> shutdownInitiated c) \<and> (shutdownInitiated c \<longrightarrow> n' = 0)" if "state c = StateClosing"
    using ok that nk(1,2) st unfolding control_ok_def by auto
  have early: "n' = 0 \<and> k' = 0" if "state c \<le> StateNotValidated" using ok that nk(1-4) unfolding control_ok_def by simp
  show ?thesis
    unfolding control_ok_def dispatch_done_fields dc(5,6) r
    using facts closing early dc(3,4) by (intro conjI impI) simp_all
qed

lemma dispatch_done_keeps:
  "control_ok cfg n k (dispatch_done m c) \<Longrightarrow> data_ok c \<Longrightarrow> r = Some (dispatch_done m c) \<Longrightarrow> keeps cfg n k c r"
  unfolding keeps_def by (simp add: dispatch_done_fields forward_le)

lemma shutdown_after_dispatch:
  assumes cfg: "config_ok cfg" and ok: "control_ok cfg n k c" "data_ok c"
    and last: "state c = StateClosing" "\<not> shutdownInitiated c" "n + k = m" "0 < m"
  shows "keeps cfg 0 0 c (shutdown_or_close cfg io (dispatch_done m c))"
proof -
  let ?c = "dispatch_done m c"
  have "control_ok cfg 0 0 (?c\<lparr>shutdownInitiated := True\<rparr>)"
    using ok(1) last by (simp add: control_ok_def dispatch_done_fields state_order)
  then obtain c' where "shutdown_or_close cfg io ?c = Some c'" "control_ok cfg 0 0 c'" "data_ok c'" "same_requests ?c c'" "StateClosing \<le> state c'"
    using shutdown_or_close_ok [OF cfg, of ?c io] ok last by (auto simp: dispatch_done_fields control_ok_def)
  then show ?thesis using dispatch_done_fields(7) [of c m] last(1) by (auto simp: keeps_def same_requests_def forward_closing)
qed

lemma callbacks_done_ok:
  assumes "config_ok cfg" "control_ok cfg n k c" "data_ok c" "0 < k"
  shows "keeps cfg n (k - 1) c (callbacks_done cfg io c)"
proof (cases "n + k = 1 \<and> state c = StateClosing \<and> \<not> shutdownInitiated c")
  case True
  then have n: "n = 0" "k = 1" "dispatchCount c = 1" using assms by (auto simp: control_ok_def)
  then have "callbacks_done cfg io c = shutdown_or_close cfg io (dispatch_done 1 c)"
    using True by (simp add: callbacks_done_def dispatch_done_fields)
  then show ?thesis using shutdown_after_dispatch [OF assms(1-3), of 1 io] True n by simp
next
  case False
  have "control_ok cfg n (k - 1) (dispatch_done 1 c)"
    by (rule dispatch_done_ok [OF assms(2)]) (use control_ok_counts [OF assms(2)] assms(4) False in auto)
  moreover have "callbacks_done cfg io c = Some (dispatch_done 1 c)"
    using False control_ok_counts [OF assms(2)] by (auto simp: callbacks_done_def dispatch_done_fields)
  ultimately show ?thesis using assms(3) by (intro dispatch_done_keeps)
qed

text \<open>The shared part of \<open>sendResponse\<close> and \<open>sendNoResponse\<close>: one dispatch less, then the shutdown if it is due.\<close>

lemma response_closed:
  assumes "control_ok cfg n k c" "data_ok c" "0 < n" "StateClosed \<le> state c"
  shows "keeps cfg (n - 1) k c (do { ex \<leftarrow> except (dispatch_done 1 c); close_with cfg ex (dispatch_done 1 c) })"
proof -
  obtain ex where ex: "except c = Some ex" using assms(1,4) by (cases "except c") (auto simp: control_ok_def state_order)
  have "control_ok cfg (n - 1) k (dispatch_done 1 c)"
    by (rule dispatch_done_ok [OF assms(1)]) (use control_ok_counts [OF assms(1)] assms(3,4) in \<open>auto simp: state_order\<close>)
  moreover have "close_with cfg ex (dispatch_done 1 c) = Some (dispatch_done 1 c)"
    using close_with_closed [of "dispatch_done 1 c"] assms(4) ex by (simp add: dispatch_done_fields)
  ultimately show ?thesis using ex assms(2) by (intro dispatch_done_keeps) (simp_all add: dispatch_done_fields)
qed

lemma sendNoResponse_ok:
  assumes "config_ok cfg" "control_ok cfg n k c" "data_ok c" "0 < n"
  shows "keeps cfg (n - 1) k c (sendNoResponse cfg io c)"
proof -
  have nv: "StateNotValidated < state c" using assms(2,4) by (auto simp: control_ok_def not_le)
  have dc: "dispatchCount c = n + k" "0 \<le> k" using assms(2) by (auto simp: control_ok_def)
  consider (closed) "StateClosed \<le> state c" | (last) "state c = StateClosing" "n + k = 1" "\<not> StateClosed \<le> state c"
    | (other) "\<not> StateClosed \<le> state c" "\<not> (state c = StateClosing \<and> n + k = 1)" by blast
  then show ?thesis
  proof cases
    case closed
    then show ?thesis using response_closed [OF assms(2-4) closed] nv by (simp add: sendNoResponse_def dispatch_done_fields)
  next
    case last
    then have "n = 1" "k = 0" "\<not> shutdownInitiated c" using assms(2,4) by (auto simp: control_ok_def)
    then show ?thesis using shutdown_after_dispatch [OF assms(1-3) last(1), of 1 io] last nv dc
      by (simp add: sendNoResponse_def dispatch_done_fields)
  next
    case other
    have "control_ok cfg (n - 1) k (dispatch_done 1 c)"
      by (rule dispatch_done_ok [OF assms(2)]) (use control_ok_counts [OF assms(2)] assms(4) other in auto)
    moreover have "sendNoResponse cfg io c = Some (dispatch_done 1 c)"
      using other nv dc by (auto simp: sendNoResponse_def dispatch_done_fields Let_def)
    ultimately show ?thesis using assms(3) by (intro dispatch_done_keeps)
  qed
qed

lemma weak_ok_same: "same_control c c' \<Longrightarrow> weak_ok cfg n k c' = weak_ok cfg n k c"
  by (simp add: same_control_def weak_ok_def)

lemma same_control_requests: "same_control c c' \<Longrightarrow> same_requests c c'"
  by (simp add: same_control_def same_requests_def)

lemma dispatch_done_weak:
  assumes ok: "control_ok cfg n k c" and nk: "0 \<le> n'" "n' \<le> n" "0 \<le> k'" "k' \<le> k" "m = n + k - n' - k'" "0 < m"
  shows "weak_ok cfg n' k' (dispatch_done m c)"
proof -
  show ?thesis
  proof (cases "state c = StateClosing \<and> n' + k' = 0 \<and> \<not> shutdownInitiated c")
    case False
    then show ?thesis by (intro control_ok_weak dispatch_done_ok [OF ok nk]) blast
  next
    case True
    then show ?thesis using ok nk by (simp add: weak_ok_def control_ok_def dispatch_done_fields state_order)
  qed
qed

lemma sendResponse_ok:
  assumes cfg: "config_ok cfg" and ok: "control_ok cfg n k c" "data_ok c" and n: "0 < n" and len: "headerSize \<le> length os"
  shows "keeps cfg (n - 1) k c (sendResponse cfg io io' os compress c)"
proof (cases "StateClosed \<le> state c")
  case True
  have "StateNotValidated < state c" using True by (auto simp: state_order)
  then show ?thesis using response_closed [OF ok n True] True by (simp add: sendResponse_def dispatch_done_fields)
next
  case False
  then have lt: "state c < StateClosed" by simp
  have nv: "StateNotValidated < state c" using ok n by (auto simp: control_ok_def not_le)
  have nk: "0 \<le> k" "dispatchCount c = n + k" using control_ok_counts [OF ok(1)] by auto
  let ?c = "dispatch_done 1 c"
  let ?m = "\<lparr>m_stream = os, m_caller = NoCaller, m_compress = compress, m_requestId = 0, m_isSent = False\<rparr> :: 'a message"
  have weak: "weak_ok cfg (n - 1) k ?c" by (rule dispatch_done_weak [OF ok(1)]) (use n nk in auto)
  have "queue_ok ?c" using ok(2) nv lt by (simp add: dispatch_done_fields data_ok_def)
  then obtain r c2 where send: "sendMessage cfg io ?m ?c = Some (r, c2)" and same: "same_control ?c c2" and q: "queue_ok c2"
    using sendMessage_ok [OF cfg, of ?c ?m io] lt len by (auto simp: dispatch_done_fields)
  have c2: "weak_ok cfg (n - 1) k c2" "data_ok c2"
    using weak_ok_same [OF same] weak data_ok_same [OF same] ok(2) nv lt q by (simp_all add: dispatch_done_fields)
  have st: "state c2 = state c" "dispatchCount c2 = n + k - 1" "shutdownInitiated c2 = shutdownInitiated c" "same_requests c c2"
    using same nk same_requests_trans [OF dispatch_done_fields(7) same_control_requests [OF same]]
    by (simp_all add: same_control_def dispatch_done_fields)
  have eq: "sendResponse cfg io io' os compress c = (case r of Inl ex \<Rightarrow> close_with cfg ex c2
      | Inr _ \<Rightarrow> if state c2 = StateClosing \<and> dispatchCount c2 = 0 then shutdown_or_close cfg io' c2 else Some c2)"
    using False nv send by (simp add: sendResponse_def dispatch_done_fields)
  consider (failed) ex where "r = Inl ex" | (last) x where "r = Inr x" "state c = StateClosing" "n + k = 1"
    | (other) x where "r = Inr x" "\<not> (state c = StateClosing \<and> n + k = 1)" by (cases r) auto
  then show ?thesis
  proof cases
    case failed
    then show ?thesis using keeps_trans [OF close_with_keeps_weak [OF c2] st(4)] st(1) eq by simp
  next
    case last
    then have l: "n = 1" "k = 0" "\<not> shutdownInitiated c" using ok(1) n nk by (auto simp: control_ok_def)
    have "\<not> datagram cfg" using ok(1) last(2) by (simp add: control_ok_def)
    then have "control_ok cfg 0 0 (c2\<lparr>shutdownInitiated := True\<rparr>)"
      using c2(1) st l last(2) by (simp add: weak_ok_def control_ok_def state_order)
    then obtain c' where "shutdown_or_close cfg io' c2 = Some c'" "control_ok cfg 0 0 c'" "data_ok c'" "same_requests c2 c'" "StateClosing \<le> state c'"
      using shutdown_or_close_ok [OF cfg, of c2 io'] c2(2) st l last(2) by auto
    then show ?thesis using eq last l st by (auto simp: keeps_def same_requests_def forward_closing)
  next
    case other
    have "control_ok cfg (n - 1) k ?c" by (rule dispatch_done_ok [OF ok(1)]) (use n nk other in auto)
    then show ?thesis using eq other(1) st c2(2) control_ok_same [OF same] other(2) by (auto simp: keeps_def forward_le)
  qed
qed

lemma invokeException_ok:
  assumes ok: "control_ok cfg n k c" "data_ok c" and m: "0 < m" "m \<le> n"
  shows "keeps cfg (n - m) k c (invokeException cfg ex m c)"
proof -
  obtain c1 where c1: "close_with cfg ex c = Some c1" "control_ok cfg n k c1" "data_ok c1" "same_requests c c1"
    "forward c c1" "StateClosed \<le> state c1"
    using close_with_keeps [OF ok, of ex] close_with_ok [OF ok, of ex] by (auto simp: keeps_def state_order)
  have counts: "0 \<le> n" "0 \<le> k" "dispatchCount c1 = n + k" using control_ok_counts [OF c1(2)] by auto
  have "control_ok cfg (n - m) k (dispatch_done m c1)"
    by (rule dispatch_done_ok [OF c1(2)]) (use m counts c1(6) in \<open>auto simp: state_order\<close>)
  then have "keeps cfg (n - m) k c1 (invokeException cfg ex m c)"
    using c1 m counts by (intro dispatch_done_keeps) (simp_all add: invokeException_def)
  then show ?thesis
    using c1(4) forward_trans [OF c1(5)] by (auto simp: keeps_def same_requests_def)
qed

section \<open>Requests\<close>

lemma insert_request_ok:
  assumes "smap_inv m"
  shows "smap_inv (insert_request k q m)" "hint_ok (Some k) (insert_request k q m)" "hint_ok h m \<Longrightarrow> hint_ok h (insert_request k q m)"
  using assms by (auto simp: insert_request_def smap_put_inv smap_put_find hint_ok_put)

lemma new_request_id_range:
  "- (2 ^ 31) \<le> n \<Longrightarrow> n < 2 ^ 31 \<Longrightarrow> new_request_id n = (i, n') \<Longrightarrow> 0 < i \<and> i < 2 ^ 31 \<and> - (2 ^ 31) \<le> n' \<and> n' < 2 ^ 31"
  by (auto simp: new_request_id_def incr32_def split: if_splits)

text \<open>What a request that was accepted adds to the map of its kind.\<close>

definition recorded :: "bool \<Rightarrow> bool \<Rightarrow> int \<Rightarrow> 'o \<Rightarrow> 'o connection \<Rightarrow> 'o connection \<Rightarrow> bool" where
  "recorded async response i q c c' \<longleftrightarrow> completed c' = completed c \<and> transceiverClosed c' = transceiverClosed c \<and>
     requests c' = (if response \<and> \<not> async then insert_request i q (requests c) else requests c) \<and>
     asyncRequests c' = (if response \<and> async then insert_request i q (asyncRequests c) else asyncRequests c)"

lemma send_request_ok:
  assumes cfg: "config_ok cfg" and ok: "control_ok cfg n k c" "data_ok c" and len: "headerSize + 4 \<le> length os"
    and started: "StateNotValidated < state c"
  shows "\<exists>r c'. send_request async cfg io too_big q os compress response c = Some (r, c') \<and> control_ok cfg n k c' \<and> data_ok c' \<and>
    (case r of SendOk _ \<Rightarrow> recorded async response (fst (new_request_id (nextRequestId c))) q c c' | _ \<Rightarrow> same_requests c c') \<and>
    forward c c'"
proof (cases "except c \<noteq> None \<or> too_big")
  case True
  have "state c < StateClosing" if "except c = None" using ok(1) that by (simp add: control_ok_def)
  then have "\<exists>r. send_request async cfg io too_big q os compress response c = Some (r, c) \<and> (r = TooBig \<or> (\<exists>ex. r = Retry ex))"
    using True started by (cases "except c") (simp_all add: send_request_def)
  then show ?thesis using ok by auto
next
  case False
  then have lt: "state c < StateClosing" "except c = None" using ok(1) by (auto simp: control_ok_def)
  then have ltc: "state c < StateClosed" by (auto simp: state_order)
  obtain i nxt where id: "(if response then new_request_id (nextRequestId c) else (0, nextRequestId c)) = (i, nxt)" by force
  let ?m = "\<lparr>m_stream = if response then fill_request_id i os else os, m_caller = if async then Async q else Sync q, m_compress = compress,
    m_requestId = i, m_isSent = False\<rparr> :: 'a message"
  let ?c = "c\<lparr>nextRequestId := nxt\<rparr>"
  have "headerSize \<le> length (m_stream ?m)" using len by (simp add: fill_request_id_def headerSize_def)
  moreover have "queue_ok ?c" using ok(2) started ltc by (simp add: data_ok_def queue_ok_def)
  ultimately obtain r c1 where send: "sendMessage cfg io ?m ?c = Some (r, c1)" and same: "same_control ?c c1" and q1: "queue_ok c1"
    using sendMessage_ok [OF cfg, of ?c ?m io] ltc by auto
  have "data_ok ?c" using ok(2) by (simp add: data_ok_def idle_def queue_ok_def read_ok_def maps_ok_def)
  moreover have "control_ok cfg n k ?c" using ok(1) by (simp add: control_ok_def)
  ultimately have c1: "control_ok cfg n k c1" "data_ok c1"
    using control_ok_same [OF same] data_ok_same [OF same] started ltc q1 by simp_all
  have st: "state c1 = state c" "same_requests c c1" using same by (auto simp: same_control_def same_requests_def)
  have eq: "send_request async cfg io too_big q os compress response c = (case r of
      Inl ex \<Rightarrow> do { c2 \<leftarrow> close_with cfg ex c1; ex' \<leftarrow> except c2; Some (SendFailed ex', c2) }
    | Inr status \<Rightarrow> Some (SendOk status,
        if \<not> response then c1
        else if async then c1\<lparr>asyncRequests := insert_request i q (asyncRequests c1), asyncRequestsHint := Some i\<rparr>
        else c1\<lparr>requests := insert_request i q (requests c1), requestsHint := Some i\<rparr>))"
    using False lt started id send by (simp add: send_request_def Let_def)
  show ?thesis
  proof (cases r)
    case (Inl ex)
    obtain c2 e where "close_with cfg ex c1 = Some c2" "control_ok cfg n k c2" "data_ok c2" "same_requests c1 c2" "except c2 = Some e"
      "forward c1 c2"
      using close_with_keeps [OF c1, of ex] close_with_ok [OF c1, of ex] by (auto simp: keeps_def)
    moreover have "forward c c1" using st(1) by (simp add: forward_le)
    ultimately show ?thesis using eq Inl same_requests_trans [OF st(2)] forward_trans by fastforce
  next
    case (Inr status)
    let ?c2 = "if \<not> response then c1
        else if async then c1\<lparr>asyncRequests := insert_request i q (asyncRequests c1), asyncRequestsHint := Some i\<rparr>
        else c1\<lparr>requests := insert_request i q (requests c1), requestsHint := Some i\<rparr>"
    have "maps_ok c1" using c1(2) st(1) started ltc by (simp add: data_ok_def)
    then have "maps_ok ?c2" by (auto simp: maps_ok_def insert_request_ok simp del: hint_ok_simps)
    moreover have "\<not> state c \<le> StateNotValidated" "state c \<noteq> StateFinished" using started lt(1) by (auto simp: state_order)
    ultimately have "data_ok ?c2" using c1(2) st(1) by (auto simp: data_ok_def queue_ok_def read_ok_def)
    moreover have "control_ok cfg n k ?c2" using c1(1) by (auto simp: control_ok_def)
    moreover have "recorded async response (fst (new_request_id (nextRequestId c))) q c ?c2"
      using st(2) id by (auto simp: recorded_def same_requests_def split: if_splits)
    moreover have "forward c ?c2" using st(1) by (simp add: forward_le)
    ultimately show ?thesis using eq Inr by auto
  qed
qed

section \<open>Sending what is queued\<close>

lemma data_ok_queue:
  "data_ok c \<Longrightarrow> StateNotValidated < state c \<Longrightarrow> state c \<noteq> StateFinished \<Longrightarrow> (state c < StateClosed \<Longrightarrow> queue_ok c') \<Longrightarrow>
     same_control c c' \<Longrightarrow> data_ok c'"
  by (auto simp: data_ok_def same_control_def read_ok_def maps_ok_def)

lemma send_loop_ok:
  assumes "config_ok cfg" "control_ok cfg n k c" "data_ok c" "sendStreams c = q" "q \<noteq> []" "queue_ok c" "StateNotValidated < state c"
  shows "\<exists>b cbs' c'. send_loop cfg q ios cbs c = Some (b, cbs', c') \<and> control_ok cfg n k c' \<and> data_ok (if b then c'\<lparr>writeRegistered := False\<rparr> else c') \<and> same_requests c c' \<and>
    state c \<le> state c' \<and> (b \<longrightarrow> writeStream c' = [] \<and> sendStreams c' = [] \<and> StateNotValidated < state c' \<and> state c' < StateClosed)"
  using assms
proof (induction q arbitrary: ios cbs c rule: length_induct)
  case (1 q)
  obtain m ms where q: "q = m # ms" using "1.prems"(5) by (cases q) auto
  note prems = "1.prems" [unfolded q]
  have nf: "state c \<noteq> StateFinished" using prems(3,4) by (auto simp: data_ok_def)
  obtain cb c1 where c1: "message_sent cfg m (c\<lparr>writeStream := m_stream m, sendStreams := ms\<rparr>) = (cb, c1)" by force
  note fields = message_sent_same [OF c1]
  have m: "m_stream m = []" "writeRegistered c" "\<forall>x \<in> set ms. headerSize \<le> length (m_stream x)"
    using prems(4,6) by (auto simp: queue_ok_def)
  have w1: "writeStream c1 = []" "sendStreams c1 = ms" "writeRegistered c1" using fields m by auto
  have same: "same_control c c1" using fields by (auto simp: same_control_def)
  then have st: "state c1 = state c" "same_requests c c1" by (auto simp: same_control_def same_requests_def)
  have ctl: "control_ok cfg n k c1" using control_ok_same [OF same] prems(2) by simp
  define cbs1 where "cbs1 = (if cb then cbs @ [m_caller m] else cbs)"
  show ?case
  proof (cases "StateClosed \<le> state c")
    case True
    have "data_ok c1" by (rule data_ok_queue [OF prems(3,7) nf _ same]) (use True in auto)
    then show ?thesis using True c1 st ctl by (auto simp: q Let_def)
  next
    case False
    then have lt: "state c < StateClosed" by simp
    show ?thesis
    proof (cases ms)
      case Nil
      have "same_control c (c1\<lparr>writeRegistered := False\<rparr>)" using same by (simp add: same_control_def)
      then have "data_ok (c1\<lparr>writeRegistered := False\<rparr>)"
        by (rule data_ok_queue [OF prems(3,7) nf, rotated]) (use Nil w1 in \<open>simp add: queue_ok_def\<close>)
      then show ?thesis using False lt c1 st ctl Nil w1 prems(7) by (auto simp add: q Let_def)
    next
      case (Cons x xs)
      obtain p where p: "prepare cfg x = Some p" "\<And>b. p = Inr b \<Longrightarrow> headerSize \<le> length b"
        using prepare_ok [OF prems(1), of x] m(3) Cons by auto
      show ?thesis
      proof (cases p)
        case (Inl ex)
        have "state c1 < StateClosed" using lt st by simp
        then obtain w mo where cl: "close_with cfg ex c1 = Some (c1\<lparr>except := Some (case except c1 of None \<Rightarrow> ex | Some e \<Rightarrow> e), warned := w,
            poolFinish := True, monitored := mo, state := StateClosed\<rparr>)" (is "_ = Some ?c2")
          using close_with_open by blast
        have "control_ok cfg n k ?c2" using ctl lt st(1) by (auto simp: control_ok_def state_order)
        moreover have "data_ok ?c2" by (simp add: data_ok_def state_order)
        moreover have "same_requests c ?c2" using st(2) by (simp add: same_requests_def)
        ultimately show ?thesis using False c1 st Cons p(1) Inl cl lt by (auto simp: q Let_def less_imp_le)
      next
        case (Inr bytes)
        then have b: "bytes \<noteq> []" using p(2) by (auto simp: headerSize_def)
        define x' where "x' = x\<lparr>m_stream := writeStream c1\<rparr>"
        define c2 where "c2 = c1\<lparr>sendStreams := x' # xs, writeStream := bytes, writeAtEnd := False\<rparr>"
        have q2: "queue_ok c2" using b w1 m(3) Cons by (simp add: queue_ok_def c2_def x'_def)
        have same2: "same_control c c2" using same by (simp add: same_control_def c2_def)
        have c2: "control_ok cfg n k c2" "data_ok c2" "state c2 = state c" "same_requests c c2"
          using control_ok_same [OF same2] prems(2) data_ok_same [OF same2 prems(3,7) lt q2] same2
          by (auto simp: same_control_def same_requests_def)
        have unfold: "send_loop cfg q ios cbs c = (case ios of
            WriteDone # rest \<Rightarrow> send_loop cfg (x' # xs) rest cbs1 (c2\<lparr>writeAtEnd := True, wire := wire c2 @ [bytes]\<rparr>)
          | WriteFailed ex # rest \<Rightarrow> do { c3 \<leftarrow> close_with cfg ex c2; Some (False, cbs1, c3) }
          | _ \<Rightarrow> Some (False, cbs1, scheduleTimeout OpWrite (endpointTimeout cfg) c2))"
          using False c1 st Cons p(1) Inr by (simp add: q Let_def cbs1_def c2_def x'_def cong: list.case_cong write_result.case_cong)
        consider (done_) rest where "ios = WriteDone # rest" | (failed) ex rest where "ios = WriteFailed ex # rest"
          | (stop) "send_loop cfg q ios cbs c = Some (False, cbs1, scheduleTimeout OpWrite (endpointTimeout cfg) c2)"
          using unfold by (auto split: list.splits write_result.splits)
        then show ?thesis
        proof cases
          case done_
          let ?c = "c2\<lparr>writeAtEnd := True, wire := wire c2 @ [bytes]\<rparr>"
          have s3: "same_control c2 ?c" "queue_ok ?c" using q2 by (simp_all add: same_control_def queue_ok_def)
          then have "control_ok cfg n k ?c" "data_ok ?c" "same_requests c2 ?c"
            using control_ok_same [OF s3(1)] data_ok_same [OF s3(1) c2(2)] c2 prems(7) lt by (simp_all add: same_requests_def)
          then obtain b cbs' c' where "send_loop cfg (x' # xs) rest cbs1 ?c = Some (b, cbs', c')" "control_ok cfg n k c'"
            "data_ok (if b then c'\<lparr>writeRegistered := False\<rparr> else c')"
            "same_requests ?c c'" "state ?c \<le> state c'"
            "b \<longrightarrow> writeStream c' = [] \<and> sendStreams c' = [] \<and> StateNotValidated < state c' \<and> state c' < StateClosed"
            using "1.IH" [rule_format, of "x' # xs" ?c rest cbs1] prems(1,7) s3(2) c2(3) q Cons by (auto simp: c2_def)
          then show ?thesis using unfold done_ c2(3,4) by (auto simp: same_requests_def)
        next
          case failed
          obtain c3 where c3: "close_with cfg ex c2 = Some c3" "control_ok cfg n k c3" "data_ok c3" "same_requests c2 c3" "state c2 \<le> state c3"
            using close_with_result [OF c2(1,2), of ex] by blast
          then have "send_loop cfg q ios cbs c = Some (False, cbs1, c3)" using unfold failed by simp
          with c3 c2(3) same_requests_trans [OF c2(4) c3(4)] show ?thesis by auto
        next
          case stop
          then show ?thesis using c2 by auto
        qed
      qed
    qed
  qed
qed

lemma sendNextMessage_ok:
  assumes "config_ok cfg" "control_ok cfg n k c" "data_ok c" "sendStreams c \<noteq> []" "queue_ok c" "writeAtEnd c" "StateNotValidated < state c"
  shows "\<exists>cbs c'. sendNextMessage cfg ios c = Some (cbs, c') \<and> control_ok cfg n k c' \<and> data_ok c' \<and> same_requests c c' \<and> state c \<le> state c'"
proof -
  obtain b cbs c1 where loop: "send_loop cfg (sendStreams c) ios [] c = Some (b, cbs, c1)" and c1: "control_ok cfg n k c1"
    "data_ok (if b then c1\<lparr>writeRegistered := False\<rparr> else c1)"
    "same_requests c c1" "state c \<le> state c1"
    and all_sent: "b \<longrightarrow> writeStream c1 = [] \<and> sendStreams c1 = [] \<and> StateNotValidated < state c1 \<and> state c1 < StateClosed"
    using send_loop_ok [OF assms(1-3) refl assms(4,5,7), of ios "[]"] by blast
  have ws: "writeStream c \<noteq> []" using assms(4,5) by (cases "sendStreams c") (auto simp: queue_ok_def)
  show ?thesis
  proof (cases b)
    case False
    then show ?thesis using loop c1 assms(4,6) ws by (simp add: sendNextMessage_def)
  next
    case True
    let ?c2 = "c1\<lparr>writeRegistered := False\<rparr>"
    let ?c3 = "if state ?c2 = StateClosing then scheduleTimeout OpWrite (closeTimeout cfg) ?c2 else ?c2"
    have same: "same_control c1 ?c3" by (simp add: same_control_def scheduleTimeout_def)
    have "data_ok ?c3" "control_ok cfg n k ?c3" using c1(2) control_ok_same [OF same] c1(1) True by simp_all
    moreover have "sendNextMessage cfg ios c = Some (cbs, ?c3)"
      using loop assms(4,6) ws True all_sent by (simp add: sendNextMessage_def)
    moreover have "same_requests c ?c3" "state ?c3 = state c1" using c1(3) same by (auto simp: same_requests_def same_control_def)
    ultimately show ?thesis using c1(4) by auto
  qed
qed

section \<open>Replies\<close>

text \<open>The hints only save a search.\<close>

lemma find_request_ok:
  assumes "maps_ok c"
  shows "find_request i c = Some (case smap_find (requests c) i of Some q \<Rightarrow> Some (False, q)
    | None \<Rightarrow> map_option (\<lambda>q. (True, q)) (smap_find (asyncRequests c) i))
    \<or> (\<exists>q q'. smap_find (requests c) i = Some q \<and> smap_find (asyncRequests c) i = Some q' \<and> find_request i c = Some (Some (True, q')))"
  using assms
  by (auto simp: find_request_def hint_key_def maps_ok_def hint_ok_def split: option.splits)

lemma find_request_total:
  assumes "maps_ok c"
  shows "\<exists>f. find_request i c = Some f \<and> (\<forall>async q. f = Some (async, q) \<longrightarrow>
    smap_find (if async then asyncRequests c else requests c) i = Some q)"
  using find_request_ok [OF assms, of i] by (auto split: option.splits)

lemma erase_request_ok:
  assumes "maps_ok c" shows "maps_ok (erase_request async i c)"
  using assms hint_ok_erase [of "requestsHint c" "requests c" i] hint_ok_erase [of "asyncRequestsHint c" "asyncRequests c" i]
  by (auto simp: maps_ok_def erase_request_def smap_erase_inv)

lemma erase_request_same:
  "state (erase_request async i c) = state c" "except (erase_request async i c) = except c" "dispatchCount (erase_request async i c) = dispatchCount c"
  "shutdownInitiated (erase_request async i c) = shutdownInitiated c" "poolFinish (erase_request async i c) = poolFinish c"
  "transceiverClosed (erase_request async i c) = transceiverClosed c"
  "reaped (erase_request async i c) = reaped c" "queue_ok (erase_request async i c) = queue_ok c" "read_ok (erase_request async i c) = read_ok c"
  "completed (erase_request async i c) = completed c" "sendStreams (erase_request async i c) = sendStreams c"
  "requests (erase_request async i c) = (if async then requests c else smap_erase i (requests c))"
  "asyncRequests (erase_request async i c) = (if async then smap_erase i (asyncRequests c) else asyncRequests c)"
  by (simp_all add: erase_request_def queue_ok_def read_ok_def)

text \<open>How a message from the peer changes the requests: nothing, or one of them gets its reply.\<close>

definition reply_effect :: "('o \<times> byte list) option \<Rightarrow> 'o connection \<Rightarrow> 'o connection \<Rightarrow> bool" where
  "reply_effect a c c' \<longleftrightarrow>
     (case a of
        None \<Rightarrow> same_requests c c' \<or>
          (\<exists>i q b. smap_find (requests c) i = Some q \<and> requests c' = smap_erase i (requests c) \<and>
             asyncRequests c' = asyncRequests c \<and> completed c' = completed c @ [(q, GotReply b)])
      | Some (q, b) \<Rightarrow>
          (\<exists>i. smap_find (asyncRequests c) i = Some q \<and> asyncRequests c' = smap_erase i (asyncRequests c) \<and>
             requests c' = requests c \<and> completed c' = completed c))"

definition same_queue :: "'o connection \<Rightarrow> 'o connection \<Rightarrow> bool" where
  "same_queue c c' \<longleftrightarrow> sendStreams c' = sendStreams c \<and> writeStream c' = writeStream c \<and>
     writeRegistered c' = writeRegistered c \<and> writeAtEnd c' = writeAtEnd c"

lemma same_queue_refl [simp]: "same_queue c c"
  by (simp add: same_queue_def)

text \<open>The outcome of parsing: an exception and no change, or some more invocations and at most one reply.\<close>

definition parse_result :: "'o config \<Rightarrow> int \<Rightarrow> int \<Rightarrow> 'o connection \<Rightarrow> (local_exception + 'o parsed) \<times> 'o connection \<Rightarrow> bool" where
  "parse_result cfg n k c = (\<lambda>(r, c').
     case r of
       Inl ex \<Rightarrow> c' = c
     | Inr x \<Rightarrow> 0 \<le> invokeNum x \<and> control_ok cfg (n + invokeNum x) k c' \<and> data_ok c' \<and> state c \<le> state c' \<and> same_queue c c' \<and>
         reply_effect (outAsync x) c c' \<and> transceiverClosed c' = transceiverClosed c)"

lemma control_ok_invoke:
  assumes "control_ok cfg n k c" "StateNotValidated < state c" "state c < StateClosing" "0 \<le> m"
  shows "control_ok cfg (n + m) k (c\<lparr>dispatchCount := dispatchCount c + m\<rparr>)"
proof -
  have "\<not> state c \<le> StateNotValidated" "state c \<noteq> StateClosing" "state c \<noteq> StateFinished" using assms(2,3) by (auto simp: state_order)
  then show ?thesis using assms(1,4) by (simp add: control_ok_def)
qed

lemma data_ok_count [simp]: "data_ok (c\<lparr>dispatchCount := m\<rparr>) = data_ok c"
  by (simp add: data_ok_def idle_def queue_ok_def read_ok_def maps_ok_def)

lemma parse_nothing: "control_ok cfg n k c \<Longrightarrow> data_ok c \<Longrightarrow> parse_result cfg n k c (Inr nothing_parsed, c)"
  by (simp add: parse_result_def nothing_parsed_def reply_effect_def)

lemma parse_invoke:
  assumes "control_ok cfg n k c" "data_ok c" "StateNotValidated < state c" "state c < StateClosing" "0 \<le> m"
  shows "parse_result cfg n k c (Inr (nothing_parsed\<lparr>invokeNum := m, requestId := i\<rparr>), c\<lparr>dispatchCount := dispatchCount c + m\<rparr>)"
  using assms control_ok_invoke [OF assms(1,3-5)]
  by (simp add: parse_result_def nothing_parsed_def reply_effect_def same_queue_def same_requests_def)

lemma parse_reply:
  assumes ok: "control_ok cfg n k c" "data_ok c" and st: "StateNotValidated < state c" "state c < StateClosed"
    and found: "smap_find (if async then asyncRequests c else requests c) i = Some q"
  shows "parse_result cfg n k c
    (if async then (Inr (nothing_parsed\<lparr>requestId := i, outAsync := Some (q, b)\<rparr>), erase_request async i c)
     else (Inr (nothing_parsed\<lparr>requestId := i\<rparr>), complete q (GotReply b) (erase_request async i c)))"
proof -
  let ?c = "erase_request async i c"
  have "state c \<noteq> StateFinished" "\<not> state c \<le> StateNotValidated" using st by (auto simp: state_order)
  moreover have "maps_ok c" "queue_ok c" "read_ok c" using ok(2) st by (auto simp: data_ok_def)
  moreover note erase_request_ok [OF this(1), of async i]
  ultimately have d: "data_ok ?c" by (simp add: data_ok_def erase_request_same)
  have ctl: "control_ok cfg n k ?c" using ok(1) by (simp add: control_ok_def erase_request_same)
  have "same_queue c ?c" by (simp add: same_queue_def erase_request_def)
  moreover have "data_ok (complete q r ?c) = data_ok ?c" "control_ok cfg n k (complete q r ?c) = control_ok cfg n k ?c"
    "same_queue c (complete q r ?c) = same_queue c ?c" for r
    by (simp_all add: complete_def data_ok_def control_ok_def idle_def queue_ok_def read_ok_def maps_ok_def same_queue_def)
  ultimately show ?thesis using d ctl found
    by (cases async) (auto simp: parse_result_def nothing_parsed_def reply_effect_def erase_request_same complete_def)
qed

lemma parse_body_ok:
  assumes ok: "control_ok cfg n k c" "data_ok c" and st: "StateNotValidated < state c" "state c < StateClosed"
  shows "\<exists>r. parse_body cfg b0 c = Some r \<and> parse_result cfg n k c r"
proof (cases "if b0 ! 9 = 2 then doUncompress cfg b0 else Inr b0")
  case (Inl ex)
  then show ?thesis by (simp add: parse_body_def parse_result_def)
next
  case (Inr b)
  let ?t = "b0 ! 8" and ?i = "int_at b headerSize"
  have open_state: "state c < StateClosing" if "state c \<noteq> StateClosing" using st(2) that by (cases "state c") (auto simp: state_order)
  note inv = parse_invoke [OF ok st(1) open_state] and none = parse_nothing [OF ok]
  have failed: "parse_result cfg n k c (Inl ex, c)" for ex by (simp add: parse_result_def)
  have distinct: "closeConnectionMsg \<noteq> requestMsg" "closeConnectionMsg \<noteq> requestBatchMsg" "closeConnectionMsg \<noteq> replyMsg"
    "requestMsg \<noteq> requestBatchMsg" "requestMsg \<noteq> replyMsg" "requestBatchMsg \<noteq> replyMsg"
    "validateConnectionMsg \<noteq> closeConnectionMsg" "validateConnectionMsg \<noteq> requestMsg" "validateConnectionMsg \<noteq> requestBatchMsg"
    "validateConnectionMsg \<noteq> replyMsg"
    by (simp_all add: closeConnectionMsg_def requestMsg_def requestBatchMsg_def replyMsg_def validateConnectionMsg_def)
  consider (close) "?t = closeConnectionMsg" | (request) "?t = requestMsg" | (batch) "?t = requestBatchMsg"
    | (reply) "?t = replyMsg" | (other) "?t \<notin> {closeConnectionMsg, requestMsg, requestBatchMsg, replyMsg}" by blast
  then show ?thesis
  proof cases
    case close
    obtain c1 where "close_with cfg CloseConnectionException c = Some c1" "control_ok cfg n k c1" "data_ok c1" "same_requests c c1"
      "state c \<le> state c1" "same_queue c c1"
      using close_with_result [OF ok, of CloseConnectionException] by (auto simp: same_queue_def)
    then show ?thesis using Inr close none
      by (simp add: parse_body_def parse_result_def) (simp add: nothing_parsed_def reply_effect_def same_requests_def)
  next
    case request
    then show ?thesis using Inr distinct none failed inv [of 1] by (simp add: parse_body_def Let_def)
  next
    case batch
    then show ?thesis using Inr distinct none failed inv [of ?i 0]
      by (simp add: parse_body_def Let_def) (simp add: nothing_parsed_def)
  next
    case reply
    obtain f where f: "find_request ?i c = Some f" "\<And>async q. f = Some (async, q) \<Longrightarrow> smap_find (if async then asyncRequests c else requests c) ?i = Some q"
      using find_request_total [of c ?i] ok(2) st by (auto simp: data_ok_def)
    show ?thesis
    proof (cases "length b < headerSize + 4 \<or> f = None")
      case True
      then show ?thesis using Inr reply distinct f(1) failed by (auto simp: parse_body_def Let_def)
    next
      case False
      then obtain async q where aq: "f = Some (async, q)" by auto
      note p = parse_reply [OF ok st f(2) [OF aq], of b]
      show ?thesis
      proof (cases "async \<or> reply_error cfg b = None")
        case True
        then show ?thesis using Inr reply distinct f(1) False aq p by (cases async) (simp_all add: parse_body_def Let_def)
      next
        case False2: False
        then show ?thesis using Inr reply distinct f(1) False aq failed by (auto simp: parse_body_def Let_def)
      qed
    qed
  next
    case other
    then show ?thesis using Inr none failed by (auto simp: parse_body_def Let_def)
  qed
qed

section \<open>The stages of the event handler\<close>

text \<open>Reading and writing change the streams and timers only.\<close>

definition stream_step :: "'o connection \<Rightarrow> 'o connection \<Rightarrow> bool" where
  "stream_step c c' \<longleftrightarrow> state c' = state c \<and> except c' = except c \<and> shutdownInitiated c' = shutdownInitiated c \<and>
     dispatchCount c' = dispatchCount c \<and> requests c' = requests c \<and> requestsHint c' = requestsHint c \<and>
     asyncRequests c' = asyncRequests c \<and> asyncRequestsHint c' = asyncRequestsHint c \<and> poolFinish c' = poolFinish c \<and>
     reaped c' = reaped c \<and> completed c' = completed c \<and> transceiverClosed c' = transceiverClosed c \<and>
     sendStreams c' = sendStreams c \<and> writeStream c' = writeStream c \<and>
     writeRegistered c' = writeRegistered c \<and> readRegistered c' = readRegistered c"

lemma stream_step_refl [simp]: "stream_step c c"
  by (simp add: stream_step_def)

lemma stream_step_trans: "stream_step a b \<Longrightarrow> stream_step b c \<Longrightarrow> stream_step a c"
  by (simp add: stream_step_def)

lemma stream_step_simps [simp]:
  "stream_step c (scheduleTimeout op t c') = stream_step c c'" "stream_step c (unscheduleTimeout op c') = stream_step c c'"
  by (simp_all add: stream_step_def scheduleTimeout_def unscheduleTimeout_def)

lemma stream_step_control: "stream_step c c' \<Longrightarrow> control_ok cfg n k c' = control_ok cfg n k c"
  by (simp add: stream_step_def control_ok_def)

lemma stream_step_data: "stream_step c c' \<Longrightarrow> data_ok c \<Longrightarrow> (StateNotValidated < state c \<Longrightarrow> state c < StateClosed \<Longrightarrow> read_ok c') \<Longrightarrow> data_ok c'"
  by (auto simp: stream_step_def data_ok_def idle_def queue_ok_def maps_ok_def)

lemma stream_step_requests: "stream_step c c' \<Longrightarrow> same_requests c c'"
  by (simp add: stream_step_def same_requests_def)

lemma read_ok_reset [simp]: "read_ok (reset_read c)"
  by (simp add: read_ok_def reset_read_def)

lemma stream_step_reset [simp]: "stream_step c (reset_read c') = stream_step c c'"
  by (simp add: stream_step_def reset_read_def)

lemma data_ok_read: "data_ok c \<Longrightarrow> StateNotValidated < state c \<Longrightarrow> state c < StateClosed \<Longrightarrow> read_ok c"
  by (simp add: data_ok_def)

text \<open>The state a stage reaches; an exception may leave a read stream that is no longer usable.\<close>

definition stage_ok :: "'o connection \<Rightarrow> ('o connection \<Rightarrow> bool) \<Rightarrow> 'o connection progress \<Rightarrow> bool" where
  "stage_ok c post p \<longleftrightarrow>
     (case p of
        Continue c' \<Rightarrow> stream_step c c' \<and> data_ok c' \<and> post c'
      | Return c' \<Rightarrow> stream_step c c' \<and> data_ok c'
      | Throw ex c' \<Rightarrow> stream_step c c')"

lemma stream_step_state: "stream_step c c' \<Longrightarrow> state c' = state c"
  by (simp add: stream_step_def)

lemma stage_ok_trans:
  assumes "stream_step a b" "stage_ok b P p" "\<And>c'. stream_step b c' \<Longrightarrow> data_ok c' \<Longrightarrow> P c' \<Longrightarrow> Q c'"
  shows "stage_ok a Q p"
  using assms stream_step_trans [OF assms(1)] by (cases p) (auto simp: stage_ok_def)

lemma write_stage_ok:
  assumes "data_ok c"
  shows "\<exists>p. write_stage cfg op w c = Some p \<and>
    stage_ok c (\<lambda>c'. writes op \<and> writeStream c \<noteq> [] \<longrightarrow> writeAtEnd c') p"
proof -
  let ?c = "c\<lparr>writeAtEnd := True, wire := wire c @ [writeStream c]\<rparr>"
  have "stream_step c ?c" by (simp add: stream_step_def)
  moreover from this have "data_ok ?c" by (rule stream_step_data [OF _ assms]) (use assms in \<open>auto simp: data_ok_def read_ok_def\<close>)
  ultimately show ?thesis using assms
    by (auto simp: write_stage_def write_from_def stage_ok_def split: write_result.splits)
qed

lemma check_header_length: "check_header cfg b = Inr sz \<Longrightarrow> headerSize \<le> length b \<and> int headerSize \<le> sz"
  by (auto simp: check_header_def split: if_splits sum.splits)

lemma read_into_ok:
  assumes "data_ok c" "\<And>c'. stream_step c (blocked c')= stream_step c c'" "data_ok (blocked c) = data_ok c"
    and "\<And>d. StateNotValidated < state c \<Longrightarrow> state c < StateClosed \<Longrightarrow> read_ok (c\<lparr>readStream := take (readPos c) (readStream c) @ d, readAtEnd := True\<rparr>)"
  shows "stage_ok c (\<lambda>c'. readAtEnd c' \<and> writeAtEnd c' = writeAtEnd c \<and> readHeader c' = readHeader c) (read_into r blocked c)"
proof -
  let ?c = "\<lambda>d. c\<lparr>readStream := take (readPos c) (readStream c) @ d, readAtEnd := True\<rparr>"
  have "stream_step c (?c d)" "data_ok (?c d)" for d
  proof -
    show s: "stream_step c (?c d)" by (simp add: stream_step_def)
    show "data_ok (?c d)" by (rule stream_step_data [OF s assms(1)]) (rule assms(4))
  qed
  then show ?thesis using assms(1-3) by (auto simp: read_into_def stage_ok_def split: read_result.splits)
qed

lemma header_stage_ok:
  assumes "data_ok c"
  shows "\<exists>p. header_stage cfg r c = Some p \<and> stage_ok c (\<lambda>c'. \<not> readHeader c' \<and> writeAtEnd c' = writeAtEnd c) p"
proof (cases "readHeader c")
  case False
  then show ?thesis using assms by (simp add: header_stage_def stage_ok_def)
next
  case True
  let ?blocked = "\<lambda>c. c"
  have checked: "\<exists>p. (case check_header cfg (readStream c1) of
          Inl ex \<Rightarrow> Some (Throw ex (c1\<lparr>readHeader := False\<rparr>))
        | Inr sz \<Rightarrow>
            (let pos = length (readStream c1)
             in Some (Continue (c1\<lparr>readHeader := False, readPos := pos,
                  readStream := readStream c1 @ replicate (nat sz - pos) 0, readAtEnd := \<not> sz > int pos\<rparr>)))) = Some p
      \<and> stage_ok c (\<lambda>c'. \<not> readHeader c' \<and> writeAtEnd c' = writeAtEnd c) p"
    if s: "stream_step c c1" "writeAtEnd c1 = writeAtEnd c" for c1
  proof (cases "check_header cfg (readStream c1)")
    case (Inl ex)
    then show ?thesis using s by (simp add: stage_ok_def stream_step_def)
  next
    case (Inr sz)
    let ?c2 = "c1\<lparr>readHeader := False, readPos := length (readStream c1),
      readStream := readStream c1 @ replicate (nat sz - length (readStream c1)) 0, readAtEnd := \<not> sz > int (length (readStream c1))\<rparr>"
    have step: "stream_step c ?c2" using s(1) by (simp add: stream_step_def)
    moreover have "data_ok ?c2"
      by (rule stream_step_data [OF step assms]) (use check_header_length [OF Inr] in \<open>simp add: read_ok_def\<close>)
    ultimately show ?thesis using Inr s(2) by (simp add: Let_def stage_ok_def)
  qed
  show ?thesis
  proof (cases "readAtEnd c")
    case True
    then show ?thesis using checked [of c] \<open>readHeader c\<close> by (simp add: header_stage_def andThen_def read_into_def)
  next
    case False
    show ?thesis
    proof (cases r)
      case (ReadDone d)
      let ?c1 = "c\<lparr>readStream := take (readPos c) (readStream c) @ d, readAtEnd := True\<rparr>"
      have "stream_step c ?c1" by (simp add: stream_step_def)
      then show ?thesis using checked [of ?c1] \<open>readHeader c\<close> False ReadDone
        by (simp add: header_stage_def andThen_def read_into_def)
    qed (use assms False \<open>readHeader c\<close> in \<open>simp_all add: header_stage_def andThen_def read_into_def stage_ok_def\<close>)
  qed
qed

lemma read_stage_ok:
  assumes "data_ok c"
  shows "\<exists>p. read_stage cfg op rh rb c = Some p \<and> stage_ok c (\<lambda>c'. writeAtEnd c' = writeAtEnd c \<and>
     (reads op \<and> StateNotValidated < state c \<and> state c < StateClosed \<longrightarrow> readAtEnd c' \<and> headerSize \<le> length (readStream c'))) p"
proof (cases "reads op \<and> readStream c \<noteq> []")
  case False
  then have "\<not> (reads op \<and> StateNotValidated < state c \<and> state c < StateClosed)"
    using assms by (auto simp: data_ok_def read_ok_def headerSize_def)
  then show ?thesis using False assms by (auto simp: read_stage_def stage_ok_def)
next
  case True
  obtain p where p: "header_stage cfg rh c = Some p" "stage_ok c (\<lambda>c'. \<not> readHeader c' \<and> writeAtEnd c' = writeAtEnd c) p"
    using header_stage_ok [OF assms] by blast
  show ?thesis
  proof (cases p)
    case (Continue c1)
    then have c1: "stream_step c c1" "data_ok c1" "\<not> readHeader c1" "writeAtEnd c1 = writeAtEnd c" using p(2) by (auto simp: stage_ok_def)
    have st: "state c1 = state c" using c1(1) by (simp add: stream_step_def)
    let ?r = "read_into rb (scheduleTimeout OpRead (endpointTimeout cfg)) c1"
    have r: "stage_ok c1 (\<lambda>c'. readAtEnd c' \<and> writeAtEnd c' = writeAtEnd c1 \<and> readHeader c' = readHeader c1) ?r"
    proof (rule read_into_ok [OF c1(2)])
      fix d assume "StateNotValidated < state c1" "state c1 < StateClosed"
      then have "headerSize \<le> readPos c1" "readPos c1 \<le> length (readStream c1)" using c1(2,3) by (auto simp: data_ok_def read_ok_def)
      then show "read_ok (c1\<lparr>readStream := take (readPos c1) (readStream c1) @ d, readAtEnd := True\<rparr>)" by (simp add: read_ok_def)
    qed simp_all
    have "read_stage cfg op rh rb c = Some (if \<not> readAtEnd c1 \<and> datagram cfg then Throw DatagramLimitException c1 else ?r)"
      using True p(1) Continue by (simp add: read_stage_def andThen_def)
    moreover have "stage_ok c (\<lambda>c'. writeAtEnd c' = writeAtEnd c \<and>
     (reads op \<and> StateNotValidated < state c \<and> state c < StateClosed \<longrightarrow> readAtEnd c' \<and> headerSize \<le> length (readStream c'))) ?r"
    proof (rule stage_ok_trans [OF c1(1) r])
      fix c' assume "stream_step c1 c'" "data_ok c'" "readAtEnd c' \<and> writeAtEnd c' = writeAtEnd c1 \<and> readHeader c' = readHeader c1"
      then show "writeAtEnd c' = writeAtEnd c \<and> (reads op \<and> StateNotValidated < state c \<and> state c < StateClosed \<longrightarrow>
          readAtEnd c' \<and> headerSize \<le> length (readStream c'))"
        using c1(4) st stream_step_state [of c1 c'] data_ok_read [of c'] by (auto simp: read_ok_def)
    qed
    ultimately show ?thesis using c1(1) by (auto simp: stage_ok_def)
  next
    case (Return c1)
    then show ?thesis using True p by (simp add: read_stage_def andThen_def stage_ok_def)
  next
    case (Throw ex c1)
    then show ?thesis using True p by (simp add: read_stage_def andThen_def stage_ok_def)
  qed
qed

section \<open>Handling a message\<close>

definition handled :: "'o config \<Rightarrow> int \<Rightarrow> int \<Rightarrow> 'o connection \<Rightarrow> 'o parsed \<Rightarrow> 'o connection \<Rightarrow> bool" where
  "handled cfg n k c x c' \<longleftrightarrow> 0 \<le> invokeNum x \<and> control_ok cfg (n + invokeNum x) k c' \<and> data_ok c' \<and> state c \<le> state c' \<and>
     (state c' = StateFinished \<longleftrightarrow> state c = StateFinished) \<and> reply_effect (outAsync x) c c'"

lemma finished_iff: "control_ok cfg n k c \<Longrightarrow> transceiverClosed c \<longleftrightarrow> state c = StateFinished"
  by (simp add: control_ok_def)

lemma handled_nothing:
  assumes "control_ok cfg n k c" "control_ok cfg n k c'" "data_ok c'" "same_requests c c'" "state c \<le> state c'"
  shows "handled cfg n k c nothing_parsed c'"
  using assms finished_iff [OF assms(1)] finished_iff [OF assms(2)]
  by (simp add: handled_def nothing_parsed_def reply_effect_def same_requests_def)

lemma reply_effect_cong:
  "requests b = requests c \<Longrightarrow> asyncRequests b = asyncRequests c \<Longrightarrow> completed b = completed c \<Longrightarrow> transceiverClosed b = transceiverClosed c \<Longrightarrow>
     reply_effect a b c' = reply_effect a c c'"
  by (cases a) (simp_all add: reply_effect_def same_requests_def split: prod.splits)

lemma parseMessage_ok:
  assumes ok: "control_ok cfg n k c" "data_ok c" and st: "StateNotValidated < state c" "state c < StateClosed"
    and full: "readAtEnd c" "headerSize \<le> length (readStream c)"
  shows "\<exists>x c'. parseMessage cfg c = Some (x, c') \<and> handled cfg n k c x c' \<and> same_queue c c'"
proof -
  let ?c = "(reset_read c)\<lparr>validated := True\<rparr>"
  have step: "stream_step c ?c" by (simp add: stream_step_def reset_read_def)
  have c0: "control_ok cfg n k ?c" "data_ok ?c"
    using stream_step_control [OF step] ok(1) stream_step_data [OF step ok(2)] by (simp_all add: read_ok_def reset_read_def)
  have f: "state ?c = state c" "same_queue c ?c" using step by (simp_all add: stream_step_def same_queue_def reset_read_def)
  obtain r c1 where body: "parse_body cfg (readStream c) ?c = Some (r, c1)" and res: "parse_result cfg n k ?c (r, c1)"
    using parse_body_ok [OF c0, of "readStream c"] st f(1) by auto
  have cong: "reply_effect a ?c c' = reply_effect a c c'" for a c'
    by (rule reply_effect_cong) (simp_all add: reset_read_def)
  show ?thesis
  proof (cases r)
    case (Inr x)
    then have x: "0 \<le> invokeNum x" "control_ok cfg (n + invokeNum x) k c1" "data_ok c1" "state c \<le> state c1" "same_queue ?c c1"
      "reply_effect (outAsync x) c c1" "transceiverClosed c1 = transceiverClosed c"
      using res f(1) cong by (auto simp: parse_result_def reset_read_def)
    have "handled cfg n k c x c1"
      using x finished_iff [OF x(2)] finished_iff [OF ok(1)] by (simp add: handled_def)
    moreover have "same_queue c c1" using f(2) x(5) by (simp add: same_queue_def)
    ultimately show ?thesis using st full body Inr by (simp add: parseMessage_def)
  next
    case (Inl ex)
    then have c1: "c1 = ?c" using res by (simp add: parse_result_def)
    show ?thesis
    proof (cases "datagram cfg")
      case True
      let ?c2 = "if warn_connections cfg then ?c\<lparr>warned := warned ?c @ [ex]\<rparr> else ?c"
      have step2: "stream_step c ?c2" using step by (simp add: stream_step_def)
      have "control_ok cfg n k ?c2" "data_ok ?c2"
        using stream_step_control [OF step2] ok(1) stream_step_data [OF step2 ok(2)] by (simp_all add: read_ok_def reset_read_def)
      moreover have "same_requests c ?c2" "state ?c2 = state c" "same_queue c ?c2" using step2 f(2) by (simp_all add: stream_step_def same_requests_def same_queue_def)
      ultimately have "handled cfg n k c nothing_parsed ?c2" using handled_nothing [OF ok(1)] by simp
      moreover have "parseMessage cfg c = Some (nothing_parsed, ?c2)" using st full body Inl c1 True by (simp add: parseMessage_def)
      ultimately show ?thesis using \<open>same_queue c ?c2\<close> by blast
    next
      case False
      obtain c2 where c2: "close_with cfg ex ?c = Some c2" "control_ok cfg n k c2" "data_ok c2" "same_requests ?c c2" "state ?c \<le> state c2" "same_queue ?c c2"
        using close_with_result [OF c0, of ex] by (auto simp: same_queue_def)
      have "same_requests c c2" using same_requests_trans [OF stream_step_requests [OF step] c2(4)] .
      then have "handled cfg n k c nothing_parsed c2" using handled_nothing [OF ok(1) c2(2,3)] c2(5) f(1) by simp
      moreover have "parseMessage cfg c = Some (nothing_parsed, c2)" using st full body Inl c1 False c2(1) by (simp add: parseMessage_def)
      moreover have "same_queue c c2" using f(2) c2(6) by (simp add: same_queue_def)
      ultimately show ?thesis by blast
    qed
  qed
qed

lemma control_ok_callback:
  assumes "control_ok cfg n k c" "StateNotValidated < state c" "state c \<noteq> StateFinished"
  shows "control_ok cfg n (k + 1) (c\<lparr>dispatchCount := dispatchCount c + 1\<rparr>)"
proof -
  have nk: "0 \<le> n" "0 \<le> k" "dispatchCount c = n + k" "n + k + 1 \<noteq> 0" "\<not> state c \<le> StateNotValidated"
    using control_ok_counts [OF assms(1)] assms(2) by auto
  have facts: "except c = None \<longleftrightarrow> state c < StateClosing" "shutdownInitiated c \<longrightarrow> StateClosing \<le> state c"
    "poolFinish c \<longleftrightarrow> StateClosed \<le> state c" "transceiverClosed c \<longleftrightarrow> state c = StateFinished"
    "state c = StateClosing \<longrightarrow> \<not> datagram cfg \<and> (shutdownInitiated c \<longrightarrow> n = 0)"
    using assms(1) unfolding control_ok_def by blast+
  have "reaped c = 0" using assms(1,3) by (simp add: control_ok_def)
  then show ?thesis unfolding control_ok_def using facts nk assms(3) by (intro conjI impI) simp_all
qed

text \<open>What one event does: it may start invocations (more of \<open>n\<close>), and callbacks (one more of \<open>k\<close>).\<close>

definition callbacks_of :: "'o todo \<Rightarrow> int" where
  "callbacks_of td = (if sentCBs td \<noteq> [] \<or> outAsync (parsed_msg td) \<noteq> None then 1 else 0)"

definition event_ok :: "'o config \<Rightarrow> int \<Rightarrow> int \<Rightarrow> 'o connection \<Rightarrow> 'o todo \<Rightarrow> 'o connection \<Rightarrow> bool" where
  "event_ok cfg n k c td c' \<longleftrightarrow> 0 \<le> invokeNum (parsed_msg td) \<and>
     control_ok cfg (n + invokeNum (parsed_msg td)) (k + callbacks_of td) c' \<and> data_ok c' \<and>
     forward c c' \<and> transceiverClosed c' = transceiverClosed c \<and> reply_effect (outAsync (parsed_msg td)) c c'"

lemma event_ok_nothing:
  assumes "control_ok cfg n k c'" "data_ok c'" "same_requests c c'" "forward c c'"
  shows "event_ok cfg n k c (nothing_todo\<lparr>startCB := b\<rparr>) c'"
  using assms by (simp add: event_ok_def nothing_todo_def nothing_parsed_def callbacks_of_def reply_effect_def same_requests_def)

lemma reply_effect_same_right: "reply_effect a c c1 \<Longrightarrow> same_requests c1 c2 \<Longrightarrow> reply_effect a c c2"
  by (auto simp: reply_effect_def same_requests_def split: option.splits)

lemma transfer_stage_ok:
  assumes cfg: "config_ok cfg" and ok: "control_ok cfg n k c" "data_ok c" and st: "StateNotValidated < state c" "state c < StateClosed"
    and rd: "reads op \<Longrightarrow> readAtEnd c \<and> headerSize \<le> length (readStream c)" and wr: "writes op \<Longrightarrow> sendStreams c \<noteq> [] \<and> writeAtEnd c"
  shows "\<exists>td c'. transfer_stage cfg op t c = Some (Continue (td, c')) \<and> event_ok cfg n k c td c'"
proof -
  have "\<exists>x c1. (if reads op then parseMessage cfg c else Some (nothing_parsed, c)) = Some (x, c1) \<and> handled cfg n k c x c1 \<and> same_queue c c1"
    using parseMessage_ok [OF ok st] rd handled_nothing [OF ok(1) ok] by auto
  then obtain x c1 where p: "(if reads op then parseMessage cfg c else Some (nothing_parsed, c)) = Some (x, c1)"
    and h: "handled cfg n k c x c1" and q: "same_queue c c1" by blast
  have c1: "control_ok cfg (n + invokeNum x) k c1" "data_ok c1" "state c \<le> state c1" "0 \<le> invokeNum x" "state c1 \<noteq> StateFinished"
    "reply_effect (outAsync x) c c1"
    using h st by (auto simp: handled_def state_order)
  have nv: "StateNotValidated < state c1" using st(1) c1(3) by (rule less_le_trans)
  have "\<exists>cbs c2. (if writes op then sendNextMessage cfg (t_next t) c1 else Some ([], c1)) = Some (cbs, c2) \<and>
      control_ok cfg (n + invokeNum x) k c2 \<and> data_ok c2 \<and> same_requests c1 c2 \<and> state c1 \<le> state c2"
  proof (cases "writes op")
    case True
    have "queue_ok c" using ok(2) st by (simp add: data_ok_def)
    then have "sendStreams c1 \<noteq> []" "queue_ok c1" "writeAtEnd c1" using wr [OF True] q by (auto simp: same_queue_def queue_ok_def)
    from sendNextMessage_ok [OF cfg c1(1,2) this nv] show ?thesis using True by auto
  qed (use c1 in simp)
  then obtain cbs c2 where s: "(if writes op then sendNextMessage cfg (t_next t) c1 else Some ([], c1)) = Some (cbs, c2)"
    and c2: "control_ok cfg (n + invokeNum x) k c2" "data_ok c2" "same_requests c1 c2" "state c1 \<le> state c2" by blast
  have nf: "state c2 \<noteq> StateFinished" using finished_iff [OF c1(1)] finished_iff [OF c2(1)] c2(3) c1(5) by (simp add: same_requests_def)
  have nv2: "StateNotValidated < state c2" using nv c2(4) by (rule less_le_trans)
  let ?td = "nothing_todo\<lparr>sentCBs := cbs, parsed_msg := x\<rparr>"
  let ?c3 = "if cbs \<noteq> [] \<or> outAsync x \<noteq> None then c2\<lparr>dispatchCount := dispatchCount c2 + 1\<rparr> else c2"
  have td: "callbacks_of ?td = (if cbs \<noteq> [] \<or> outAsync x \<noteq> None then 1 else 0)" "parsed_msg ?td = x"
    by (simp_all add: callbacks_of_def nothing_todo_def)
  have "control_ok cfg (n + invokeNum x) (k + callbacks_of ?td) ?c3"
    using control_ok_callback [OF c2(1) nv2 nf] c2(1) td(1) by (cases "cbs \<noteq> [] \<or> outAsync x \<noteq> None") auto
  moreover have "same_requests c2 ?c3" "state ?c3 = state c2" by (simp_all add: same_requests_def)
  moreover have "data_ok ?c3" using c2(2) by simp
  moreover have "reply_effect (outAsync x) c ?c3"
    using reply_effect_same_right [OF c1(6) same_requests_trans [OF c2(3)]] calculation(2) by blast
  moreover have "state c \<le> state c2" using c1(3) c2(4) by simp
  moreover have "transceiverClosed ?c3 = transceiverClosed c"
    using h finished_iff [OF ok(1)] finished_iff [OF c1(1)] c2(3) by (simp add: handled_def same_requests_def)
  ultimately have "event_ok cfg n k c ?td ?c3" using c1(4) td(2) by (simp add: event_ok_def forward_le)
  moreover have "state c \<le> StateClosing" using st(2) by (cases "state c") (simp_all add: state_order)
  then have "transfer_stage cfg op t c = Some (Continue (?td, ?c3))" using p s by (simp add: transfer_stage_def)
  ultimately show ?thesis by blast
qed

end
