(* ===== verification/ConnectionEvents.thy ===== *)
theory ConnectionEvents
  imports ConnectionProofs
begin

text \<open>
  The life of a connection under its environment: application threads, the thread pool, the timer and the peer.
  Connection establishment and the event handler first, then the system of all operations, in any interleaving.
\<close>

section \<open>Establishing a connection\<close>

text \<open>
  While a connection is being established the thread pool waits for at most one operation on it, and the read
  stream is empty or has room for one header.
\<close>

definition early_stream :: "'o config \<Rightarrow> 'o connection \<Rightarrow> bool" where
  "early_stream cfg c \<longleftrightarrow> datagram cfg \<or>
     (\<not> readHeader c \<and> (readStream c = [] \<or> (length (readStream c) = headerSize \<and> readPos c = 0)))"

definition early_ok :: "'o config \<Rightarrow> 'o connection \<Rightarrow> bool" where
  "early_ok cfg c \<longleftrightarrow> (state c \<le> StateNotValidated \<longrightarrow>
     \<not> (readRegistered c \<and> writeRegistered c) \<and> early_stream cfg c)"

text \<open>
  What the code relies on of a transceiver: a completed read filled the buffer, \<^verbatim>\<open>initialize\<close> asks for one operation,
  and only datagram transports complain about the size of a datagram.
\<close>

definition proper :: "'o config \<Rightarrow> local_exception \<Rightarrow> bool" where
  "proper cfg ex \<longleftrightarrow> (ex = DatagramLimitException \<longrightarrow> datagram cfg)"

definition read_fits :: "'o config \<Rightarrow> read_result \<Rightarrow> bool" where
  "read_fits cfg r \<longleftrightarrow> (case r of ReadDone d \<Rightarrow> length d = headerSize | ReadBlocked \<Rightarrow> True | ReadFailed ex \<Rightarrow> proper cfg ex)"

definition write_fits :: "'o config \<Rightarrow> write_result \<Rightarrow> bool" where
  "write_fits cfg w \<longleftrightarrow> (case w of WriteFailed ex \<Rightarrow> proper cfg ex | _ \<Rightarrow> True)"

definition init_fits :: "'o config \<Rightarrow> init_result \<Rightarrow> bool" where
  "init_fits cfg i \<longleftrightarrow> (case i of InitDone \<Rightarrow> True | InitWait s \<Rightarrow> s \<noteq> OpReadWrite | InitFailed ex \<Rightarrow> proper cfg ex)"

definition transport_fits :: "'o config \<Rightarrow> transport \<Rightarrow> bool" where
  "transport_fits cfg t \<longleftrightarrow> write_fits cfg (t_write t) \<and> read_fits cfg (t_body t) \<and> init_fits cfg (t_init t) \<and>
     write_fits cfg (t_validate_write t) \<and> read_fits cfg (t_validate_read t)"

lemmas fits_defs = read_fits_def write_fits_def init_fits_def

lemma control_ok_early: "control_ok cfg n k c \<Longrightarrow> state c \<le> StateNotValidated \<Longrightarrow> n = 0 \<and> k = 0"
  by (simp add: control_ok_def)

text \<open>The state during establishment: what the stages keep.\<close>

definition setup_ok :: "'o config \<Rightarrow> 'o connection \<Rightarrow> 'o connection \<Rightarrow> bool" where
  "setup_ok cfg c c' \<longleftrightarrow> control_ok cfg 0 0 c' \<and> idle c' \<and> state c' \<le> StateNotValidated \<and> same_requests c c'"

lemma setup_data: "setup_ok cfg c c' \<Longrightarrow> data_ok c'"
  by (auto simp: setup_ok_def data_ok_def state_order)

lemma setup_ok_start: "control_ok cfg n k c \<Longrightarrow> data_ok c \<Longrightarrow> state c \<le> StateNotValidated \<Longrightarrow> setup_ok cfg c c"
  using control_ok_early [of cfg n k c] by (simp add: setup_ok_def data_ok_def)

lemma setup_ok_trans: "setup_ok cfg a b \<Longrightarrow> setup_ok cfg b c \<Longrightarrow> setup_ok cfg a c"
  by (auto simp: setup_ok_def intro: same_requests_trans)

text \<open>Streams, timers and registrations do not matter to it.\<close>

definition setup_step :: "'o connection \<Rightarrow> 'o connection \<Rightarrow> bool" where
  "setup_step c c' \<longleftrightarrow> state c' = state c \<and> except c' = except c \<and> shutdownInitiated c' = shutdownInitiated c \<and>
     dispatchCount c' = dispatchCount c \<and> requests c' = requests c \<and> requestsHint c' = requestsHint c \<and>
     asyncRequests c' = asyncRequests c \<and> asyncRequestsHint c' = asyncRequestsHint c \<and> poolFinish c' = poolFinish c \<and>
     reaped c' = reaped c \<and> completed c' = completed c \<and> transceiverClosed c' = transceiverClosed c \<and>
     sendStreams c' = sendStreams c"

lemma setup_step_ok: "setup_step c c' \<Longrightarrow> setup_ok cfg a c \<Longrightarrow> setup_ok cfg a c'"
proof -
  assume step: "setup_step c c'"
  then have "control_ok cfg 0 0 c' = control_ok cfg 0 0 c" by (simp add: setup_step_def control_ok_def)
  moreover have "idle c' = idle c" using step by (simp add: setup_step_def idle_def)
  moreover have "same_requests a c' = same_requests a c" using step by (simp add: setup_step_def same_requests_def)
  moreover have "state c' = state c" using step by (simp add: setup_step_def)
  ultimately show "setup_ok cfg a c \<Longrightarrow> setup_ok cfg a c'" by (simp add: setup_ok_def)
qed

lemma stream_setup_step: "stream_step c c' \<Longrightarrow> setup_step c c'"
  by (simp add: stream_step_def setup_step_def)

lemma update_pool_fields:
  "setup_step c (update_pool op s c') = setup_step c c'" "early_stream cfg (update_pool op s c) = early_stream cfg c"
  "state (update_pool op s c) = state c"
  by (simp_all add: update_pool_def unregister_def setup_step_def early_stream_def Let_def split: option.splits)

lemma schedule_setup [simp]: "setup_step c (scheduleTimeout op t c') = setup_step c c'"
  "early_stream cfg (scheduleTimeout op t c) = early_stream cfg c"
  by (simp_all add: scheduleTimeout_def setup_step_def early_stream_def)

text \<open>The registrations when the event \<open>op\<close> is being handled: nothing else is registered.\<close>

definition only_registered :: "socket_operation option \<Rightarrow> 'o connection \<Rightarrow> bool" where
  "only_registered op c \<longleftrightarrow>
     (case op of
        None \<Rightarrow> \<not> readRegistered c \<and> \<not> writeRegistered c
      | Some x \<Rightarrow> (readRegistered c \<longrightarrow> reads x) \<and> (writeRegistered c \<longrightarrow> writes x))"

lemma update_pool_single: "only_registered op c \<Longrightarrow> s \<noteq> OpReadWrite \<Longrightarrow>
    \<not> (readRegistered (update_pool op s c) \<and> writeRegistered (update_pool op s c))"
  by (cases s; cases op) (auto simp: only_registered_def update_pool_def unregister_def Let_def)

lemma only_registered_schedule [simp]: "only_registered op (scheduleTimeout o' t c) = only_registered op c"
  by (simp add: only_registered_def scheduleTimeout_def split: option.splits)

text \<open>The outcome of a stage of the establishment.\<close>

definition setup_progress :: "'o config \<Rightarrow> 'o connection \<Rightarrow> ('o connection \<Rightarrow> bool) \<Rightarrow> 'o connection progress \<Rightarrow> bool" where
  "setup_progress cfg c post p \<longleftrightarrow>
     (case p of
        Continue c' \<Rightarrow> setup_ok cfg c c' \<and> post c'
      | Return c' \<Rightarrow> setup_ok cfg c c' \<and> early_ok cfg c'
      | Throw ex c' \<Rightarrow> setup_ok cfg c c' \<and> early_ok cfg c' \<and> proper cfg ex)"

lemma early_waiting:
  assumes "setup_ok cfg c c1" "only_registered op c1" "early_stream cfg c1" "s \<noteq> OpReadWrite"
  shows "setup_ok cfg c (update_pool op s (scheduleTimeout s t c1))" "early_ok cfg (update_pool op s (scheduleTimeout s t c1))"
proof -
  let ?c = "update_pool op s (scheduleTimeout s t c1)"
  have "setup_step c1 ?c" by (simp add: update_pool_fields) (simp add: setup_step_def)
  then show "setup_ok cfg c ?c" using assms(1) by (rule setup_step_ok)
  show "early_ok cfg ?c"
    using update_pool_single [of op "scheduleTimeout s t c1" s] assms by (simp add: early_ok_def update_pool_fields)
qed

lemma early_throw: "only_registered op c \<Longrightarrow> op \<noteq> Some OpReadWrite \<Longrightarrow> early_stream cfg c \<Longrightarrow> early_ok cfg c"
  by (cases op) (auto simp: only_registered_def early_ok_def elim: reads.elims writes.elims)

lemma initialize_ok:
  assumes ok: "setup_ok cfg c c" "state c = StateNotInitialized" "only_registered op c" "op \<noteq> Some OpReadWrite"
    "early_stream cfg c" and fits: "init_fits cfg ini"
  shows "\<exists>p. initialize cfg op ini c = Some p \<and>
    setup_progress cfg c (\<lambda>c'. state c' = StateNotValidated \<and> only_registered op c' \<and> early_stream cfg c') p"
proof (cases ini)
  case InitDone
  let ?c = "c\<lparr>monitored := (if acm_enabled cfg then monitored c else monitored c), state := StateNotValidated\<rparr>"
  have "setState cfg WriteBlocked StateNotValidated c = Some ?c"
    using ok(2) by (simp add: setState_def enter_state_def target_state_def switch_state_def Let_def)
  moreover have "setup_ok cfg c ?c"
    using ok(1,2) by (simp add: setup_ok_def control_ok_def idle_def same_requests_def state_order)
  ultimately show ?thesis using InitDone ok(3,5)
    by (simp add: initialize_def setup_progress_def only_registered_def early_stream_def split: option.splits)
next
  case (InitWait s)
  then show ?thesis using early_waiting [OF ok(1,3,5), of s "connectTimeout cfg"] fits
    by (simp add: initialize_def setup_progress_def init_fits_def)
next
  case (InitFailed ex)
  then show ?thesis using ok(1) early_throw [OF ok(3-5)] fits by (simp add: initialize_def setup_progress_def init_fits_def)
qed

text \<open>Validation; it goes on with a read stream ready for the first header and nothing to write.\<close>

definition ready :: "'o connection \<Rightarrow> bool" where
  "ready c \<longleftrightarrow> read_ok c \<and> writeStream c = []"

lemma early_write:
  assumes "setup_ok cfg c c1" "only_registered op c1" "op \<noteq> Some OpReadWrite" "early_stream cfg c1" "write_fits cfg vw"
  shows "setup_progress cfg c (\<lambda>c'. only_registered op c' \<and> state c' = state c1)
    (write_from vw (\<lambda>c. update_pool op OpWrite (scheduleTimeout OpWrite (connectTimeout cfg) c)) c1)"
proof -
  let ?w = "c1\<lparr>writeAtEnd := True, wire := wire c1 @ [writeStream c1]\<rparr>"
  have "setup_step c1 ?w" by (simp add: setup_step_def)
  then have "setup_ok cfg c ?w" using assms(1) by (rule setup_step_ok)
  moreover have "only_registered op ?w" using assms(2) by (simp add: only_registered_def split: option.splits)
  ultimately show ?thesis
    using assms early_waiting [OF assms(1,2,4), of OpWrite] early_throw [OF assms(2-4)]
    by (auto simp: write_from_def setup_progress_def write_fits_def split: write_result.splits)
qed

lemma early_read:
  assumes "setup_ok cfg c c1" "only_registered op c1" "op \<noteq> Some OpReadWrite" "early_stream cfg c1" "read_fits cfg vr"
    "\<not> datagram cfg" "readStream c1 \<noteq> []"
  shows "setup_progress cfg c (\<lambda>c'. (only_registered op c' \<and> state c' = state c1) \<and> early_stream cfg c' \<and> headerSize \<le> length (readStream c'))
    (read_into vr (\<lambda>c. update_pool op OpRead (scheduleTimeout OpRead (connectTimeout cfg) c)) c1)"
proof -
  let ?r = "\<lambda>d. c1\<lparr>readStream := take (readPos c1) (readStream c1) @ d, readAtEnd := True\<rparr>"
  have "setup_step c1 (?r d)" for d by (simp add: setup_step_def)
  then have "setup_ok cfg c (?r d)" for d using assms(1) by (rule setup_step_ok)
  moreover have "only_registered op (?r d)" for d using assms(2) by (simp add: only_registered_def split: option.splits)
  moreover have early: "length (readStream c1) = headerSize" "readPos c1 = 0" "\<not> readHeader c1"
    using assms(4,6,7) by (auto simp: early_stream_def)
  then have "early_stream cfg (?r d)" if "length d = headerSize" for d using that by (simp add: early_stream_def)
  ultimately show ?thesis
    using assms early early_waiting [OF assms(1,2,4), of OpRead] early_throw [OF assms(2-4)]
    by (auto simp: read_into_def setup_progress_def read_fits_def split: read_result.splits)
qed

lemma setup_progress_andThen:
  assumes "setup_progress cfg c P p" "\<And>c'. setup_ok cfg c c' \<Longrightarrow> P c' \<Longrightarrow> \<exists>q. f c' = Some q \<and> setup_progress cfg c Q q"
  shows "\<exists>q. andThen (Some p) f (\<lambda>c. c) = Some q \<and> setup_progress cfg c Q q"
  using assms by (cases p) (auto simp: andThen_def setup_progress_def)

lemma check_validation_proper: "check_validation b = Inl ex \<Longrightarrow> proper cfg ex"
  by (auto simp: check_validation_def check_versions_def proper_def split: if_splits sum.splits)

lemma validate_ok:
  assumes ok: "setup_ok cfg b c" "only_registered op c" "op \<noteq> Some OpReadWrite" "early_stream cfg c"
    and fits: "write_fits cfg vw" "read_fits cfg vr"
  shows "\<exists>p. validate cfg op vw vr c = Some p \<and>
    setup_progress cfg b (\<lambda>c'. (only_registered op c' \<and> state c' = state c) \<and> ready c') p"
proof -
  let ?last_step = "\<lambda>c. Some (Continue ((reset_read c)\<lparr>writeStream := [], writeAtEnd := True\<rparr>)) :: 'a connection progress option"
  let ?post = "\<lambda>c'. (only_registered op c' \<and> state c' = state c) \<and> ready c'"
  let ?mid = "\<lambda>c'. only_registered op c' \<and> state c' = state c"
  have last: "\<exists>q. ?last_step c' = Some q \<and> setup_progress cfg b ?post q" if "setup_ok cfg b c'" "?mid c'" for c'
  proof -
    let ?c = "(reset_read c')\<lparr>writeStream := [], writeAtEnd := True\<rparr>"
    have "setup_step c' ?c" by (simp add: setup_step_def reset_read_def)
    then have "setup_ok cfg b ?c" using that(1) by (rule setup_step_ok)
    moreover have "?mid ?c" using that(2) by (simp add: only_registered_def reset_read_def split: option.splits)
    moreover have "ready ?c" by (simp add: ready_def read_ok_def reset_read_def)
    ultimately show ?thesis by (simp add: setup_progress_def)
  qed
  consider (udp) "datagram cfg" | (server) "\<not> datagram cfg" "has_adapter cfg" | (client) "\<not> datagram cfg" "\<not> has_adapter cfg" by blast
  then show ?thesis
  proof cases
    case udp
    then show ?thesis using last [OF ok(1)] ok(2) by (simp add: validate_def andThen_def)
  next
    case server
    let ?c1 = "if writeStream c = [] then c\<lparr>writeStream := control_message validateConnectionMsg 0, writeAtEnd := False\<rparr> else c"
    have "setup_step c ?c1" by (simp add: setup_step_def)
    then have c1: "setup_ok cfg b ?c1" using ok(1) by (rule setup_step_ok)
    have "only_registered op ?c1" "early_stream cfg ?c1" "state ?c1 = state c"
      using ok(2,4) by (simp_all add: only_registered_def early_stream_def split: option.splits)
    then have "setup_progress cfg b ?mid (write_from vw (\<lambda>c. update_pool op OpWrite (scheduleTimeout OpWrite (connectTimeout cfg) c)) ?c1)"
      using early_write [OF c1 _ ok(3) _ fits(1)] by simp
    then have "\<exists>p. andThen (Some (write_from vw (\<lambda>c. update_pool op OpWrite (scheduleTimeout OpWrite (connectTimeout cfg) c)) ?c1)) ?last_step (\<lambda>c. c)
        = Some p \<and> setup_progress cfg b ?post p"
      by (rule setup_progress_andThen [where f = ?last_step]) (rule last)
    then show ?thesis using server by (simp add: validate_def Let_def)
  next
    case client
    let ?c1 = "if readStream c = [] then c\<lparr>readStream := replicate headerSize 0, readPos := 0, readAtEnd := False\<rparr> else c"
    have "setup_step c ?c1" by (simp add: setup_step_def)
    then have c1: "setup_ok cfg b ?c1" using ok(1) by (rule setup_step_ok)
    let ?check = "\<lambda>c2. if length (readStream c2) < headerSize then None
      else (case check_validation (readStream c2) of Inl ex \<Rightarrow> Some (Throw ex c2) | Inr _ \<Rightarrow> Some (Continue (c2\<lparr>validated := True\<rparr>)))"
    have check: "\<exists>q. ?check c' = Some q \<and> setup_progress cfg b ?mid q"
      if "setup_ok cfg b c'" "?mid c' \<and> early_stream cfg c' \<and> headerSize \<le> length (readStream c')" for c'
    proof -
      have "setup_step c' (c'\<lparr>validated := True\<rparr>)" by (simp add: setup_step_def)
      then have "setup_ok cfg b (c'\<lparr>validated := True\<rparr>)" using that(1) by (rule setup_step_ok)
      moreover have "?mid (c'\<lparr>validated := True\<rparr>)"
        using that(2) by (simp add: only_registered_def split: option.splits)
      ultimately show ?thesis using that early_throw [of op c' cfg] ok(3) check_validation_proper [of "readStream c'"]
        by (auto simp: setup_progress_def split: sum.splits)
    qed
    have f1: "only_registered op ?c1" "early_stream cfg ?c1" "readStream ?c1 \<noteq> []" "state ?c1 = state c"
      using ok(2,4) client(1) by (auto simp: only_registered_def early_stream_def headerSize_def split: option.splits)
    let ?r = "read_into vr (\<lambda>c. update_pool op OpRead (scheduleTimeout OpRead (connectTimeout cfg) c)) ?c1"
    have sp: "setup_progress cfg b (\<lambda>c'. ?mid c' \<and> early_stream cfg c' \<and> headerSize \<le> length (readStream c')) ?r"
      using early_read [OF c1 f1(1) ok(3) f1(2) fits(2) client(1) f1(3)] f1(4) by simp
    have "\<exists>q. andThen (Some ?r) ?check (\<lambda>c. c) = Some q \<and> setup_progress cfg b ?mid q"
      by (rule setup_progress_andThen [where f = ?check, OF sp check])
    then obtain q where q: "andThen (Some ?r) ?check (\<lambda>c. c) = Some q" "setup_progress cfg b ?mid q" by (elim exE conjE)
    have "\<exists>p. andThen (Some q) ?last_step (\<lambda>c. c) = Some p \<and> setup_progress cfg b ?post p"
      by (rule setup_progress_andThen [where f = ?last_step, OF q(2) last])
    then show ?thesis using client q(1) by (simp add: validate_def Let_def)
  qed
qed

text \<open>Entering the holding state.\<close>

lemma setState_Holding:
  assumes ok: "setup_ok cfg c c1" "state c1 = StateNotValidated" "ready c1" "\<not> writeRegistered c1"
  shows "\<exists>c'. setState cfg io StateHolding c1 = Some c' \<and> control_ok cfg 0 0 c' \<and> data_ok c' \<and> same_requests c c' \<and>
    state c' = StateHolding"
proof -
  let ?c = "c1\<lparr>monitored := (if acm_enabled cfg then monitored c1 else monitored c1), state := StateHolding\<rparr>"
  have "setState cfg io StateHolding c1 = Some ?c"
    using ok(2) by (simp add: setState_def enter_state_def target_state_def switch_state_def Let_def)
  moreover have "control_ok cfg 0 0 ?c" using ok(1,2) by (simp add: setup_ok_def control_ok_def state_order)
  moreover have "queue_ok ?c" "read_ok ?c" "maps_ok ?c"
    using ok by (simp_all add: setup_ok_def idle_def ready_def queue_ok_def read_ok_def maps_ok_def)
  then have "data_ok ?c" by (simp add: data_ok_def state_order)
  moreover have "same_requests c ?c" using ok(1) by (simp add: setup_ok_def same_requests_def)
  ultimately show ?thesis by auto
qed

lemma start_ok:
  assumes ok: "control_ok cfg n k c" "data_ok c" "early_ok cfg c" and fresh: "state c \<le> StateNotValidated \<Longrightarrow> state c = StateNotInitialized \<and> only_registered None c"
    and open_st: "state c \<le> StateNotValidated \<or> StateClosed \<le> state c"
    and fits: "init_fits cfg ini" "write_fits cfg vw" "read_fits cfg vr"
  shows "\<exists>r c'. start cfg ini vw vr c = Some (r, c') \<and> control_ok cfg n k c' \<and> data_ok c' \<and> same_requests c c' \<and> forward c c' \<and>
    early_ok cfg c' \<and> (r = StartPending \<or> StateNotValidated < state c')"
proof (cases "StateClosed \<le> state c")
  case True
  then obtain ex where ex: "except c = Some ex" using ok(1) by (auto simp: control_ok_def state_order)
  then have "start cfg ini vw vr c = Some (StartFailed ex, c)"
    using True close_with_closed [OF True, of cfg ex] by (simp add: start_def exception_def)
  then show ?thesis using ok True by (auto simp: state_order)
next
  case False
  then have early: "state c \<le> StateNotValidated" using open_st by blast
  note nk = control_ok_early [OF ok(1) early] and f = fresh [OF early]
  have s: "setup_ok cfg c c" using setup_ok_start [OF ok(1,2) early] .
  have str: "early_stream cfg c" using ok(3) early by (simp add: early_ok_def)
  obtain p where p: "initialize cfg None ini c = Some p"
    "setup_progress cfg c (\<lambda>c'. state c' = StateNotValidated \<and> only_registered None c' \<and> early_stream cfg c') p"
    using initialize_ok [OF s _ _ _ str fits(1), of None] f by auto
  let ?post = "\<lambda>c'. (only_registered None c' \<and> state c' = StateNotValidated) \<and> ready c'"
  have v: "\<exists>q. validate cfg None vw vr c' = Some q \<and> setup_progress cfg c ?post q"
    if "setup_ok cfg c c'" "state c' = StateNotValidated \<and> only_registered None c' \<and> early_stream cfg c'" for c'
    using validate_ok [OF that(1) _ _ _ fits(2,3), of None] that(2) by simp
  obtain q where q: "andThen (initialize cfg None ini c) (validate cfg None vw vr) (\<lambda>c. c) = Some q" "setup_progress cfg c ?post q"
    using setup_progress_andThen [where f = "validate cfg None vw vr", OF p(2) v] p(1) by auto
  have eq: "start cfg ini vw vr c = (case q of
      Return c1 \<Rightarrow> Some (StartPending, c1\<lparr>startCallback := True\<rparr>)
    | Continue c1 \<Rightarrow> do { c2 \<leftarrow> setState cfg WriteBlocked StateHolding c1; Some (StartCompleted, c2) }
    | Throw ex c1 \<Rightarrow> do { c2 \<leftarrow> exception cfg ex c1; ex' \<leftarrow> except c2; Some (StartFailed ex', c2) })"
    using False q(1) by (simp add: start_def)
  show ?thesis
  proof (cases q)
    case (Continue c1)
    then obtain c2 where c2: "setState cfg WriteBlocked StateHolding c1 = Some c2" "control_ok cfg 0 0 c2" "data_ok c2" "same_requests c c2"
      "state c2 = StateHolding"
      using q(2) setState_Holding [of cfg c c1 WriteBlocked] by (auto simp: setup_progress_def only_registered_def)
    moreover have "forward c c2" using early c2(5) by (intro forward_open) (auto simp: state_order)
    ultimately show ?thesis using eq Continue nk by (simp add: early_ok_def state_order)
  next
    case (Return c1)
    let ?c = "c1\<lparr>startCallback := True\<rparr>"
    have "setup_step c1 ?c" by (simp add: setup_step_def)
    then have s1: "setup_ok cfg c ?c" using q(2) Return by (auto simp: setup_progress_def intro: setup_step_ok)
    moreover have "early_ok cfg ?c" using q(2) Return by (simp add: setup_progress_def early_ok_def early_stream_def)
    moreover have "forward c ?c" using early by (auto simp: forward_def state_order)
    ultimately show ?thesis using eq Return nk setup_data [OF s1] by (auto simp: setup_ok_def)
  next
    case (Throw ex c1)
    then have c1: "setup_ok cfg c c1" using q(2) by (simp add: setup_progress_def)
    then obtain c2 e where c2: "close_with cfg ex c1 = Some c2" "control_ok cfg 0 0 c2" "data_ok c2" "same_requests c1 c2"
      "StateClosed \<le> state c2" "except c2 = Some e"
      using close_with_result [OF _ setup_data [OF c1], of cfg 0 0 ex] by (auto simp: setup_ok_def)
    moreover have "forward c c2" using early c2(5) by (intro forward_open) (auto simp: state_order)
    moreover have "same_requests c c2" using c1 c2(4) same_requests_trans by (auto simp: setup_ok_def)
    ultimately show ?thesis using eq Throw nk by (simp add: exception_def early_ok_def state_order)
  qed
qed

section \<open>The event handler\<close>

text \<open>The outcome of \<open>setup_stage\<close> and \<open>transfer_stage\<close>.\<close>

definition event_progress :: "'o config \<Rightarrow> int \<Rightarrow> int \<Rightarrow> 'o connection \<Rightarrow> ('o todo \<times> 'o connection) progress \<Rightarrow> bool" where
  "event_progress cfg n k c p \<longleftrightarrow>
     (case p of
        Continue (td, c') \<Rightarrow> event_ok cfg n k c td c' \<and> early_ok cfg c'
      | Return (td, c') \<Rightarrow> event_ok cfg n k c td c' \<and> early_ok cfg c'
      | Throw ex (td, c') \<Rightarrow> control_ok cfg n k c' \<and> state c' < StateClosed \<and> same_requests c c' \<and> forward c c' \<and>
          (state c' \<le> StateNotValidated \<longrightarrow> idle c' \<and> early_ok cfg c' \<and> proper cfg ex) \<and>
          (StateNotValidated < state c' \<longrightarrow> queue_ok c' \<and> maps_ok c'))"

lemma early_event_ok:
  assumes "setup_ok cfg c c'" "state c \<le> StateNotValidated"
  shows "event_ok cfg 0 0 c nothing_todo c'"
proof -
  have "forward c c'" using assms by (auto simp: forward_def state_order)
  then have "event_ok cfg 0 0 c (nothing_todo\<lparr>startCB := False\<rparr>) c'"
    using assms(1) setup_data [OF assms(1)] by (intro event_ok_nothing) (auto simp: setup_ok_def)
  then show ?thesis by (simp add: nothing_todo_def)
qed

lemma setup_progress_event:
  assumes p: "setup_progress cfg c P p" and c: "state c \<le> StateNotValidated"
    and f: "\<And>c'. setup_ok cfg c c' \<Longrightarrow> P c' \<Longrightarrow> \<exists>q. f c' = Some q \<and> event_progress cfg 0 0 c q"
  shows "\<exists>q. andThen (Some p) f (\<lambda>c. (nothing_todo, c)) = Some q \<and> event_progress cfg 0 0 c q"
proof (cases p)
  case (Return c1)
  then show ?thesis using p early_event_ok [OF _ c] by (auto simp: andThen_def setup_progress_def event_progress_def)
next
  case (Throw ex c1)
  then have s: "setup_ok cfg c c1" using p by (simp add: setup_progress_def)
  moreover have "state c1 < StateClosed" "\<not> StateNotValidated < state c1" "forward c c1"
    using s c by (auto simp: setup_ok_def forward_def state_order)
  ultimately show ?thesis using p Throw
    by (auto simp: andThen_def setup_progress_def event_progress_def setup_ok_def)
qed (use p f in \<open>auto simp: andThen_def setup_progress_def\<close>)

lemma setup_finish:
  assumes ok: "setup_ok cfg c c1" "only_registered (Some op) c1" "state c1 = StateNotValidated" "ready c1" and c: "state c \<le> StateNotValidated"
  shows "\<exists>q. do { c3 \<leftarrow> setState cfg WriteBlocked StateHolding (unregister op c1);
      Some (Continue (nothing_todo\<lparr>startCB := startCallback c3\<rparr>, c3\<lparr>startCallback := False\<rparr>)) } = Some q \<and> event_progress cfg 0 0 c q"
proof -
  let ?c = "unregister op c1"
  have "setup_step c1 ?c" by (simp add: setup_step_def unregister_def)
  then have "setup_ok cfg c ?c" using ok(1) by (rule setup_step_ok)
  moreover have "state ?c = StateNotValidated" "ready ?c" "\<not> writeRegistered ?c"
    using ok(2-4) by (auto simp: unregister_def ready_def read_ok_def only_registered_def)
  ultimately obtain c3 where c3: "setState cfg WriteBlocked StateHolding ?c = Some c3" "control_ok cfg 0 0 c3" "data_ok c3" "same_requests c c3"
    "state c3 = StateHolding"
    using setState_Holding by blast
  let ?c4 = "c3\<lparr>startCallback := False\<rparr>"
  have "control_ok cfg 0 0 ?c4" "data_ok ?c4" "same_requests c ?c4"
    using c3(2-4) by (simp_all add: control_ok_def data_ok_def idle_def queue_ok_def read_ok_def maps_ok_def same_requests_def)
  moreover have "forward c ?c4" using c c3(5) by (intro forward_open) (auto simp: state_order)
  ultimately have "event_ok cfg 0 0 c (nothing_todo\<lparr>startCB := startCallback c3\<rparr>) ?c4" by (rule event_ok_nothing)
  moreover have "early_ok cfg ?c4" using c3(5) by (simp add: early_ok_def state_order)
  ultimately show ?thesis using c3(1) by (simp add: event_progress_def)
qed

lemma setup_stage_ok:
  assumes ok: "setup_ok cfg c c" "only_registered (Some op) c" "op \<noteq> OpReadWrite" "early_stream cfg c"
    and fits: "transport_fits cfg t"
  shows "\<exists>q. setup_stage cfg op t c = Some q \<and> event_progress cfg 0 0 c q"
proof -
  note fits' = fits [unfolded transport_fits_def]
  have early: "state c \<le> StateNotValidated" using ok(1) by (simp add: setup_ok_def)
  let ?op = "Some op"
  let ?last = "\<lambda>c2. do { c3 \<leftarrow> setState cfg WriteBlocked StateHolding (unregister op c2);
      Some (Continue (nothing_todo\<lparr>startCB := startCallback c3\<rparr>, c3\<lparr>startCallback := False\<rparr>)) } :: ('a todo \<times> 'a connection) progress option"
  let ?validate = "\<lambda>c1. andThen (if state c1 \<le> StateNotValidated then validate cfg ?op (t_validate_write t) (t_validate_read t) c1 else Some (Continue c1))
    ?last (\<lambda>c. (nothing_todo, c))"
  have v: "\<exists>q. ?validate c1 = Some q \<and> event_progress cfg 0 0 c q"
    if h: "setup_ok cfg c c1" "state c1 = StateNotValidated \<and> only_registered ?op c1 \<and> early_stream cfg c1" for c1
  proof -
    obtain p where p: "validate cfg ?op (t_validate_write t) (t_validate_read t) c1 = Some p"
      "setup_progress cfg c (\<lambda>c'. (only_registered ?op c' \<and> state c' = state c1) \<and> ready c') p"
      using validate_ok [OF h(1), of ?op "t_validate_write t" "t_validate_read t"] h(2) ok(3) fits' by auto
    have "\<exists>q. andThen (Some p) ?last (\<lambda>c. (nothing_todo, c)) = Some q \<and> event_progress cfg 0 0 c q"
      by (rule setup_progress_event [OF p(2) early]) (use setup_finish early h(2) in auto)
    then show ?thesis using p(1) h(2) by simp
  qed
  show ?thesis
  proof (cases "state c = StateNotInitialized")
    case True
    obtain p where p: "initialize cfg ?op (t_init t) c = Some p"
      "setup_progress cfg c (\<lambda>c'. state c' = StateNotValidated \<and> only_registered ?op c' \<and> early_stream cfg c') p"
      using initialize_ok [OF ok(1) True ok(2) _ ok(4), of "t_init t"] ok(3) fits' by auto
    have "\<exists>q. andThen (Some p) ?validate (\<lambda>c. (nothing_todo, c)) = Some q \<and> event_progress cfg 0 0 c q"
      by (rule setup_progress_event [OF p(2) early v])
    then show ?thesis using p(1) True by (simp add: setup_stage_def)
  next
    case False
    then have "state c = StateNotValidated" using early by (cases "state c") (simp_all add: state_order)
    then show ?thesis using v [of c] ok by (simp add: setup_stage_def andThen_def)
  qed
qed

text \<open>The transfer of bytes, before the state is looked at.\<close>

definition io_stage :: "'o config \<Rightarrow> socket_operation \<Rightarrow> transport \<Rightarrow> 'o connection \<Rightarrow> 'o connection progress option" where
  "io_stage cfg op t c = andThen (write_stage cfg op (t_write t) c) (read_stage cfg op (t_header t) (t_body t)) (\<lambda>c. c)"

lemma io_stage_ok:
  assumes "data_ok c"
  shows "\<exists>p. io_stage cfg op t c = Some p \<and> stage_ok c (\<lambda>c'. (writes op \<and> writeStream c \<noteq> [] \<longrightarrow> writeAtEnd c') \<and>
    (reads op \<and> StateNotValidated < state c \<and> state c < StateClosed \<longrightarrow> readAtEnd c' \<and> headerSize \<le> length (readStream c'))) p"
proof -
  obtain p where p: "write_stage cfg op (t_write t) c = Some p"
    "stage_ok c (\<lambda>c'. writes op \<and> writeStream c \<noteq> [] \<longrightarrow> writeAtEnd c') p"
    using write_stage_ok [OF assms] by blast
  show ?thesis
  proof (cases p)
    case (Continue c1)
    then have c1: "stream_step c c1" "data_ok c1" "writes op \<and> writeStream c \<noteq> [] \<longrightarrow> writeAtEnd c1" using p(2) by (auto simp: stage_ok_def)
    obtain q where q: "read_stage cfg op (t_header t) (t_body t) c1 = Some q"
      "stage_ok c1 (\<lambda>c'. writeAtEnd c' = writeAtEnd c1 \<and>
         (reads op \<and> StateNotValidated < state c1 \<and> state c1 < StateClosed \<longrightarrow> readAtEnd c' \<and> headerSize \<le> length (readStream c'))) q"
      using read_stage_ok [OF c1(2)] by blast
    have "stage_ok c (\<lambda>c'. (writes op \<and> writeStream c \<noteq> [] \<longrightarrow> writeAtEnd c') \<and>
      (reads op \<and> StateNotValidated < state c \<and> state c < StateClosed \<longrightarrow> readAtEnd c' \<and> headerSize \<le> length (readStream c'))) q"
      by (rule stage_ok_trans [OF c1(1) q(2)]) (use c1(3) stream_step_state [OF c1(1)] in auto)
    then show ?thesis using p(1) Continue q(1) by (simp add: io_stage_def andThen_def)
  qed (use p in \<open>simp_all add: io_stage_def andThen_def stage_ok_def\<close>)
qed

definition early_progress :: "'o config \<Rightarrow> 'o connection progress \<Rightarrow> bool" where
  "early_progress cfg p \<longleftrightarrow>
     (case p of Continue c' \<Rightarrow> early_stream cfg c' | Return c' \<Rightarrow> early_stream cfg c'
      | Throw ex c' \<Rightarrow> early_stream cfg c' \<and> proper cfg ex)"

lemma early_progress_datagram: "datagram cfg \<Longrightarrow> early_progress cfg p"
  by (cases p) (simp_all add: early_progress_def early_stream_def proper_def)

lemma early_read_stage:
  assumes "early_stream cfg c" "read_fits cfg (t_body t)" "\<not> datagram cfg"
  shows "\<exists>p. read_stage cfg op (t_header t) (t_body t) c = Some p \<and> early_progress cfg p"
proof (cases "reads op \<and> readStream c \<noteq> []")
  case True
  then have "\<not> readHeader c" "length (readStream c) = headerSize" "readPos c = 0" using assms(1,3) by (auto simp: early_stream_def)
  then show ?thesis using True assms
    by (auto simp: read_stage_def header_stage_def andThen_def read_into_def early_progress_def early_stream_def read_fits_def
        scheduleTimeout_def split: read_result.splits)
qed (use assms in \<open>auto simp: read_stage_def early_progress_def\<close>)

lemma io_stage_early:
  assumes "early_stream cfg c" "transport_fits cfg t" "io_stage cfg op t c = Some p"
  shows "early_progress cfg p"
proof (cases "datagram cfg")
  case False
  have fits: "write_fits cfg (t_write t)" "read_fits cfg (t_body t)" using assms(2) by (auto simp: transport_fits_def)
  obtain q where q: "write_stage cfg op (t_write t) c = Some q" "early_progress cfg q"
    using assms(1) fits(1)
    by (auto simp: write_stage_def write_from_def early_progress_def early_stream_def write_fits_def scheduleTimeout_def split: write_result.splits)
  then show ?thesis using assms(3) early_read_stage [OF _ fits(2) False, of _ op]
    by (cases q) (fastforce simp: io_stage_def andThen_def early_progress_def)+
qed (rule early_progress_datagram)

text \<open>The thread pool reports an operation that is registered.\<close>

definition event_enabled :: "socket_operation \<Rightarrow> 'o connection \<Rightarrow> bool" where
  "event_enabled op c \<longleftrightarrow> (reads op \<longrightarrow> readRegistered c) \<and> (writes op \<longrightarrow> writeRegistered c)"

lemma event_progress_base:
  assumes "stream_step c c1" "event_progress cfg n k c1 p"
  shows "event_progress cfg n k c p"
proof -
  have "forward c1 c' = forward c c'" "same_requests c1 c' = same_requests c c'" "reply_effect a c1 c' = reply_effect a c c'" "transceiverClosed c1 = transceiverClosed c" for c' a
    using assms(1) reply_effect_cong [of c1 c] by (auto simp: stream_step_def forward_def same_requests_def)
  then show ?thesis using assms(2) by (cases p) (auto simp: event_progress_def event_ok_def)
qed

lemma event_ok_none:
  assumes "control_ok cfg n k c'" "data_ok c'" "same_requests c c'" "forward c c'"
  shows "event_ok cfg n k c nothing_todo c'"
  using event_ok_nothing [OF assms, of False] by (simp add: nothing_todo_def)

text \<open>The bytes are transferred and the stage of the state follows.\<close>

lemma stages_ok:
  assumes cfg: "config_ok cfg" and ok: "control_ok cfg n k c" "data_ok c" "early_ok cfg c" "state c < StateClosed"
    and enabled: "event_enabled op c" and fits: "state c \<le> StateNotValidated \<Longrightarrow> transport_fits cfg t"
  shows "\<exists>q. andThen (io_stage cfg op t (unscheduleTimeout op c))
      (\<lambda>c1. if state c1 \<le> StateNotValidated then setup_stage cfg op t c1 else transfer_stage cfg op t c1) (\<lambda>c. (nothing_todo, c)) = Some q \<and>
    event_progress cfg n k c q"
proof -
  let ?c = "unscheduleTimeout op c"
  have d: "data_ok ?c" using ok(2) by simp
  obtain p where p: "io_stage cfg op t ?c = Some p" and st: "stage_ok ?c (\<lambda>c'. (writes op \<and> writeStream ?c \<noteq> [] \<longrightarrow> writeAtEnd c') \<and>
    (reads op \<and> StateNotValidated < state ?c \<and> state ?c < StateClosed \<longrightarrow> readAtEnd c' \<and> headerSize \<le> length (readStream c'))) p"
    using io_stage_ok [OF d] by blast
  have base: "stream_step c ?c" by simp
  have step: "stream_step c c1" if "stream_step ?c c1" for c1 using stream_step_trans [OF base that] .
  have ctl: "control_ok cfg n k c1" "same_requests c c1" "forward c c1" "state c1 = state c" if "stream_step ?c c1" for c1
    using step [OF that] stream_step_control [of c c1 cfg n k] stream_step_requests ok(1) by (auto simp: stream_step_def forward_le)
  have early: "early_progress cfg p" if "state c \<le> StateNotValidated"
  proof (rule io_stage_early [OF _ fits [OF that] p])
    show "early_stream cfg ?c" using ok(3) that by (simp add: early_ok_def early_stream_def unscheduleTimeout_def)
  qed
  have reg: "early_ok cfg c1" if "stream_step ?c c1" "state c \<le> StateNotValidated \<Longrightarrow> early_stream cfg c1" for c1
    using step [OF that(1)] that(2) ok(3) by (auto simp: early_ok_def stream_step_def)
  show ?thesis
  proof (cases p)
    case (Return c1)
    then have c1: "stream_step ?c c1" "data_ok c1" using st by (auto simp: stage_ok_def)
    have "early_ok cfg c1" using reg [OF c1(1)] early Return by (simp add: early_progress_def)
    then show ?thesis using p Return event_ok_none [OF ctl(1) [OF c1(1)] c1(2) ctl(2,3) [OF c1(1)]]
      by (simp add: andThen_def event_progress_def)
  next
    case (Throw ex c1)
    then have c1: "stream_step ?c c1" using st by (auto simp: stage_ok_def)
    have "early_ok cfg c1" "state c1 \<le> StateNotValidated \<longrightarrow> proper cfg ex"
      using reg [OF c1] ctl(4) [OF c1] early Throw by (auto simp: early_progress_def)
    moreover have "state c1 \<le> StateNotValidated \<longrightarrow> idle c1" "StateNotValidated < state c1 \<longrightarrow> queue_ok c1 \<and> maps_ok c1"
      using ok(2,4) step [OF c1] by (auto simp: data_ok_def stream_step_def idle_def queue_ok_def maps_ok_def)
    ultimately show ?thesis using p Throw ctl [OF c1] ok(4) by (auto simp: andThen_def event_progress_def)
  next
    case (Continue c1)
    then have c1: "stream_step ?c c1" "data_ok c1" using st by (auto simp: stage_ok_def)
    note f = ctl [OF c1(1)]
    show ?thesis
    proof (cases "state c \<le> StateNotValidated")
      case True
      note nk = control_ok_early [OF ok(1) True]
      have s: "setup_ok cfg c1 c1" using setup_ok_start [OF f(1) c1(2)] True f(4) by simp
      have r: "only_registered (Some op) c1" "op \<noteq> OpReadWrite"
        using ok(3) True enabled step [OF c1(1)]
        by (cases op; auto simp: early_ok_def event_enabled_def only_registered_def stream_step_def)+
      have "early_stream cfg c1" using early [OF True] Continue by (simp add: early_progress_def)
      with setup_stage_ok [OF s r this fits [OF True]] obtain q where "setup_stage cfg op t c1 = Some q" "event_progress cfg n k c1 q"
        using nk by auto
      then show ?thesis using p Continue True f(4) event_progress_base [OF step [OF c1(1)]] by (simp add: andThen_def)
    next
      case False
      then have nv: "StateNotValidated < state c1" "state c1 < StateClosed" using f(4) ok(4) by simp_all
      have w: "sendStreams c1 \<noteq> [] \<and> writeAtEnd c1" if "writes op"
      proof -
        have "queue_ok c" "writeRegistered c" using ok(2,4) False that enabled by (auto simp: data_ok_def event_enabled_def)
        then have q: "sendStreams c \<noteq> []" "writeStream c \<noteq> []" by (cases "sendStreams c"; auto simp: queue_ok_def)+
        then have "sendStreams c1 \<noteq> []" "writeStream ?c \<noteq> []" using step [OF c1(1)] by (auto simp: stream_step_def unscheduleTimeout_def)
        then show ?thesis using st Continue that by (simp add: stage_ok_def)
      qed
      have rd: "readAtEnd c1 \<and> headerSize \<le> length (readStream c1)" if "reads op"
        using st Continue that False ok(4) by (auto simp: stage_ok_def)
      obtain td c' where "transfer_stage cfg op t c1 = Some (Continue (td, c'))" "event_ok cfg n k c1 td c'"
        using transfer_stage_ok [OF cfg f(1) c1(2) nv rd w] by blast
      moreover have "early_ok cfg c'" using calculation(2) nv(1) by (auto simp: event_ok_def forward_def early_ok_def)
      ultimately have "event_progress cfg n k c1 (Continue (td, c'))" "transfer_stage cfg op t c1 = Some (Continue (td, c'))"
        by (simp_all add: event_progress_def)
      then show ?thesis using p Continue False f(4) event_progress_base [OF step [OF c1(1)]] by (simp add: andThen_def)
    qed
  qed
qed

text \<open>An exception closes the connection, or is ignored on a datagram connection, whose read stream is made ready again.\<close>

lemma close_after:
  assumes "weak_ok cfg n k c" "state c < StateClosed"
  shows "\<exists>c'. close_with cfg ex c = Some c' \<and> control_ok cfg n k c' \<and> data_ok c' \<and> same_requests c c' \<and> state c' = StateClosed"
proof -
  obtain w m where "close_with cfg ex c = Some (c\<lparr>except := Some (case except c of None \<Rightarrow> ex | Some e \<Rightarrow> e), warned := w,
    poolFinish := True, monitored := m, state := StateClosed\<rparr>)" (is "_ = Some ?c")
    using close_with_open [OF assms(2)] by blast
  moreover have "control_ok cfg n k ?c" using assms by (auto simp: control_ok_def weak_ok_def state_order)
  moreover have "data_ok ?c" by (simp add: data_ok_def state_order)
  ultimately show ?thesis by (simp add: same_requests_def)
qed

lemma recover_read:
  assumes "control_ok cfg n k c" "state c < StateClosed" "state c \<le> StateNotValidated \<longrightarrow> idle c"
    "StateNotValidated < state c \<longrightarrow> queue_ok c \<and> maps_ok c"
  shows "control_ok cfg n k (reset_read (c\<lparr>warned := w\<rparr>))" "data_ok (reset_read (c\<lparr>warned := w\<rparr>))"
  using assms by (auto simp: control_ok_def data_ok_def reset_read_def idle_def queue_ok_def read_ok_def maps_ok_def state_order)

lemma event_caught:
  assumes "event_progress cfg n k c (Throw ex (td, c1))"
  shows "\<exists>c'. catch_exception cfg ex c1 = Some c' \<and> event_ok cfg n k c nothing_todo c' \<and> early_ok cfg c'"
proof -
  have c1: "control_ok cfg n k c1" "state c1 < StateClosed" "same_requests c c1" "forward c c1"
    "state c1 \<le> StateNotValidated \<longrightarrow> idle c1 \<and> early_ok cfg c1 \<and> proper cfg ex"
    "StateNotValidated < state c1 \<longrightarrow> queue_ok c1 \<and> maps_ok c1"
    using assms by (simp_all add: event_progress_def)
  have recover: "event_ok cfg n k c nothing_todo (reset_read (c1\<lparr>warned := w\<rparr>)) \<and> early_ok cfg (reset_read (c1\<lparr>warned := w\<rparr>))"
    if "datagram cfg \<or> ex = DatagramLimitException" for w
  proof
    show "event_ok cfg n k c nothing_todo (reset_read (c1\<lparr>warned := w\<rparr>))"
      using recover_read [OF c1(1,2), of w] c1(3-6)
      by (intro event_ok_none) (auto simp: same_requests_def reset_read_def forward_def)
    show "early_ok cfg (reset_read (c1\<lparr>warned := w\<rparr>))"
      using c1(5) that by (auto simp: early_ok_def early_stream_def reset_read_def proper_def)
  qed
  have same: "c1\<lparr>warned := warned c1\<rparr> = c1" by (cases c1) simp
  show ?thesis
  proof (cases "ex \<noteq> DatagramLimitException \<and> (is_socket_exception ex \<or> \<not> datagram cfg)")
    case True
    obtain c2 where c2: "close_with cfg ex c1 = Some c2" "control_ok cfg n k c2" "data_ok c2" "same_requests c1 c2" "state c2 = StateClosed"
      using close_after [OF control_ok_weak [OF c1(1)] c1(2)] by blast
    have "forward c1 c2" using c1(2) c2(5) by (auto simp: forward_def state_order)
    then have "event_ok cfg n k c nothing_todo c2"
      using event_ok_none [OF c2(2,3)] same_requests_trans [OF c1(3) c2(4)] forward_trans [OF c1(4)] by blast
    then show ?thesis using True c2(1,5) by (auto simp: catch_exception_def early_ok_def state_order)
  next
    case False
    then show ?thesis using recover [of "warned c1"] recover [of "warned c1 @ [ex]"] same by (auto simp: catch_exception_def)
  qed
qed

lemma message_ok:
  assumes cfg: "config_ok cfg" and ok: "control_ok cfg n k c" "data_ok c" "early_ok cfg c"
    and enabled: "event_enabled op c" and fits: "state c \<le> StateNotValidated \<Longrightarrow> transport_fits cfg t"
  shows "\<exists>td c'. message cfg op t c = Some (td, c') \<and> event_ok cfg n k c td c' \<and> early_ok cfg c'"
proof (cases "StateClosed \<le> state c")
  case True
  then show ?thesis using ok event_ok_none [OF ok(1,2)] by (simp add: message_def)
next
  case False
  then have lt: "state c < StateClosed" by simp
  obtain q where q: "andThen (io_stage cfg op t (unscheduleTimeout op c))
      (\<lambda>c1. if state c1 \<le> StateNotValidated then setup_stage cfg op t c1 else transfer_stage cfg op t c1) (\<lambda>c. (nothing_todo, c)) = Some q"
    and ev: "event_progress cfg n k c q"
    using stages_ok [OF cfg ok lt enabled fits] by blast
  show ?thesis
  proof (cases q)
    case (Throw ex x)
    obtain td c1 where x: "x = (td, c1)" by force
    with Throw ev event_caught [of cfg n k c ex td c1] show ?thesis using False q by (auto simp: message_def io_stage_def)
  qed (use False q ev in \<open>auto simp: message_def io_stage_def event_progress_def\<close>)
qed

section \<open>The end of a connection\<close>

text \<open>Requests that wait for their reply, and requests that are done.\<close>

definition outstanding :: "'o \<Rightarrow> 'o connection \<Rightarrow> bool" where
  "outstanding q c \<longleftrightarrow> (\<exists>i. smap_find (requests c) i = Some q) \<or> (\<exists>i. smap_find (asyncRequests c) i = Some q)"

definition settled :: "'o \<Rightarrow> 'o connection \<Rightarrow> bool" where
  "settled q c \<longleftrightarrow> q \<in> fst ` set (completed c)"

text \<open>The entry a queued message would erase from its map is its own.\<close>

definition owner_ok :: "'o connection \<Rightarrow> 'o message \<Rightarrow> bool" where
  "owner_ok c m \<longleftrightarrow> m_requestId m \<noteq> 0 \<longrightarrow>
     (case m_caller m of
        NoCaller \<Rightarrow> False
      | Sync q \<Rightarrow> smap_find (requests c) (m_requestId m) \<in> {None, Some q}
      | Async q \<Rightarrow> smap_find (asyncRequests c) (m_requestId m) \<in> {None, Some q})"

definition same_life :: "'o connection \<Rightarrow> 'o connection \<Rightarrow> bool" where
  "same_life c c' \<longleftrightarrow> state c' = state c \<and> except c' = except c \<and> shutdownInitiated c' = shutdownInitiated c \<and>
     dispatchCount c' = dispatchCount c \<and> poolFinish c' = poolFinish c \<and> transceiverClosed c' = transceiverClosed c \<and>
     reaped c' = reaped c"

lemma fail_message_life: "same_life c (fail_message ex m c)"
  by (simp add: same_life_def fail_message_def complete_def Let_def split: caller.splits)

lemma fail_message_covers:
  assumes "owner_ok c m" "outstanding q c \<or> settled q c"
  shows "outstanding q (fail_message ex m c) \<or> settled q (fail_message ex m c)"
proof (cases "settled q c \<or> m_requestId m = 0")
  case True
  then show ?thesis using assms(2)
    by (auto simp: settled_def outstanding_def fail_message_def complete_def Let_def split: caller.splits)
next
  case False
  then show ?thesis using assms
    by (cases "m_caller m")
      (auto simp: owner_ok_def settled_def outstanding_def fail_message_def complete_def Let_def smap_erase_find, (metis option.inject option.distinct(1))+)
qed

lemma fail_message_owner: "owner_ok c m' \<Longrightarrow> owner_ok (fail_message ex m c) m'"
  by (auto simp: owner_ok_def fail_message_def complete_def Let_def smap_erase_find split: caller.splits)

lemma fail_fold:
  "same_life c (fold (fail_message ex) ms c) \<and>
     ((\<forall>m \<in> set ms. owner_ok c m) \<longrightarrow> outstanding q c \<or> settled q c \<longrightarrow>
        outstanding q (fold (fail_message ex) ms c) \<or> settled q (fold (fail_message ex) ms c)) \<and>
     (settled q c \<longrightarrow> settled q (fold (fail_message ex) ms c))"
proof (induction ms arbitrary: c)
  case (Cons m ms)
  have "settled q c \<longrightarrow> settled q (fail_message ex m c)"
    by (simp add: settled_def fail_message_def complete_def Let_def split: caller.splits)
  with Cons.IH [of "fail_message ex m c"] fail_message_life [of c ex m] fail_message_covers [of c m q ex] fail_message_owner [of c _ ex m]
  show ?case by (auto simp: same_life_def)
qed (simp add: same_life_def)

lemma fail_requests_settles: "outstanding q c \<or> settled q c \<Longrightarrow> settled q (fail_requests ex c)"
  by (force simp: outstanding_def settled_def fail_requests_def dest: map_of_SomeD)

lemma finish_ok:
  assumes ok: "control_ok cfg n k c" "state c = StateClosed"
  shows "\<exists>c'. finish cfg c = Some c' \<and> control_ok cfg n k c' \<and> data_ok c' \<and> state c' = StateFinished \<and>
    (\<forall>q. settled q c \<longrightarrow> settled q c') \<and>
    ((\<forall>m \<in> set (sendStreams c). owner_ok c m) \<longrightarrow> (\<forall>q. outstanding q c \<longrightarrow> settled q c'))"
proof -
  obtain ex where ex: "except c = Some ex" using ok by (auto simp: control_ok_def state_order)
  define c0 where "c0 = (case sendStreams c of m # _ \<Rightarrow> if writeStream c \<noteq> [] then c\<lparr>writeStream := m_stream m\<rparr> else c | [] \<Rightarrow> c)
    \<lparr>startCallback := False\<rparr>"
  define c1 where "c1 = fold (fail_message ex) (sendStreams c) c0"
  define c2 where "c2 = fail_requests ex (c1\<lparr>sendStreams := []\<rparr>)"
  define c3 where "c3 = c2\<lparr>transceiverClosed := True, monitored := monitored c2, state := StateFinished\<rparr>"
  have c0: "same_life c c0" "requests c0 = requests c" "asyncRequests c0 = asyncRequests c" "completed c0 = completed c"
    by (simp_all add: c0_def same_life_def split: list.splits)
  have owner: "owner_ok c0 m = owner_ok c m" for m using c0 by (simp add: owner_ok_def split: caller.splits)
  have out: "outstanding q c0 = outstanding q c" "settled q c0 = settled q c" for q using c0 by (simp_all add: outstanding_def settled_def)
  note fold = fail_fold [of c0 ex "sendStreams c", folded c1_def]
  have life: "same_life c c2" using c0(1) fold by (simp add: c2_def fail_requests_def same_life_def)
  have empty: "sendStreams c2 = []" "requests c2 = []" "asyncRequests c2 = []" by (simp_all add: c2_def fail_requests_def)
  have eq: "finish cfg c = Some (if dispatchCount c3 = 0 then c3\<lparr>reaped := reaped c3 + 1\<rparr> else c3)"
    using ex life ok(2) by (simp add: finish_def c0_def [symmetric] c1_def [symmetric] c2_def [symmetric] c3_def Let_def setState_def
      enter_state_def target_state_def switch_state_def same_life_def cong: list.case_cong)
  let ?c = "if dispatchCount c3 = 0 then c3\<lparr>reaped := reaped c3 + 1\<rparr> else c3"
  have "settled q (fail_requests ex (c1\<lparr>sendStreams := []\<rparr>))" if "outstanding q c1 \<or> settled q c1" for q
    by (rule fail_requests_settles) (use that in \<open>simp add: outstanding_def settled_def\<close>)
  then have "settled q c2" if "outstanding q c1 \<or> settled q c1" for q using that by (simp add: c2_def)
  then have "\<forall>q. settled q c \<longrightarrow> settled q c2" "(\<forall>m \<in> set (sendStreams c). owner_ok c m) \<longrightarrow> (\<forall>q. outstanding q c \<longrightarrow> settled q c2)"
    using fold out owner by blast+
  moreover have "settled q ?c = settled q c2" for q by (simp add: settled_def c3_def)
  moreover have "control_ok cfg n k ?c" using ok life by (auto simp: control_ok_def same_life_def c3_def state_order)
  moreover have "data_ok ?c" using empty by (simp add: data_ok_def c3_def state_order)
  moreover have "state ?c = StateFinished" by (simp add: c3_def)
  ultimately show ?thesis using eq by auto
qed

end
