(* ===== verification/ConnectionBatch.thy ===== *)
theory ConnectionBatch
  imports ConnectionEvents "HOL-Library.Sublist"
begin

text \<open>
  Batch requests: \<open>prepareBatchRequest\<close> to \<open>flushAsyncBatchRequests\<close> of \<^verbatim>\<open>cpp/src/Ice/ConnectionI.cpp\<close>. The caller
  borrows the batch stream, appends a request and gives it back; a flush sends the whole stream as one message. The
  members of the connection that only these operations use are a record of their own.
\<close>

section \<open>State and operations\<close>

text \<open>\<open>handed\<close> records the messages that were passed on to be sent.\<close>

record batch =
  batchStream :: "byte list"
  batchStreamInUse :: bool
  batchRequestNum :: int
  batchRequestCompress :: bool
  batchMarker :: nat
  handed :: "byte list list"

definition batch_new :: batch where
  "batch_new = \<lparr>batchStream = [], batchStreamInUse = False, batchRequestNum = 0, batchRequestCompress = False, batchMarker = 0,
     handed = []\<rparr>"

definition batch_reset :: "batch \<Rightarrow> batch" where
  "batch_reset b = b\<lparr>batchStream := [], batchRequestNum := 0, batchRequestCompress := False, batchMarker := 0\<rparr>"

text \<open>The condition on which the waiting loops of \<open>prepareBatchRequest\<close> and of the flushes end.\<close>

definition batch_ready :: "batch \<Rightarrow> 'o connection \<Rightarrow> bool" where
  "batch_ready b c \<longleftrightarrow> \<not> batchStreamInUse b \<or> except c \<noteq> None"

datatype batch_result = BatchOk | BatchRetry local_exception | BatchThrow local_exception

text \<open>
  The caller's stream \<open>os\<close> is exchanged with the batch stream; the result has what the caller holds afterwards. A stream
  that is not \<^verbatim>\<open>unlimited\<close> refuses to grow beyond the maximal message size.
\<close>

definition prepareBatchRequest :: "'o config \<Rightarrow> byte list \<Rightarrow> batch \<Rightarrow> 'o connection \<Rightarrow>
    (batch_result \<times> byte list \<times> batch \<times> 'o connection) option" where
  "prepareBatchRequest cfg os b c =
     (case except c of
        Some ex \<Rightarrow> Some (if batchStream b = [] then BatchRetry ex else BatchThrow ex, os, b, c)
      | None \<Rightarrow>
          do {
            _ \<leftarrow> ensure (state c > StateNotValidated \<and> state c < StateClosing);
            if batchStream b = [] \<and> \<not> batchAutoFlush cfg \<and> int (length requestBatchHdr) > messageSizeMax cfg then do {
              c1 \<leftarrow> close_with cfg MemoryLimitException c;
              Some (BatchThrow MemoryLimitException, os, b, c1)
            } else
              (let s = (if batchStream b = [] then requestBatchHdr else batchStream b)
               in Some (BatchOk, s, b\<lparr>batchStream := os, batchStreamInUse := True, batchMarker := length s\<rparr>, c))
          })"

text \<open>Filling in the number of requests, and sending the stream.\<close>

definition fill_batch_num :: "int \<Rightarrow> byte list \<Rightarrow> byte list" where
  "fill_batch_num n s = memcpy_at s headerSize (nat_to_le 4 (nat n))"

definition send_batch :: "'o config \<Rightarrow> write_result \<Rightarrow> 'o caller \<Rightarrow> bool \<Rightarrow> byte list \<Rightarrow> 'o connection \<Rightarrow>
    ((local_exception + async_status) \<times> 'o connection) option" where
  "send_batch cfg io caller compress s c =
     do {
       (r, c1) \<leftarrow> sendMessage cfg io \<lparr>m_stream = s, m_caller = caller, m_compress = compress, m_requestId = 0, m_isSent = False\<rparr> c;
       case r of
         Inl ex \<Rightarrow> do {
           c2 \<leftarrow> close_with cfg ex c1;
           ex' \<leftarrow> except c2;
           Some (Inl ex', c2)
         }
       | Inr status \<Rightarrow> Some (Inr status, c1)
     }"

text \<open>
  The automatic flush of \<open>finishBatchRequest\<close>: the batch goes out without the last request, which starts a new one unless
  it is too big alone.
\<close>

definition auto_flush :: "'o config \<Rightarrow> write_result \<Rightarrow> batch \<Rightarrow> 'o connection \<Rightarrow>
    ((local_exception + unit) \<times> batch \<times> 'o connection) option" where
  "auto_flush cfg io b c =
     do {
       _ \<leftarrow> ensure (batchMarker b \<le> length (batchStream b) \<and> headerSize + 4 \<le> batchMarker b);
       (let lastRequest = drop (batchMarker b) (batchStream b);
            s = fill_batch_num (batchRequestNum b) (take (batchMarker b) (batchStream b))
        in do {
          (r, c1) \<leftarrow> send_batch cfg io NoCaller (batchRequestCompress b) s c;
          case r of
            Inl ex \<Rightarrow> Some (Inl ex, b\<lparr>batchStream := s\<rparr>, c1)
          | Inr _ \<Rightarrow>
              (let b1 = (batch_reset b)\<lparr>handed := handed b @ [s]\<rparr>
               in if int (length requestBatchHdr + length lastRequest) > messageSizeMax cfg then Some (Inl MemoryLimitException, b1, c1)
                  else Some (Inr (), b1\<lparr>batchStream := requestBatchHdr @ lastRequest\<rparr>, c1))
        })
     }"

definition abortBatchRequest :: "batch \<Rightarrow> batch option" where
  "abortBatchRequest b = do { _ \<leftarrow> ensure (batchStreamInUse b); Some ((batch_reset b)\<lparr>batchStreamInUse := False\<rparr>) }"

text \<open>The body of the try block; \<open>check\<close> is the exception of \<^verbatim>\<open>checkSendSize\<close>, if it throws.\<close>

definition finish_body :: "'o config \<Rightarrow> write_result \<Rightarrow> local_exception option \<Rightarrow> bool \<Rightarrow> batch \<Rightarrow> 'o connection \<Rightarrow>
    ((local_exception + unit) \<times> batch \<times> 'o connection) option" where
  "finish_body cfg io check compress b c =
     (case except c of
        Some ex \<Rightarrow> Some (Inl ex, b, c)
      | None \<Rightarrow>
          do {
            (r, b1, c1) \<leftarrow>
              (if batchAutoFlush cfg then
                 (case check of
                    None \<Rightarrow> Some (Inr (), b, c)
                  | Some ex \<Rightarrow> if batchRequestNum b > 0 then auto_flush cfg io b c else Some (Inl ex, b, c))
               else Some (Inr (), b, c));
            case r of
              Inl ex \<Rightarrow> Some (Inl ex, b1, c1)
            | Inr _ \<Rightarrow>
                do {
                  _ \<leftarrow> ensure (batchStreamInUse b1);
                  Some (Inr (), b1\<lparr>batchStreamInUse := False, batchRequestNum := incr32 (batchRequestNum b1),
                    batchRequestCompress := compress \<or> batchRequestCompress b1\<rparr>, c1)
                }
          })"

definition finishBatchRequest :: "'o config \<Rightarrow> write_result \<Rightarrow> local_exception option \<Rightarrow> byte list \<Rightarrow> bool \<Rightarrow> batch \<Rightarrow>
    'o connection \<Rightarrow> (batch_result \<times> batch \<times> 'o connection) option" where
  "finishBatchRequest cfg io check os compress b c =
     do {
       (r, b1, c1) \<leftarrow> finish_body cfg io check compress (b\<lparr>batchStream := os\<rparr>) c;
       case r of
         Inr _ \<Rightarrow> Some (BatchOk, b1, c1)
       | Inl ex \<Rightarrow> do { b2 \<leftarrow> abortBatchRequest b1; Some (BatchThrow ex, b2, c1) }
     }"

text \<open>
  \<open>flushBatchRequests\<close> and \<open>flushAsyncBatchRequests\<close>, for the caller of the flush. The stream of the invocation, \<open>os\<close>, is
  exchanged with the batch stream before it is sent.
\<close>

definition flush_batch :: "'o config \<Rightarrow> write_result \<Rightarrow> 'o caller \<Rightarrow> byte list \<Rightarrow> batch \<Rightarrow> 'o connection \<Rightarrow>
    ((local_exception + async_status) \<times> batch \<times> 'o connection) option" where
  "flush_batch cfg io caller os b c =
     (case except c of
        Some ex \<Rightarrow> Some (Inl ex, b, c)
      | None \<Rightarrow>
          if batchRequestNum b = 0 then
            (let (cb, c1) = message_sent cfg \<lparr>m_stream = [], m_caller = caller, m_compress = False, m_requestId = 0, m_isSent = False\<rparr> c
             in Some (Inr (AsyncStatusSent cb), b, c1))
          else do {
            _ \<leftarrow> ensure (headerSize + 4 \<le> length (batchStream b));
            (let s = fill_batch_num (batchRequestNum b) (batchStream b)
             in do {
               (r, c1) \<leftarrow> send_batch cfg io caller (batchRequestCompress b) s c;
               case r of
                 Inl ex \<Rightarrow> Some (Inl ex, b\<lparr>batchStream := os\<rparr>, c1)
               | Inr status \<Rightarrow> Some (Inr status, (batch_reset b)\<lparr>handed := handed b @ [s]\<rparr>, c1)
             })
          })"

definition flushBatchRequests :: "'o config \<Rightarrow> write_result \<Rightarrow> 'o \<Rightarrow> byte list \<Rightarrow> batch \<Rightarrow> 'o connection \<Rightarrow>
    ((local_exception + bool) \<times> batch \<times> 'o connection) option" where
  "flushBatchRequests cfg io q os b c =
     map_option (\<lambda>(r, x). (map_sum id (\<lambda>st. st \<noteq> AsyncStatusQueued) r, x)) (flush_batch cfg io (Sync q) os b c)"

definition flushAsyncBatchRequests :: "'o config \<Rightarrow> write_result \<Rightarrow> 'o \<Rightarrow> byte list \<Rightarrow> batch \<Rightarrow> 'o connection \<Rightarrow>
    ((local_exception + async_status) \<times> batch \<times> 'o connection) option" where
  "flushAsyncBatchRequests cfg io q = flush_batch cfg io (Async q)"

section \<open>What a batch holds\<close>

text \<open>
  The specification: the batch is a list of requests. Its message is the header of a batch, the number of requests and the
  requests in order. \<open>batch_holds\<close> relates the members of the connection to the requests \<open>rss\<close> of the messages handed
  over and to the requests \<open>rs\<close> of the current batch, as long as the connection has no exception; \<open>lent\<close> is the stream
  that a caller has borrowed.
\<close>

definition batch_message :: "byte list list \<Rightarrow> byte list" where
  "batch_message rs = take headerSize requestBatchHdr @ nat_to_le 4 (length rs) @ concat rs"

definition batch_holds :: "bool \<Rightarrow> byte list option \<Rightarrow> byte list list list \<Rightarrow> byte list list \<Rightarrow> batch \<Rightarrow> bool" where
  "batch_holds op lent rss rs b \<longleftrightarrow> handed b = map batch_message rss \<and> (batchStreamInUse b \<longleftrightarrow> lent \<noteq> None) \<and>
     (op \<longrightarrow> batchRequestNum b = int (length rs) \<and>
        (case lent of
           None \<Rightarrow> batchStream b = (if rs = [] then [] else requestBatchHdr @ concat rs)
         | Some s \<Rightarrow> s = requestBatchHdr @ concat rs \<and> batchMarker b = length s))"

text \<open>
  The accepted requests \<open>acc\<close> are in the messages and the batch, in order; none is missing unless a caller gave up a
  request (\<open>ab\<close>) or the connection failed.
\<close>

definition batch_ok :: "byte list list \<Rightarrow> bool \<Rightarrow> byte list option \<Rightarrow> batch \<Rightarrow> 'o connection \<Rightarrow> bool" where
  "batch_ok acc ab lent b c \<longleftrightarrow> (\<exists>rss rs. batch_holds (except c = None) lent rss rs b \<and> [] \<notin> set rs \<and>
     subseq (concat rss @ rs) acc \<and> (\<not> ab \<and> except c = None \<longrightarrow> acc = concat rss @ rs))"

lemma batch_okI:
  assumes "batch_holds (except c = None) lent rss rs b" "[] \<notin> set rs" "subseq (concat rss @ rs) acc"
    "\<not> ab \<Longrightarrow> except c = None \<Longrightarrow> acc = concat rss @ rs"
  shows "batch_ok acc ab lent b c"
  using assms by (auto simp: batch_ok_def)

lemma batch_ok_new: "batch_ok [] False None batch_new c"
  by (rule batch_okI [of _ _ "[]" "[]"]) (simp_all add: batch_holds_def batch_new_def)

lemma fill_batch_num_message: "fill_batch_num (int (length rs)) (requestBatchHdr @ concat rs) = batch_message rs"
  by (simp add: fill_batch_num_def batch_message_def memcpy_at_def requestBatchHdr_def headerSize_def magic_def)

lemma length_requestBatchHdr [simp]: "length requestBatchHdr = headerSize + 4"
  by (simp add: requestBatchHdr_def headerSize_def magic_def)

lemma requestBatchHdr_nonempty [simp]: "requestBatchHdr \<noteq> []"
  by (simp add: requestBatchHdr_def)

lemma length_batch_message: "headerSize \<le> length (batch_message rs)"
  by (simp add: batch_message_def)

text \<open>A connection that fails keeps what was handed over.\<close>

lemma batch_ok_failed:
  assumes "batch_ok acc ab lent b c" "handed b' = handed b" "batchStreamInUse b' \<longleftrightarrow> lent' \<noteq> None" "except c' \<noteq> None"
  shows "batch_ok acc ab lent' b' c'"
proof -
  obtain rss rs where "batch_holds (except c = None) lent rss rs b" "[] \<notin> set rs" "subseq (concat rss @ rs) acc"
    using assms(1) unfolding batch_ok_def by blast
  moreover obtain ex where "except c' = Some ex" using assms(4) by blast
  ultimately show ?thesis using assms(2,3) by (intro batch_okI [of c' lent' rss rs]) (simp_all add: batch_holds_def)
qed

lemma batch_ok_conn:
  assumes "batch_ok acc ab lent b c" "except c \<noteq> None \<longrightarrow> except c' \<noteq> None"
  shows "batch_ok acc ab lent b c'"
proof -
  obtain rss rs where "batch_holds (except c = None) lent rss rs b" "[] \<notin> set rs" "subseq (concat rss @ rs) acc"
    "\<not> ab \<and> except c = None \<longrightarrow> acc = concat rss @ rs"
    using assms(1) unfolding batch_ok_def by blast
  then show ?thesis using assms(2) by (intro batch_okI [of c' lent rss rs]) (auto simp: batch_holds_def)
qed

section \<open>The operations keep the batch and the connection\<close>

text \<open>A step of the connection, as \<open>keeps\<close>.\<close>

definition steps_to :: "'o config \<Rightarrow> int \<Rightarrow> int \<Rightarrow> 'o connection \<Rightarrow> 'o connection \<Rightarrow> bool" where
  "steps_to cfg n k c c' \<longleftrightarrow> control_ok cfg n k c' \<and> data_ok c' \<and> same_requests c c' \<and> forward c c'"

lemma steps_to_refl: "control_ok cfg n k c \<Longrightarrow> data_ok c \<Longrightarrow> steps_to cfg n k c c"
  by (simp add: steps_to_def)

lemma steps_to_keeps: "steps_to cfg n k c c' \<Longrightarrow> keeps cfg n k c (Some c')"
  by (simp add: steps_to_def keeps_def)

lemma close_with_steps:
  assumes "control_ok cfg n k c" "data_ok c"
  obtains c' ex' where "close_with cfg ex c = Some c'" "steps_to cfg n k c c'" "except c' = Some ex'"
proof -
  obtain c' where c': "close_with cfg ex c = Some c'" "except c' \<noteq> None" using close_with_result [OF assms, of ex] by blast
  moreover have "steps_to cfg n k c c'" using close_with_keeps [OF assms, of ex] c'(1) by (auto simp: keeps_def steps_to_def)
  ultimately show ?thesis using that by blast
qed

lemma steps_to_trans: "steps_to cfg n k a b \<Longrightarrow> steps_to cfg n k b c \<Longrightarrow> steps_to cfg n k a c"
  by (auto simp: steps_to_def same_requests_def intro: forward_trans)

lemma open_state: "control_ok cfg n k c \<Longrightarrow> except c = None \<Longrightarrow> state c < StateClosing"
  by (simp add: control_ok_def)

lemma send_batch_ok:
  assumes cfg: "config_ok cfg" and ok: "control_ok cfg n k c" "data_ok c" and started: "StateNotValidated < state c"
    and op: "except c = None" and len: "headerSize \<le> length s"
  shows "\<exists>r c'. send_batch cfg io caller z s c = Some (r, c') \<and> steps_to cfg n k c c' \<and>
    (case r of Inl _ \<Rightarrow> except c' \<noteq> None | Inr _ \<Rightarrow> except c' = None)"
proof -
  have ltc: "state c < StateClosed" using open_state [OF ok(1) op] by (auto simp: state_order)
  let ?m = "\<lparr>m_stream = s, m_caller = caller, m_compress = z, m_requestId = 0, m_isSent = False\<rparr> :: 'a message"
  have "queue_ok c" using ok(2) started ltc by (simp add: data_ok_def)
  then obtain r c1 where send: "sendMessage cfg io ?m c = Some (r, c1)" and same: "same_control c c1" and q1: "queue_ok c1"
    using sendMessage_ok [OF cfg ltc, of ?m io] len by auto
  have st: "steps_to cfg n k c c1" "except c1 = None"
    using control_ok_same [OF same] data_ok_same [OF same] ok started ltc q1 op same
    by (auto simp: steps_to_def same_control_def same_requests_def forward_le)
  then have c1: "control_ok cfg n k c1" "data_ok c1" by (auto simp: steps_to_def)
  show ?thesis
  proof (cases r)
    case (Inl ex)
    obtain c2 ex' where "close_with cfg ex c1 = Some c2" "steps_to cfg n k c1 c2" "except c2 = Some ex'"
      using close_with_steps [OF c1] by blast
    then show ?thesis using send Inl steps_to_trans [OF st(1)] by (simp add: send_batch_def)
  qed (use send st in \<open>simp add: send_batch_def\<close>)
qed

lemma prepareBatchRequest_ok:
  assumes ok: "control_ok cfg n k c" "data_ok c" and started: "StateNotValidated < state c"
    and b: "batch_ok acc ab lent b c" and ready: "batch_ready b c"
  shows "\<exists>r s b' c'. prepareBatchRequest cfg [] b c = Some (r, s, b', c') \<and> steps_to cfg n k c c' \<and>
    batch_ok acc ab (if r = BatchOk then Some s else lent) b' c'"
proof (cases "except c")
  case (Some ex)
  then show ?thesis using ok b by (auto simp: prepareBatchRequest_def steps_to_refl)
next
  case None
  have lt: "state c < StateClosing" using open_state [OF ok(1) None] .
  have unlent: "lent = None" using b ready None by (auto simp: batch_ok_def batch_holds_def batch_ready_def)
  show ?thesis
  proof (cases "batchStream b = [] \<and> \<not> batchAutoFlush cfg \<and> int (length requestBatchHdr) > messageSizeMax cfg")
    case True
    obtain c1 ex where c1: "close_with cfg MemoryLimitException c = Some c1" "steps_to cfg n k c c1" "except c1 = Some ex"
      using close_with_steps [OF ok] by blast
    with True None lt started show ?thesis using batch_ok_conn [OF b] by (simp add: prepareBatchRequest_def)
  next
    case False
    define s where "s = (if batchStream b = [] then requestBatchHdr else batchStream b)"
    obtain rss rs where rs: "batch_holds True None rss rs b" "[] \<notin> set rs" "subseq (concat rss @ rs) acc" "\<not> ab \<Longrightarrow> acc = concat rss @ rs"
      using b None unlent by (auto simp: batch_ok_def)
    have "s = requestBatchHdr @ concat rs" using rs(1) by (auto simp: batch_holds_def s_def)
    then have "batch_ok acc ab (Some s) (b\<lparr>batchStream := [], batchStreamInUse := True, batchMarker := length s\<rparr>) c"
      using rs None by (intro batch_okI [of _ _ rss rs]) (auto simp: batch_holds_def)
    moreover have "prepareBatchRequest cfg [] b c = Some (BatchOk, s, b\<lparr>batchStream := [], batchStreamInUse := True, batchMarker := length s\<rparr>, c)"
      using None False lt started unfolding prepareBatchRequest_def s_def by (auto simp: Let_def)
    ultimately show ?thesis using steps_to_refl [OF ok] by fastforce
  qed
qed

lemma subseq_prefix: "subseq (xs @ ys) zs \<Longrightarrow> subseq xs zs"
  by (rule subseq_order.trans [of xs "xs @ ys"]) (simp_all add: subseq_rev_drop_many)

lemma abortBatchRequest_ok:
  assumes "batch_ok acc ab lent b c" "lent \<noteq> None"
  shows "\<exists>b'. abortBatchRequest b = Some b' \<and> batch_ok acc True None b' c"
proof -
  obtain rss rs where rs: "batch_holds (except c = None) lent rss rs b" "subseq (concat rss @ rs) acc"
    using assms(1) unfolding batch_ok_def by blast
  have "batch_ok acc True None ((batch_reset b)\<lparr>batchStreamInUse := False\<rparr>) c"
    using rs(1) subseq_prefix [OF rs(2)] by (intro batch_okI [of _ _ rss "[]"]) (auto simp: batch_holds_def batch_reset_def)
  then show ?thesis using rs(1) assms(2) by (simp add: abortBatchRequest_def batch_holds_def)
qed

text \<open>The stream comes back with one more request \<open>req\<close> and goes out without it.\<close>

lemma auto_flush_ok:
  assumes cfg: "config_ok cfg" and ok: "control_ok cfg n k c" "data_ok c" and started: "StateNotValidated < state c"
    and op: "except c = None" and rs: "batch_holds True (Some s) rss rs b"
  shows "\<exists>r b' c'. auto_flush cfg io (b\<lparr>batchStream := s @ req\<rparr>) c = Some (r, b', c') \<and> steps_to cfg n k c c' \<and> batchStreamInUse b' \<and>
    (if except c' = None then handed b' = map batch_message (rss @ [rs]) \<and>
        (r = Inr () \<longrightarrow> batchRequestNum b' = 0 \<and> batchStream b' = requestBatchHdr @ req)
     else handed b' = handed b \<and> r \<noteq> Inr ())"
proof -
  have b: "s = requestBatchHdr @ concat rs" "batchMarker b = length s" "batchRequestNum b = int (length rs)" "batchStreamInUse b"
    "handed b = map batch_message rss"
    using rs by (auto simp: batch_holds_def)
  let ?s = "batch_message rs"
  have msg: "fill_batch_num (batchRequestNum b) (take (batchMarker b) (s @ req)) = ?s" using b by (simp add: fill_batch_num_message)
  obtain r c' where send: "send_batch cfg io NoCaller (batchRequestCompress b) ?s c = Some (r, c')" "steps_to cfg n k c c'"
    "case r of Inl _ \<Rightarrow> except c' \<noteq> None | Inr _ \<Rightarrow> except c' = None"
    using send_batch_ok [OF cfg ok started op length_batch_message] by blast
  show ?thesis
  proof (cases r)
    case (Inl ex)
    then show ?thesis using send b msg by (auto simp: auto_flush_def Let_def)
  next
    case (Inr st)
    then show ?thesis using send b msg by (auto simp: auto_flush_def batch_reset_def Let_def)
  qed
qed

lemma length_concat_ge: "[] \<notin> set rs \<Longrightarrow> length rs \<le> length (concat rs)"
proof (induction rs)
  case (Cons r rs)
  then show ?case by (cases r) auto
qed simp

lemmas finish_defs = abortBatchRequest_def batch_reset_def finishBatchRequest_def finish_body_def

lemma finish_after_flush:
  assumes cfg: "config_ok cfg" and ok: "control_ok cfg n k c" "data_ok c" and started: "StateNotValidated < state c"
    and op: "except c = None" and b: "batch_ok acc ab (Some s) b c"
    and rs: "batch_holds True (Some s) rss rs b" "subseq (concat rss @ rs) acc" "\<not> ab \<Longrightarrow> acc = concat rss @ rs"
    and flush: "batchAutoFlush cfg" "check = Some ex" "rs \<noteq> []" and req: "req \<noteq> []"
  shows "\<exists>r b' c'. finishBatchRequest cfg io check (s @ req) compress b c = Some (r, b', c') \<and> steps_to cfg n k c c' \<and>
    batch_ok (if r = BatchOk then acc @ [req] else acc) ab None b' c'"
proof -
  have num: "batchRequestNum b = int (length rs)" using rs(1) by (simp add: batch_holds_def)
  obtain r b1 c1 where f: "auto_flush cfg io (b\<lparr>batchStream := s @ req\<rparr>) c = Some (r, b1, c1)" "steps_to cfg n k c c1" "batchStreamInUse b1"
    "if except c1 = None then handed b1 = map batch_message (rss @ [rs]) \<and>
        (r = Inr () \<longrightarrow> batchRequestNum b1 = 0 \<and> batchStream b1 = requestBatchHdr @ req)
     else handed b1 = handed b \<and> r \<noteq> Inr ()"
    using auto_flush_ok [OF cfg ok started op rs(1)] by blast
  show ?thesis
  proof (cases r)
    case (Inl ex')
    let ?b = "(batch_reset b1)\<lparr>batchStreamInUse := False\<rparr>"
    have "finishBatchRequest cfg io check (s @ req) compress b c = Some (BatchThrow ex', ?b, c1)"
      using flush op num f(1,3) Inl by (simp add: finish_defs)
    moreover have "batch_ok acc ab None ?b c1"
    proof (cases "except c1")
      case None
      then show ?thesis using f(4) rs by (intro batch_okI [of _ _ "rss @ [rs]" "[]"]) (simp_all add: batch_holds_def batch_reset_def)
    next
      case (Some e)
      then show ?thesis using f(4) by (intro batch_ok_failed [OF b]) (simp_all add: batch_reset_def)
    qed
    ultimately show ?thesis using f(2) by fastforce
  next
    case (Inr u)
    let ?b = "b1\<lparr>batchStreamInUse := False, batchRequestNum := incr32 (batchRequestNum b1), batchRequestCompress := compress \<or> batchRequestCompress b1\<rparr>"
    have c1: "except c1 = None" and b1: "handed b1 = map batch_message (rss @ [rs])" "batchRequestNum b1 = 0" "batchStream b1 = requestBatchHdr @ req"
      using f(4) Inr by (auto split: if_splits)
    have "finishBatchRequest cfg io check (s @ req) compress b c = Some (BatchOk, ?b, c1)"
      using flush op num f(1,3) Inr by (simp add: finish_defs)
    moreover have "batch_ok (acc @ [req]) ab None ?b c1"
      by (rule batch_okI [of _ _ "rss @ [rs]" "[req]"]) (use rs b1 req c1 in \<open>auto simp: batch_holds_def incr32_def simp flip: append_assoc\<close>)
    ultimately show ?thesis using f(2) by fastforce
  qed
qed

lemma finishBatchRequest_ok:
  assumes cfg: "config_ok cfg" and ok: "control_ok cfg n k c" "data_ok c" and started: "StateNotValidated < state c"
    and b: "batch_ok acc ab (Some s) b c" and req: "req \<noteq> []" "int (length s + length req) < 2 ^ 31"
  shows "\<exists>r b' c'. finishBatchRequest cfg io check (s @ req) compress b c = Some (r, b', c') \<and> steps_to cfg n k c c' \<and>
    batch_ok (if r = BatchOk then acc @ [req] else acc) ab None b' c'"
proof (cases "except c")
  case (Some ex)
  have "batchStreamInUse b" using b by (auto simp: batch_ok_def batch_holds_def)
  then have "finishBatchRequest cfg io check (s @ req) compress b c =
      Some (BatchThrow ex, (batch_reset (b\<lparr>batchStream := s @ req\<rparr>))\<lparr>batchStreamInUse := False\<rparr>, c)"
    using Some by (simp add: finishBatchRequest_def finish_body_def abortBatchRequest_def batch_reset_def)
  moreover have "batch_ok acc ab None ((batch_reset (b\<lparr>batchStream := s @ req\<rparr>))\<lparr>batchStreamInUse := False\<rparr>) c"
    by (rule batch_ok_failed [OF b]) (use Some in \<open>simp_all add: batch_reset_def\<close>)
  ultimately show ?thesis using steps_to_refl [OF ok] by fastforce
next
  case None
  obtain rss rs where rs: "batch_holds True (Some s) rss rs b" "[] \<notin> set rs" "subseq (concat rss @ rs) acc" "\<not> ab \<Longrightarrow> acc = concat rss @ rs"
    using b None by (auto simp: batch_ok_def)
  have bs: "s = requestBatchHdr @ concat rs" "batchRequestNum b = int (length rs)" "batchStreamInUse b" "handed b = map batch_message rss"
    using rs(1) by (auto simp: batch_holds_def)
  have small: "length rs < 2 ^ 31 - 1" using length_concat_ge [OF rs(2)] req bs(1) by (cases req) simp_all
  consider (keep) "\<not> batchAutoFlush cfg \<or> check = None" | (refuse) ex where "batchAutoFlush cfg" "check = Some ex" "rs = []"
    | (flush) ex where "batchAutoFlush cfg" "check = Some ex" "rs \<noteq> []" by blast
  then show ?thesis
  proof cases
    case keep
    let ?b = "b\<lparr>batchStream := s @ req, batchStreamInUse := False, batchRequestNum := incr32 (batchRequestNum b),
      batchRequestCompress := compress \<or> batchRequestCompress b\<rparr>"
    have "finishBatchRequest cfg io check (s @ req) compress b c = Some (BatchOk, ?b, c)"
      using keep None bs(3) by (auto simp: finish_defs)
    moreover have "batch_ok (acc @ [req]) ab None ?b c"
      by (rule batch_okI [of _ _ rss "rs @ [req]"]) (use rs bs small req None in \<open>auto simp: batch_holds_def incr32_def simp flip: append_assoc\<close>)
    ultimately show ?thesis using steps_to_refl [OF ok] by fastforce
  next
    case (refuse ex)
    let ?b = "(batch_reset (b\<lparr>batchStream := s @ req\<rparr>))\<lparr>batchStreamInUse := False\<rparr>"
    have "finishBatchRequest cfg io check (s @ req) compress b c = Some (BatchThrow ex, ?b, c)"
      using refuse None bs(2,3) by (simp add: finish_defs)
    moreover have "batch_ok acc ab None ?b c"
      by (rule batch_okI [of _ _ rss "[]"]) (use rs bs refuse in \<open>auto simp: batch_holds_def batch_reset_def\<close>)
    ultimately show ?thesis using steps_to_refl [OF ok] by fastforce
  next
    case (flush ex)
    then show ?thesis using finish_after_flush [OF cfg ok started None b rs(1,3,4) _ _ _ req(1)] by blast
  qed
qed

lemma flush_batch_ok:
  assumes cfg: "config_ok cfg" and ok: "control_ok cfg n k c" "data_ok c" and started: "StateNotValidated < state c"
    and b: "batch_ok acc ab lent b c" and ready: "batch_ready b c"
  shows "\<exists>r b' c'. flush_batch cfg io caller [] b c = Some (r, b', c') \<and> steps_to cfg n k c c' \<and> batch_ok acc ab lent b' c'"
proof (cases "except c")
  case (Some ex)
  then show ?thesis using b steps_to_refl [OF ok] by (simp add: flush_batch_def)
next
  case None
  have unlent: "lent = None" using b ready None by (auto simp: batch_ok_def batch_holds_def batch_ready_def)
  obtain rss rs where rs: "batch_holds True None rss rs b" "[] \<notin> set rs" "subseq (concat rss @ rs) acc" "\<not> ab \<Longrightarrow> acc = concat rss @ rs"
    using b None unlent by (auto simp: batch_ok_def)
  show ?thesis
  proof (cases "rs = []")
    case True
    let ?m = "\<lparr>m_stream = [], m_caller = caller, m_compress = False, m_requestId = 0, m_isSent = False\<rparr> :: 'a message"
    obtain cb c1 where m: "message_sent cfg ?m c = (cb, c1)" by force
    have lt: "state c < StateClosed" using open_state [OF ok(1) None] by (auto simp: state_order)
    have q: "queue_ok c" using ok(2) started lt by (simp add: data_ok_def)
    note same = message_sent_same [OF m]
    have "steps_to cfg n k c c1"
      using same control_ok_same [of c c1] data_ok_same [of c c1] ok started lt q
      by (auto simp: steps_to_def same_control_def same_requests_def forward_le)
    moreover have "batch_ok acc ab lent b c1" using batch_ok_conn [OF b] same None by (simp add: same_control_def)
    moreover have "batchRequestNum b = 0" using rs(1) True by (simp add: batch_holds_def)
    ultimately show ?thesis using None m by (simp add: flush_batch_def)
  next
    case False
    have bs: "batchRequestNum b = int (length rs)" "batchStream b = requestBatchHdr @ concat rs" "handed b = map batch_message rss"
      "\<not> batchStreamInUse b" using rs(1) False by (auto simp: batch_holds_def)
    obtain r c1 where send: "send_batch cfg io caller (batchRequestCompress b) (batch_message rs) c = Some (r, c1)" "steps_to cfg n k c c1"
      "case r of Inl _ \<Rightarrow> except c1 \<noteq> None | Inr _ \<Rightarrow> except c1 = None"
      using send_batch_ok [OF cfg ok started None length_batch_message] by blast
    show ?thesis
    proof (cases r)
      case (Inl ex)
      moreover have "batch_ok acc ab lent (b\<lparr>batchStream := []\<rparr>) c1"
        by (rule batch_ok_failed [OF b]) (use send(3) Inl unlent bs(4) in simp_all)
      ultimately show ?thesis using None False bs send by (simp add: flush_batch_def fill_batch_num_message)
    next
      case (Inr st)
      moreover have "batch_ok acc ab lent ((batch_reset b)\<lparr>handed := handed b @ [batch_message rs]\<rparr>) c1"
        by (rule batch_okI [of _ _ "rss @ [rs]" "[]"]) (use rs send(3) Inr unlent bs in \<open>simp_all add: batch_holds_def batch_reset_def\<close>)
      ultimately show ?thesis using None False bs send by (simp add: flush_batch_def fill_batch_num_message)
    qed
  qed
qed

end
