(* ===== verification/ConnectionSystem.thy ===== *)
theory ConnectionSystem
  imports ConnectionBatch Simulation
begin

text \<open>
  A connection and everything that acts on it, as a system of events: the properties of its whole life.
\<close>

section \<open>Operations of the communicator and the adapter\<close>

text \<open>They keep the invariant, and leave a connection that is being established alone or close it.\<close>

definition outside_ok :: "'o config \<Rightarrow> int \<Rightarrow> int \<Rightarrow> 'o connection \<Rightarrow> 'o connection option \<Rightarrow> bool" where
  "outside_ok cfg n k c r \<longleftrightarrow> keeps cfg n k c r \<and>
     (\<forall>c'. r = Some c' \<and> state c \<le> StateNotValidated \<longrightarrow> c' = c \<or> StateClosed \<le> state c')"

lemma outside_same: "control_ok cfg n k c \<Longrightarrow> data_ok c \<Longrightarrow> outside_ok cfg n k c (Some c)"
  by (simp add: outside_ok_def keeps_def)

lemma outside_late: "keeps cfg n k c r \<Longrightarrow> StateNotValidated < state c \<Longrightarrow> outside_ok cfg n k c r"
  by (auto simp: outside_ok_def)

lemma outside_close:
  assumes "control_ok cfg n k c" "data_ok c"
  shows "outside_ok cfg n k c (close_with cfg ex c)"
  using close_with_keeps [OF assms, of ex] close_with_result [OF assms, of ex] by (auto simp: outside_ok_def)

lemma outside_closing:
  assumes "config_ok cfg" "control_ok cfg n k c" "data_ok c"
  shows "outside_ok cfg n k c (setState_ex cfg io StateClosing ex c)"
proof (cases "state c \<le> StateNotValidated")
  case True
  then have "state c < StateClosing" by (auto simp: state_order)
  then show ?thesis using True outside_close [OF assms(2,3), of ex] by (simp add: setState_Closing_shortcut)
next
  case False
  then show ?thesis using outside_late [OF setState_Closing [OF assms]] by simp
qed

lemma setState_ex_Closed: "setState_ex cfg io StateClosed ex c = close_with cfg ex c"
proof -
  have "state c1 \<noteq> StateClosing" if "enter_state cfg StateClosed a = Some (True, c1)" for a c1
    using that by (auto simp: enter_state_def target_state_def Let_def split: if_splits option.splits)
  then show ?thesis
    by (auto simp: setState_ex_def close_with_def setState_def state_order split: bind_splits)
qed

lemma activate_ok:
  assumes "control_ok cfg n k c" "data_ok c"
  shows "outside_ok cfg n k c (activate cfg c)" "outside_ok cfg n k c (hold cfg c)"
  using outside_same [OF assms] outside_late [OF setState_hold_active [OF assms]] by (simp_all add: activate_def hold_def)

lemma destroy_ok: "config_ok cfg \<Longrightarrow> control_ok cfg n k c \<Longrightarrow> data_ok c \<Longrightarrow> outside_ok cfg n k c (destroy cfg io reason c)"
  by (cases reason) (simp_all add: destroy_def outside_closing)

lemma close_ok: "config_ok cfg \<Longrightarrow> control_ok cfg n k c \<Longrightarrow> data_ok c \<Longrightarrow> outside_ok cfg n k c (close cfg io force c)"
  by (simp add: close_def setState_ex_Closed outside_close outside_closing)

lemma monitor_ok: "config_ok cfg \<Longrightarrow> control_ok cfg n k c \<Longrightarrow> data_ok c \<Longrightarrow> outside_ok cfg n k c (monitor cfg io expired pending c)"
  by (simp add: monitor_def outside_same outside_closing)

lemma timedOut_ok: "control_ok cfg n k c \<Longrightarrow> data_ok c \<Longrightarrow> outside_ok cfg n k c (timedOut cfg c)"
  by (simp add: timedOut_def outside_same outside_close)

section \<open>The system\<close>

text \<open>
  The connection with its surroundings: whether \<open>start\<close> has been called, the invocations that are being dispatched, the
  callbacks that are still to be called (each with the reply it delivers, if any), whether the thread pool has called
  \<open>finished\<close>, the two-way requests that were accepted, and whether a request ever got an id that was in use. Then the
  batch, the stream of it that a caller has borrowed, the batch requests that were accepted, and whether one was given up.
\<close>

record 'o world =
  conn :: "'o connection"
  started :: bool
  invocations :: int
  callbacks :: "('o \<times> byte list) option list"
  finishing :: bool
  issued :: "'o list"
  collided :: bool
  batch :: batch
  lent :: "byte list option"
  accepted :: "byte list list"
  aborted :: bool

definition world_new :: "'o world" where
  "world_new = \<lparr>conn = connection_new, started = False, invocations = 0, callbacks = [], finishing = False, issued = [],
     collided = False, batch = batch_new, lent = None, accepted = [], aborted = False\<rparr>"

datatype 'o event =
    Start init_result write_result read_result
  | Activate
  | Hold
  | Destroy write_result destruction_reason
  | Close write_result bool
  | Monitor write_result bool
  | TimedOut
  | SendRequest bool write_result bool 'o "byte list" bool bool
  | Message socket_operation transport
  | SendResponse write_result write_result "byte list" bool
  | SendNoResponse write_result
  | InvokeException local_exception int
  | RunCallbacks nat write_result
  | PoolFinished
  | Finish
  | PrepareBatch
  | FinishBatch write_result "local_exception option" "byte list" bool
  | AbortBatch
  | FlushBatch bool write_result 'o

text \<open>When each event can happen.\<close>

fun event_possible :: "'o config \<Rightarrow> 'o event \<Rightarrow> 'o world \<Rightarrow> bool" where
  "event_possible cfg (Start ini vw vr) w \<longleftrightarrow> \<not> started w \<and> init_fits cfg ini \<and> write_fits cfg vw \<and> read_fits cfg vr"
| "event_possible cfg (Close io force) w \<longleftrightarrow> close_ready force (conn w)"
| "event_possible cfg (SendRequest async io too_big q os compress response) w \<longleftrightarrow>
     StateNotValidated < state (conn w) \<and> headerSize + 4 \<le> length os"
| "event_possible cfg (Message op t) w \<longleftrightarrow>
     event_enabled op (conn w) \<and> (state (conn w) \<le> StateNotValidated \<longrightarrow> transport_fits cfg t)"
| "event_possible cfg (SendResponse io io' os compress) w \<longleftrightarrow> 0 < invocations w \<and> headerSize \<le> length os"
| "event_possible cfg (SendNoResponse io) w \<longleftrightarrow> 0 < invocations w"
| "event_possible cfg (InvokeException ex m) w \<longleftrightarrow> 0 < m \<and> m \<le> invocations w"
| "event_possible cfg (RunCallbacks i io) w \<longleftrightarrow> i < length (callbacks w)"
| "event_possible cfg PoolFinished w \<longleftrightarrow> poolFinish (conn w) \<and> \<not> finishing w"
| "event_possible cfg Finish w \<longleftrightarrow> finishing w \<and> state (conn w) \<noteq> StateFinished"
| "event_possible cfg PrepareBatch w \<longleftrightarrow> StateNotValidated < state (conn w) \<and> batch_ready (batch w) (conn w)"
| "event_possible cfg (FinishBatch io check req compress) w \<longleftrightarrow>
     (case lent w of None \<Rightarrow> False | Some s \<Rightarrow> req \<noteq> [] \<and> int (length s + length req) < 2 ^ 31)"
| "event_possible cfg AbortBatch w \<longleftrightarrow> lent w \<noteq> None"
| "event_possible cfg (FlushBatch async io q) w \<longleftrightarrow> StateNotValidated < state (conn w) \<and> batch_ready (batch w) (conn w)"
| "event_possible cfg _ w \<longleftrightarrow> True"

text \<open>A request id is fresh if no request that waits and no message in the queue has it.\<close>

definition fresh_id :: "int \<Rightarrow> 'o connection \<Rightarrow> bool" where
  "fresh_id i c \<longleftrightarrow> smap_find (requests c) i = None \<and> smap_find (asyncRequests c) i = None \<and>
     (\<forall>m \<in> set (sendStreams c). m_requestId m \<noteq> i)"

definition with_conn :: "'o world \<Rightarrow> 'o connection option \<Rightarrow> 'o world option" where
  "with_conn w r = map_option (\<lambda>c. w\<lparr>conn := c\<rparr>) r"

definition is_ok :: "send_result \<Rightarrow> bool" where
  "is_ok r \<longleftrightarrow> (case r of SendOk _ \<Rightarrow> True | _ \<Rightarrow> False)"

definition deliver :: "('o \<times> byte list) option \<Rightarrow> 'o connection \<Rightarrow> 'o connection" where
  "deliver x c = (case x of None \<Rightarrow> c | Some (q, b) \<Rightarrow> complete q (GotReply b) c)"

definition drop_nth :: "nat \<Rightarrow> 'a list \<Rightarrow> 'a list" where
  "drop_nth i xs = take i xs @ drop (Suc i) xs"

definition after_message :: "'o todo \<Rightarrow> 'o connection \<Rightarrow> 'o world \<Rightarrow> 'o world" where
  "after_message td c w =
     w\<lparr>conn := c, invocations := invocations w + invokeNum (parsed_msg td),
       callbacks := (if sentCBs td \<noteq> [] \<or> outAsync (parsed_msg td) \<noteq> None then callbacks w @ [outAsync (parsed_msg td)]
         else callbacks w)\<rparr>"

fun event_step :: "'o config \<Rightarrow> 'o event \<Rightarrow> 'o world \<Rightarrow> 'o world option" where
  "event_step cfg (Start ini vw vr) w =
     map_option (\<lambda>(r, c). w\<lparr>conn := c, started := True\<rparr>) (start cfg ini vw vr (conn w))"
| "event_step cfg Activate w = with_conn w (activate cfg (conn w))"
| "event_step cfg Hold w = with_conn w (hold cfg (conn w))"
| "event_step cfg (Destroy io reason) w = with_conn w (destroy cfg io reason (conn w))"
| "event_step cfg (Close io force) w = with_conn w (close cfg io force (conn w))"
| "event_step cfg (Monitor io expired) w = with_conn w (monitor cfg io expired (batchStream (batch w) \<noteq> []) (conn w))"
| "event_step cfg TimedOut w = with_conn w (timedOut cfg (conn w))"
| "event_step cfg (SendRequest async io too_big q os compress response) w =
     map_option (\<lambda>(r, c).
       if is_ok r \<and> response
       then w\<lparr>conn := c, issued := issued w @ [q],
         collided := collided w \<or> \<not> fresh_id (fst (new_request_id (nextRequestId (conn w)))) (conn w)\<rparr>
       else w\<lparr>conn := c\<rparr>)
       ((if async then sendAsyncRequest else sendRequest) cfg io too_big q os compress response (conn w))"
| "event_step cfg (Message op t) w = map_option (\<lambda>(td, c). after_message td c w) (message cfg op t (conn w))"
| "event_step cfg (SendResponse io io' os compress) w =
     map_option (\<lambda>c. w\<lparr>invocations := invocations w - 1, conn := c\<rparr>) (sendResponse cfg io io' os compress (conn w))"
| "event_step cfg (SendNoResponse io) w =
     map_option (\<lambda>c. w\<lparr>invocations := invocations w - 1, conn := c\<rparr>) (sendNoResponse cfg io (conn w))"
| "event_step cfg (InvokeException ex m) w =
     map_option (\<lambda>c. w\<lparr>invocations := invocations w - m, conn := c\<rparr>) (invokeException cfg ex m (conn w))"
| "event_step cfg (RunCallbacks i io) w =
     map_option (\<lambda>c. w\<lparr>conn := c, callbacks := drop_nth i (callbacks w)\<rparr>)
       (callbacks_done cfg io (deliver (callbacks w ! i) (conn w)))"
| "event_step cfg PoolFinished w = map_option (\<lambda>c. w\<lparr>conn := c, finishing := True\<rparr>) (finished (conn w))"
| "event_step cfg Finish w = with_conn w (finish cfg (conn w))"
| "event_step cfg PrepareBatch w =
     map_option (\<lambda>(r, s, b, c). w\<lparr>conn := c, batch := b, lent := (if r = BatchOk then Some s else lent w)\<rparr>)
       (prepareBatchRequest cfg [] (batch w) (conn w))"
| "event_step cfg (FinishBatch io check req compress) w =
     map_option (\<lambda>(r, b, c). w\<lparr>conn := c, batch := b, lent := None, accepted := (if r = BatchOk then accepted w @ [req] else accepted w)\<rparr>)
       (finishBatchRequest cfg io check (the (lent w) @ req) compress (batch w) (conn w))"
| "event_step cfg AbortBatch w = map_option (\<lambda>b. w\<lparr>batch := b, lent := None, aborted := True\<rparr>) (abortBatchRequest (batch w))"
| "event_step cfg (FlushBatch async io q) w =
     map_option (\<lambda>(b, c). w\<lparr>conn := c, batch := b\<rparr>)
       (if async then map_option snd (flushAsyncBatchRequests cfg io q [] (batch w) (conn w))
        else map_option snd (flushBatchRequests cfg io q [] (batch w) (conn w)))"

section \<open>Where queued messages come from\<close>

text \<open>
  The messages with a request id in the queue are those of accepted requests: every other operation only adds messages
  of the connection itself, which have id 0, or removes messages.
\<close>

definition tag :: "'o message \<Rightarrow> int \<times> 'o caller" where
  "tag m = (m_requestId m, m_caller m)"

definition tags :: "'o connection \<Rightarrow> (int \<times> 'o caller) set" where
  "tags c = {x \<in> tag ` set (sendStreams c). fst x \<noteq> 0}"

lemma tags_same: "sendStreams c' = sendStreams c \<Longrightarrow> tags c' = tags c"
  by (simp add: tags_def)

lemma tags_update [simp]:
  "tags (except_update f1 c) = tags c" "tags (validated_update f2 c) = tags c" "tags (shutdownInitiated_update f3 c) = tags c" "tags (dispatchCount_update f4 c) = tags c"
  "tags (nextRequestId_update f5 c) = tags c" "tags (requests_update f6 c) = tags c" "tags (requestsHint_update f7 c) = tags c" "tags (asyncRequests_update f8 c) = tags c"
  "tags (asyncRequestsHint_update f9 c) = tags c" "tags (writeStream_update f10 c) = tags c" "tags (writeAtEnd_update f11 c) = tags c" "tags (readStream_update f12 c) = tags c"
  "tags (readPos_update f13 c) = tags c" "tags (readAtEnd_update f14 c) = tags c" "tags (readHeader_update f15 c) = tags c" "tags (startCallback_update f16 c) = tags c"
  "tags (readRegistered_update f17 c) = tags c" "tags (writeRegistered_update f18 c) = tags c" "tags (poolFinish_update f19 c) = tags c" "tags (monitored_update f20 c) = tags c"
  "tags (transceiverClosed_update f21 c) = tags c" "tags (reaped_update f22 c) = tags c" "tags (warned_update f23 c) = tags c" "tags (wire_update f24 c) = tags c"
  "tags (sent_to_update f25 c) = tags c" "tags (completed_update f26 c) = tags c"
  by (simp_all add: tags_def)

lemma enter_state_queue: "enter_state cfg st c = Some (b, c') \<Longrightarrow> sendStreams c' = sendStreams c"
  by (auto simp: enter_state_def switch_state_def Let_def split: if_splits option.splits conn_state.splits)

lemma set_exception_queue: "set_exception cfg ex c = Some c' \<Longrightarrow> sendStreams c' = sendStreams c"
  by (auto simp: set_exception_def split: if_splits bind_splits)

lemma close_with_queue: "close_with cfg ex c = Some c' \<Longrightarrow> sendStreams c' = sendStreams c"
  by (auto simp: close_with_def split: if_splits bind_splits) (metis enter_state_queue set_exception_queue)

lemma sendMessage_tags: "sendMessage cfg io m c = Some (r, c') \<Longrightarrow> tags c' \<subseteq> tags c \<union> {tag m}"
  by (auto simp: sendMessage_def message_sent_def scheduleTimeout_def tags_def tag_def Let_def
      split: if_splits bind_splits sum.splits write_result.splits caller.splits prod.splits)

lemma scheduleTimeout_tags [simp]: "tags (scheduleTimeout op t c) = tags c" "tags (unscheduleTimeout op c) = tags c"
  by (simp_all add: tags_def)

lemma tags_zero: "tags c \<subseteq> A \<union> {x} \<Longrightarrow> fst x = 0 \<Longrightarrow> tags c \<subseteq> A"
  by (auto simp: tags_def)

lemma initiateShutdown_tags: "initiateShutdown cfg io c = Some (r, c') \<Longrightarrow> tags c' \<subseteq> tags c"
proof -
  let ?c = "c\<lparr>shutdownInitiated := True\<rparr>"
  have z: "fst (tag \<lparr>m_stream = b, m_caller = NoCaller, m_compress = False, m_requestId = 0, m_isSent = False\<rparr>) = 0" for b
    by (simp add: tag_def)
  have t: "tags ?c = tags c" by (simp add: tags_def)
  assume "initiateShutdown cfg io c = Some (r, c')"
  then show ?thesis using t tags_zero [OF sendMessage_tags z]
    by (fastforce simp: initiateShutdown_def Let_def split: if_splits bind_splits sum.splits async_status.splits)
qed

lemma close_with_tags: "close_with cfg ex c = Some c' \<Longrightarrow> tags c' = tags c"
  by (rule tags_same) (rule close_with_queue)

lemma shutdown_or_close_tags:
  assumes "shutdown_or_close cfg io c = Some c'"
  shows "tags c' \<subseteq> tags c"
proof -
  from assms obtain r c1 where init: "initiateShutdown cfg io c = Some (r, c1)"
    and rest: "(case r of Inr _ \<Rightarrow> Some c1 | Inl ex \<Rightarrow> close_with cfg ex c1) = Some c'"
    by (auto simp: shutdown_or_close_def split: bind_splits)
  have "tags c' = tags c1" using rest by (cases r) (auto dest: close_with_tags)
  with initiateShutdown_tags [OF init] show ?thesis by simp
qed

lemma setState_tags:
  assumes "setState cfg io st c = Some c'"
  shows "tags c' \<subseteq> tags c"
proof -
  from assms obtain b c1 where e: "enter_state cfg st c = Some (b, c1)"
    and rest: "(if b \<and> state c1 = StateClosing \<and> dispatchCount c1 = 0 then shutdown_or_close cfg io c1 else Some c1) = Some c'"
    by (auto simp: setState_def split: bind_splits)
  have "tags c' \<subseteq> tags c1" using rest shutdown_or_close_tags [of cfg io c1 c'] by (simp split: if_splits)
  with tags_same [OF enter_state_queue [OF e]] show ?thesis by simp
qed

lemma setState_ex_tags:
  assumes "setState_ex cfg io st ex c = Some c'"
  shows "tags c' \<subseteq> tags c"
proof (cases "state c = st")
  case False
  with assms obtain c1 where e: "set_exception cfg ex c = Some c1" and rest: "setState cfg io st c1 = Some c'"
    by (auto simp: setState_ex_def split: bind_splits)
  with setState_tags [OF rest] tags_same [OF set_exception_queue [OF e]] show ?thesis by simp
qed (use assms in \<open>simp add: setState_ex_def split: bind_splits\<close>)

lemma outside_tags:
  "activate cfg c = Some c' \<Longrightarrow> tags c' \<subseteq> tags c" "hold cfg c = Some c' \<Longrightarrow> tags c' \<subseteq> tags c"
  "destroy cfg io reason c = Some c' \<Longrightarrow> tags c' \<subseteq> tags c" "close cfg io force c = Some c' \<Longrightarrow> tags c' \<subseteq> tags c"
  "monitor cfg io expired pending c = Some c' \<Longrightarrow> tags c' \<subseteq> tags c" "timedOut cfg c = Some c' \<Longrightarrow> tags c' \<subseteq> tags c"
  by (simp_all add: activate_def hold_def destroy_def close_def monitor_def timedOut_def setState_tags setState_ex_tags close_with_tags
      split: if_splits destruction_reason.splits)

lemma dispatch_done_tags [simp]: "tags (dispatch_done n c) = tags c"
  by (simp add: dispatch_done_def tags_def Let_def)

lemma sendNoResponse_tags: "sendNoResponse cfg io c = Some c' \<Longrightarrow> tags c' \<subseteq> tags c"
  by (auto simp: sendNoResponse_def Let_def split: bind_splits if_splits)
    ((metis close_with_queue tags_same dispatch_done_tags shutdown_or_close_tags subsetD)+)

lemma sendResponse_tags: "sendResponse cfg io io' os compress c = Some c' \<Longrightarrow> tags c' \<subseteq> tags c"
proof -
  have z: "fst (tag \<lparr>m_stream = b, m_caller = NoCaller, m_compress = z, m_requestId = 0, m_isSent = False\<rparr>) = 0" for b z
    by (simp add: tag_def)
  have send: "tags c2 \<subseteq> tags c"
    if "sendMessage cfg io \<lparr>m_stream = os, m_caller = NoCaller, m_compress = compress, m_requestId = 0, m_isSent = False\<rparr> (dispatch_done 1 c) = Some (r, c2)" for r c2
    using tags_zero [OF sendMessage_tags [OF that] z] by simp
  assume "sendResponse cfg io io' os compress c = Some c'"
  then show ?thesis
    by (auto simp: sendResponse_def Let_def split: bind_splits if_splits sum.splits)
      ((metis close_with_queue tags_same dispatch_done_tags shutdown_or_close_tags send subsetD)+)
qed

lemma callbacks_done_tags: "callbacks_done cfg io c = Some c' \<Longrightarrow> tags c' \<subseteq> tags c"
  by (auto simp: callbacks_done_def Let_def split: if_splits) (metis shutdown_or_close_tags dispatch_done_tags subsetD)

lemma invokeException_tags: "invokeException cfg ex m c = Some c' \<Longrightarrow> tags c' \<subseteq> tags c"
  by (auto simp: invokeException_def split: if_splits bind_splits) ((metis close_with_queue tags_same)+)

lemma sendMessage_failed: "sendMessage cfg io m c = Some (Inl ex, c') \<Longrightarrow> c' = c"
  by (auto simp: sendMessage_def Let_def split: if_splits bind_splits sum.splits write_result.splits prod.splits)

lemma send_batch_tags: "send_batch cfg io caller z s c = Some (r, c') \<Longrightarrow> tags c' \<subseteq> tags c"
proof -
  let ?m = "\<lparr>m_stream = s, m_caller = caller, m_compress = z, m_requestId = 0, m_isSent = False\<rparr> :: 'a message"
  assume "send_batch cfg io caller z s c = Some (r, c')"
  then obtain x c1 where send: "sendMessage cfg io ?m c = Some (x, c1)" and rest: "c' = c1 \<or> (\<exists>ex. close_with cfg ex c1 = Some c')"
    by (fastforce simp: send_batch_def split: bind_splits sum.splits)
  have "tags c1 \<subseteq> tags c" by (rule tags_zero [OF sendMessage_tags [OF send]]) (simp add: tag_def)
  moreover have "tags c' = tags c1" using rest by (elim disjE exE) (simp_all add: close_with_tags)
  ultimately show ?thesis by simp
qed

lemma batch_tags:
  "prepareBatchRequest cfg os b c = Some (x, y, z, c') \<Longrightarrow> tags c' \<subseteq> tags c"
  "auto_flush cfg io b c = Some (r, b', c') \<Longrightarrow> tags c' \<subseteq> tags c"
  "flush_batch cfg io caller os b c = Some (q, b', c') \<Longrightarrow> tags c' \<subseteq> tags c"
proof -
  show "prepareBatchRequest cfg os b c = Some (x, y, z, c') \<Longrightarrow> tags c' \<subseteq> tags c"
    by (auto simp: prepareBatchRequest_def Let_def split: option.splits bind_splits if_splits dest: close_with_tags)
  show "auto_flush cfg io b c = Some (r, b', c') \<Longrightarrow> tags c' \<subseteq> tags c"
    using send_batch_tags by (fastforce simp: auto_flush_def Let_def split: bind_splits sum.splits if_splits)
  have "tags c1 = tags c" if "message_sent cfg m c = (cb, c1)" for m cb c1
    using that by (auto simp: message_sent_def split: caller.splits)
  then show "flush_batch cfg io caller os b c = Some (q, b', c') \<Longrightarrow> tags c' \<subseteq> tags c"
    using send_batch_tags by (fastforce simp: flush_batch_def Let_def split: option.splits bind_splits sum.splits if_splits prod.splits)
qed

lemma finishBatchRequest_tags:
  assumes "finishBatchRequest cfg io check os z b c = Some (r, b', c')"
  shows "tags c' \<subseteq> tags c"
proof -
  obtain x b1 where "finish_body cfg io check z (b\<lparr>batchStream := os\<rparr>) c = Some (x, b1, c')"
    using assms by (auto simp: finishBatchRequest_def split: bind_splits sum.splits)
  then have "c' = c \<or> (\<exists>y b2. auto_flush cfg io (b\<lparr>batchStream := os\<rparr>) c = Some (y, b2, c'))"
    by (auto simp: finish_body_def split: option.splits bind_splits if_splits sum.splits)
  then show ?thesis using batch_tags(2) by blast
qed

lemma send_request_tags:
  assumes "send_request async cfg io too_big q os compress response c = Some (r, c')"
  shows "tags c' \<subseteq> tags c \<union> (if is_ok r \<and> response then {(fst (new_request_id (nextRequestId c)), if async then Async q else Sync q)} else {})"
proof (cases "except c = None \<and> \<not> too_big")
  case False
  then have "c' = c" using assms by (auto simp: send_request_def split: option.splits bind_splits if_splits)
  then show ?thesis by simp
next
  case True
  obtain i nxt where id: "(if response then new_request_id (nextRequestId c) else (0, nextRequestId c)) = (i, nxt)" by force
  let ?m = "\<lparr>m_stream = if response then fill_request_id i os else os, m_caller = if async then Async q else Sync q, m_compress = compress,
    m_requestId = i, m_isSent = False\<rparr> :: 'a message"
  obtain x c1 where send: "sendMessage cfg io ?m (c\<lparr>nextRequestId := nxt\<rparr>) = Some (x, c1)"
    and rest: "(case x of Inl ex \<Rightarrow> do { c2 \<leftarrow> close_with cfg ex c1; ex' \<leftarrow> except c2; Some (SendFailed ex', c2) }
      | Inr status \<Rightarrow> Some (SendOk status, if \<not> response then c1
          else if async then c1\<lparr>asyncRequests := insert_request i q (asyncRequests c1), asyncRequestsHint := Some i\<rparr>
          else c1\<lparr>requests := insert_request i q (requests c1), requestsHint := Some i\<rparr>)) = Some (r, c')"
    using assms True id by (auto simp: send_request_def Let_def split: bind_splits)
  have t: "tags (c\<lparr>nextRequestId := nxt\<rparr>) = tags c" by (simp add: tags_def)
  show ?thesis
  proof (cases x)
    case (Inl ex)
    then have "tags c' = tags c1" using rest by (auto split: bind_splits dest: close_with_tags)
    moreover have "c1 = c\<lparr>nextRequestId := nxt\<rparr>" using send Inl by (auto dest: sendMessage_failed)
    ultimately show ?thesis using t by auto
  next
    case (Inr status)
    then have "tags c' = tags c1" "is_ok r" using rest by (auto simp: is_ok_def split: if_splits)
    moreover have "tags c1 \<subseteq> tags c \<union> {tag ?m}" using sendMessage_tags [OF send] t by simp
    moreover have "fst (tag ?m) = 0" if "\<not> response" using that id by (simp add: tag_def)
    ultimately show ?thesis using id tags_zero [of c1 "tags c" "tag ?m"] by (cases response) (auto simp: tag_def)
  qed
qed

lemma send_loop_tags:
  "send_loop cfg q ios cbs c = Some (b, cbs', c') \<Longrightarrow> tags c' \<subseteq> {x \<in> tag ` set q. fst x \<noteq> 0}"
proof (induction q arbitrary: ios cbs c rule: length_induct)
  case (1 q)
  obtain m ms where q: "q = m # ms" using "1.prems" by (cases q) auto
  obtain cb c1 where c1: "message_sent cfg m (c\<lparr>writeStream := m_stream m, sendStreams := ms\<rparr>) = (cb, c1)" by force
  then have s1: "sendStreams c1 = ms" by (auto simp: message_sent_def split: caller.splits)
  show ?case
  proof (cases "StateClosed \<le> state c1 \<or> ms = []")
    case True
    then have "c' = c1" using "1.prems" c1 by (auto simp: q Let_def split: if_splits)
    then show ?thesis using s1 by (auto simp: tags_def q)
  next
    case False
    then obtain n ns where ms: "ms = n # ns" by (cases ms) auto
    define n' where "n' = n\<lparr>m_stream := writeStream c1\<rparr>"
    have tag: "tag n' = tag n" by (simp add: n'_def tag_def)
    obtain p where p: "prepare cfg n = Some p" using "1.prems" c1 False by (auto simp: q ms Let_def split: bind_splits)
    show ?thesis
    proof (cases p)
      case (Inl ex)
      then have "sendStreams c' = ms" using "1.prems" c1 False p s1 by (auto simp: q ms Let_def split: bind_splits dest: close_with_queue)
      then show ?thesis by (auto simp: tags_def q)
    next
      case (Inr bytes)
      define c2 where "c2 = c1\<lparr>sendStreams := n' # ns, writeStream := bytes, writeAtEnd := False\<rparr>"
      have sub: "{x \<in> tag ` set (n' # ns). fst x \<noteq> 0} \<subseteq> {x \<in> tag ` set q. fst x \<noteq> 0}" using tag by (auto simp: q ms)
      have t2: "tags c2 = {x \<in> tag ` set (n' # ns). fst x \<noteq> 0}" by (simp add: tags_def c2_def)
      have step: "(case ios of
            WriteDone # rest \<Rightarrow> send_loop cfg (n' # ns) rest (if cb then cbs @ [m_caller m] else cbs)
              (c2\<lparr>writeAtEnd := True, wire := wire c2 @ [bytes]\<rparr>)
          | WriteFailed ex # rest \<Rightarrow> do { c3 \<leftarrow> close_with cfg ex c2; Some (False, if cb then cbs @ [m_caller m] else cbs, c3) }
          | _ \<Rightarrow> Some (False, if cb then cbs @ [m_caller m] else cbs, scheduleTimeout OpWrite (endpointTimeout cfg) c2)) = Some (b, cbs', c')"
        using "1.prems" c1 False p Inr by (simp add: q ms Let_def c2_def n'_def cong: list.case_cong write_result.case_cong)
      consider (sent) rest cs d where "send_loop cfg (n' # ns) rest cs d = Some (b, cbs', c')" | (stop) "tags c' = tags c2"
        using step by (auto split: list.splits write_result.splits bind_splits dest: close_with_tags)
      then show ?thesis
      proof cases
        case (sent rest cs d)
        then show ?thesis using "1.IH" [rule_format, of "n' # ns" rest cs d] sub by (simp add: q ms)
      qed (use t2 sub in simp)
    qed
  qed
qed

lemma sendNextMessage_tags: "sendNextMessage cfg ios c = Some (cbs, c') \<Longrightarrow> tags c' \<subseteq> tags c"
proof -
  assume "sendNextMessage cfg ios c = Some (cbs, c')"
  then obtain b c1 where "send_loop cfg (sendStreams c) ios [] c = Some (b, cbs, c1)" "sendStreams c' = sendStreams c1"
    by (auto simp: sendNextMessage_def Let_def split: bind_splits if_splits)
  then show ?thesis using send_loop_tags [of cfg "sendStreams c" ios "[]" c b cbs c1] by (simp add: tags_def)
qed

lemma reset_read_tags [simp]: "tags (reset_read c) = tags c" "tags (complete q r c) = tags c" "tags (erase_request async i c) = tags c"
  by (simp_all add: tags_def reset_read_def complete_def erase_request_def)

lemma parse_body_tags: "parse_body cfg b c = Some (r, c') \<Longrightarrow> tags c' = tags c"
  by (auto simp: parse_body_def Let_def split: sum.splits if_splits bind_splits option.splits prod.splits dest: close_with_tags)

lemma parseMessage_tags:
  assumes "parseMessage cfg c = Some (x, c')"
  shows "tags c' = tags c"
proof -
  obtain r c1 where body: "parse_body cfg (readStream c) ((reset_read c)\<lparr>validated := True\<rparr>) = Some (r, c1)"
    and rest: "(case r of Inr x \<Rightarrow> Some (x, c1)
       | Inl ex \<Rightarrow> if datagram cfg then Some (nothing_parsed, if warn_connections cfg then c1\<lparr>warned := warned c1 @ [ex]\<rparr> else c1)
           else do { c2 \<leftarrow> close_with cfg ex c1; Some (nothing_parsed, c2) }) = Some (x, c')"
    using assms by (auto simp: parseMessage_def split: bind_splits)
  have "tags c1 = tags c" using parse_body_tags [OF body] by simp
  moreover have "tags c' = tags c1"
  proof (cases r)
    case (Inl ex)
    then show ?thesis using rest close_with_tags [of cfg ex c1 c'] by (clarsimp split: if_splits bind_splits)
  qed (use rest in simp)
  ultimately show ?thesis by simp
qed

text \<open>The state at the end of a stage.\<close>

fun outcome :: "'c progress \<Rightarrow> 'c" where
  "outcome (Continue c) = c"
| "outcome (Return c) = c"
| "outcome (Throw ex c) = c"

lemma andThen_outcome:
  assumes "andThen m f stop = Some p" "\<And>x. m = Some x \<Longrightarrow> P (outcome x)" "\<And>x q. P x \<Longrightarrow> f x = Some q \<Longrightarrow> Q (outcome q)"
    "\<And>x. P x \<Longrightarrow> Q (stop x)"
  shows "Q (outcome p)"
  using assms by (cases m) (fastforce simp: andThen_def split: progress.splits)+

lemma io_tags:
  "tags (outcome (read_into r f c)) \<subseteq> tags c" if "\<And>c. tags (f c) = tags c" for f :: "'o connection \<Rightarrow> 'o connection"
  using that by (auto simp: read_into_def split: read_result.splits)

lemma io_tags_write:
  "tags (outcome (write_from r f c)) \<subseteq> tags c" if "\<And>c. tags (f c) = tags c" for f :: "'o connection \<Rightarrow> 'o connection"
  using that by (auto simp: write_from_def split: write_result.splits)

lemma header_stage_tags: "header_stage cfg r c = Some p \<Longrightarrow> tags (outcome p) \<subseteq> tags c"
proof (cases "readHeader c")
  case True
  assume "header_stage cfg r c = Some p"
  with True have "andThen (Some (read_into r (\<lambda>c. c) c)) (\<lambda>c1. case check_header cfg (readStream c1) of
          Inl ex \<Rightarrow> Some (Throw ex (c1\<lparr>readHeader := False\<rparr>))
        | Inr sz \<Rightarrow> (let pos = length (readStream c1) in Some (Continue (c1\<lparr>readHeader := False, readPos := pos,
            readStream := readStream c1 @ replicate (nat sz - pos) 0, readAtEnd := \<not> sz > int pos\<rparr>)))) (\<lambda>c. c) = Some p"
    by (simp add: header_stage_def)
  then show ?thesis
    by (rule andThen_outcome [where P = "\<lambda>x. tags x \<subseteq> tags c"])
      (use io_tags [of "\<lambda>c. c" r c] in \<open>auto simp: Let_def split: sum.splits\<close>)
qed (auto simp: header_stage_def)

lemma read_stage_tags: "read_stage cfg op rh rb c = Some p \<Longrightarrow> tags (outcome p) \<subseteq> tags c"
proof -
  assume r: "read_stage cfg op rh rb c = Some p"
  show ?thesis
  proof (cases "reads op \<and> readStream c \<noteq> []")
    case True
    let ?f = "\<lambda>c1. if \<not> readAtEnd c1 \<and> datagram cfg then Some (Throw DatagramLimitException c1)
          else Some (read_into rb (scheduleTimeout OpRead (endpointTimeout cfg)) c1)"
    have "andThen (header_stage cfg rh c) ?f (\<lambda>c. c) = Some p" using r True by (simp add: read_stage_def)
    then show ?thesis
    proof (rule andThen_outcome [where P = "\<lambda>x. tags x \<subseteq> tags c" and Q = "\<lambda>x. tags x \<subseteq> tags c"])
      fix x q assume "tags x \<subseteq> tags c" "?f x = Some q"
      then show "tags (outcome q) \<subseteq> tags c"
        using io_tags [of "scheduleTimeout OpRead (endpointTimeout cfg)" rb x] by (auto split: if_splits)
    qed (simp_all add: header_stage_tags)
  qed (use r in \<open>auto simp: read_stage_def\<close>)
qed

lemma io_stage_tags: "io_stage cfg op t c = Some p \<Longrightarrow> tags (outcome p) \<subseteq> tags c"
proof -
  assume "io_stage cfg op t c = Some p"
  then show ?thesis unfolding io_stage_def
  proof (rule andThen_outcome [where P = "\<lambda>x. tags x \<subseteq> tags c" and Q = "\<lambda>x. tags x \<subseteq> tags c"])
    fix x assume "write_stage cfg op (t_write t) c = Some x"
    then show "tags (outcome x) \<subseteq> tags c"
      using io_tags_write [of "scheduleTimeout OpWrite (endpointTimeout cfg)" "t_write t" c] by (auto simp: write_stage_def split: if_splits)
  qed (use read_stage_tags in blast)+
qed

lemma update_pool_tags [simp]: "tags (update_pool op s c) = tags c" "tags (unregister op' c) = tags c"
  by (simp_all add: update_pool_def unregister_def Let_def split: option.splits)

lemma initialize_tags:
  assumes "initialize cfg op ini c = Some p"
  shows "tags (outcome p) \<subseteq> tags c"
proof (cases ini)
  case InitDone
  with assms obtain c1 where c1: "setState cfg WriteBlocked StateNotValidated c = Some c1" "p = Continue c1"
    by (auto simp: initialize_def split: bind_splits)
  with setState_tags [OF c1(1)] show ?thesis by simp
qed (use assms in \<open>auto simp: initialize_def\<close>)

lemma validate_client_tags:
  assumes "andThen (Some (read_into vr (\<lambda>c. update_pool op OpRead (scheduleTimeout OpRead t c)) c1)) (\<lambda>c2.
      if length (readStream c2) < headerSize then None
      else (case check_validation (readStream c2) of Inl ex \<Rightarrow> Some (Throw ex c2) | Inr _ \<Rightarrow> Some (Continue (c2\<lparr>validated := True\<rparr>)))) (\<lambda>c. c)
    = Some x"
  shows "tags (outcome x) \<subseteq> tags c1"
  using assms
proof (rule andThen_outcome [where P = "\<lambda>x. tags x \<subseteq> tags c1"])
  fix y assume "Some (read_into vr (\<lambda>c. update_pool op OpRead (scheduleTimeout OpRead t c)) c1) = Some y"
  then show "tags (outcome y) \<subseteq> tags c1" using io_tags [of "\<lambda>c. update_pool op OpRead (scheduleTimeout OpRead t c)" vr c1] by simp
qed (auto split: if_splits sum.splits)

lemma validate_tags: "validate cfg op vw vr c = Some p \<Longrightarrow> tags (outcome p) \<subseteq> tags c"
  unfolding validate_def
proof (erule andThen_outcome [where P = "\<lambda>x. tags x \<subseteq> tags c"])
  fix x
  let ?w = "\<lambda>c. update_pool op OpWrite (scheduleTimeout OpWrite (connectTimeout cfg) c)"
    and ?r = "\<lambda>c. update_pool op OpRead (scheduleTimeout OpRead (connectTimeout cfg) c)"
  let ?cw = "if writeStream c = [] then c\<lparr>writeStream := control_message validateConnectionMsg 0, writeAtEnd := False\<rparr> else c"
    and ?cr = "if readStream c = [] then c\<lparr>readStream := replicate headerSize 0, readPos := 0, readAtEnd := False\<rparr> else c"
  let ?check = "\<lambda>c2. if length (readStream c2) < headerSize then None
                else (case check_validation (readStream c2) of
                        Inl ex \<Rightarrow> Some (Throw ex c2)
                      | Inr _ \<Rightarrow> Some (Continue (c2\<lparr>validated := True\<rparr>)))"
  assume x: "(if datagram cfg then Some (Continue c)
        else if has_adapter cfg then let c1 = ?cw in Some (write_from vw ?w c1)
        else let c1 = ?cr in andThen (Some (read_into vr ?r c1)) ?check (\<lambda>c. c)) = Some x"
  have same: "tags ?cw = tags c" "tags ?cr = tags c" by simp_all
  consider (udp) "datagram cfg" | (server) "\<not> datagram cfg" "has_adapter cfg" | (client) "\<not> datagram cfg" "\<not> has_adapter cfg" by blast
  then show "tags (outcome x) \<subseteq> tags c"
  proof cases
    case udp
    then show ?thesis using x by auto
  next
    case server
    then have "x = write_from vw ?w ?cw" using x by (simp add: Let_def)
    then show ?thesis using io_tags_write [of ?w vw ?cw] same(1) by simp
  next
    case client
    then have "andThen (Some (read_into vr ?r ?cr)) ?check (\<lambda>c. c) = Some x" using x by (simp add: Let_def)
    from validate_client_tags [OF this] same(2) show ?thesis by simp
  qed
qed auto

lemma start_tags: "start cfg ini vw vr c = Some (r, c') \<Longrightarrow> tags c' \<subseteq> tags c"
proof (cases "StateClosed \<le> state c")
  case False
  assume "start cfg ini vw vr c = Some (r, c')"
  with False obtain p where p: "andThen (initialize cfg None ini c) (validate cfg None vw vr) (\<lambda>c. c) = Some p"
    and rest: "(case p of Return c1 \<Rightarrow> Some (StartPending, c1\<lparr>startCallback := True\<rparr>)
        | Continue c1 \<Rightarrow> do { c2 \<leftarrow> setState cfg WriteBlocked StateHolding c1; Some (StartCompleted, c2) }
        | Throw ex c1 \<Rightarrow> do { c2 \<leftarrow> exception cfg ex c1; ex' \<leftarrow> except c2; Some (StartFailed ex', c2) }) = Some (r, c')"
    by (auto simp: start_def split: bind_splits)
  have "tags (outcome p) \<subseteq> tags c"
    by (rule andThen_outcome [OF p, where P = "\<lambda>x. tags x \<subseteq> tags c"]) (use initialize_tags validate_tags in blast)+
  moreover have "tags c' \<subseteq> tags (outcome p)"
    using rest by (cases p) (auto simp: exception_def split: bind_splits dest: setState_tags close_with_tags)
  ultimately show ?thesis by simp
qed (auto simp: start_def exception_def split: bind_splits dest: close_with_tags)

lemma setup_stage_tags: "setup_stage cfg op t c = Some p \<Longrightarrow> tags (snd (outcome p)) \<subseteq> tags c"
  unfolding setup_stage_def
proof (erule andThen_outcome [where P = "\<lambda>x. tags x \<subseteq> tags c" and Q = "\<lambda>x. tags (snd x) \<subseteq> tags c"])
  fix x assume "(if state c = StateNotInitialized then initialize cfg (Some op) (t_init t) c else Some (Continue c)) = Some x"
  then show "tags (outcome x) \<subseteq> tags c" using initialize_tags [of cfg "Some op" "t_init t" c x] by (auto split: if_splits)
next
  fix x q assume x: "tags x \<subseteq> tags c"
    and "andThen (if state x \<le> StateNotValidated then validate cfg (Some op) (t_validate_write t) (t_validate_read t) x else Some (Continue x))
         (\<lambda>c2. do { c3 \<leftarrow> setState cfg WriteBlocked StateHolding (unregister op c2);
            Some (Continue (nothing_todo\<lparr>startCB := startCallback c3\<rparr>, c3\<lparr>startCallback := False\<rparr>)) })
         (\<lambda>c. (nothing_todo, c)) = Some q"
  from this(2) show "tags (snd (outcome q)) \<subseteq> tags c"
  proof (rule andThen_outcome [where P = "\<lambda>x. tags x \<subseteq> tags c"])
    fix y assume "(if state x \<le> StateNotValidated then validate cfg (Some op) (t_validate_write t) (t_validate_read t) x else Some (Continue x)) = Some y"
    then show "tags (outcome y) \<subseteq> tags c"
      using validate_tags [of cfg "Some op" "t_validate_write t" "t_validate_read t" x y] x by (auto split: if_splits)
  next
    fix c2 r assume c2: "tags c2 \<subseteq> tags c" and "do { c3 \<leftarrow> setState cfg WriteBlocked StateHolding (unregister op c2);
            Some (Continue (nothing_todo\<lparr>startCB := startCallback c3\<rparr>, c3\<lparr>startCallback := False\<rparr>)) } = Some r"
    then obtain c3 where c3: "setState cfg WriteBlocked StateHolding (unregister op c2) = Some c3" "tags (snd (outcome r)) = tags c3"
      by (auto split: bind_splits)
    with setState_tags [OF c3(1)] c2 show "tags (snd (outcome r)) \<subseteq> tags c" by simp
  qed simp
qed simp

lemma transfer_stage_tags: "transfer_stage cfg op t c = Some p \<Longrightarrow> tags (snd (outcome p)) \<subseteq> tags c"
proof -
  assume "transfer_stage cfg op t c = Some p"
  then obtain x c1 cbs c2 where parse: "(if reads op then parseMessage cfg c else Some (nothing_parsed, c)) = Some (x, c1)"
    and send: "(if writes op then sendNextMessage cfg (t_next t) c1 else Some ([], c1)) = Some (cbs, c2)"
    and p: "p = Continue (nothing_todo\<lparr>sentCBs := cbs, parsed_msg := x\<rparr>,
      if cbs \<noteq> [] \<or> outAsync x \<noteq> None then c2\<lparr>dispatchCount := dispatchCount c2 + 1\<rparr> else c2)"
    unfolding transfer_stage_def by (auto split: bind_splits)
  have "tags c1 = tags c" using parse parseMessage_tags [of cfg c x c1] by (cases "reads op") simp_all
  moreover have "tags c2 \<subseteq> tags c1" using send sendNextMessage_tags [of cfg "t_next t" c1 cbs c2] by (cases "writes op") simp_all
  ultimately show ?thesis using p by simp
qed

lemma message_tags: "message cfg op t c = Some (td, c') \<Longrightarrow> tags c' \<subseteq> tags c"
proof (cases "StateClosed \<le> state c")
  case False
  let ?next = "\<lambda>c1. if state c1 \<le> StateNotValidated then setup_stage cfg op t c1 else transfer_stage cfg op t c1"
  assume "message cfg op t c = Some (td, c')"
  with False obtain p where p: "andThen (io_stage cfg op t (unscheduleTimeout op c)) ?next (\<lambda>c. (nothing_todo, c)) = Some p"
    and rest: "(case p of Continue r \<Rightarrow> Some r | Return r \<Rightarrow> Some r
        | Throw ex (_, c1) \<Rightarrow> do { c2 \<leftarrow> catch_exception cfg ex c1; Some (nothing_todo, c2) }) = Some (td, c')"
    by (auto simp: message_def io_stage_def split: bind_splits)
  have "tags (snd (outcome p)) \<subseteq> tags c"
  proof (rule andThen_outcome [OF p, where P = "\<lambda>x. tags x \<subseteq> tags c"])
    fix x assume "io_stage cfg op t (unscheduleTimeout op c) = Some x"
    then show "tags (outcome x) \<subseteq> tags c" using io_stage_tags [of cfg op t "unscheduleTimeout op c" x] by simp
  next
    fix x q assume "tags x \<subseteq> tags c" "?next x = Some q"
    then show "tags (snd (outcome q)) \<subseteq> tags c"
      using setup_stage_tags [of cfg op t x q] transfer_stage_tags [of cfg op t x q] by (cases "state x \<le> StateNotValidated") simp_all
  qed simp
  moreover have "tags c' = tags (snd (outcome p))"
  proof (cases p)
    case (Throw ex x)
    obtain y c1 where x: "x = (y, c1)" by force
    with rest Throw have "catch_exception cfg ex c1 = Some c'" by (auto split: bind_splits)
    then have "tags c' = tags c1" by (auto simp: catch_exception_def split: if_splits dest: close_with_tags)
    then show ?thesis using Throw x by simp
  qed (use rest in simp_all)
  ultimately show ?thesis by simp
qed (simp add: message_def)

end
