(* ===== verification/ConnectionLife.thy ===== *)
theory ConnectionLife
  imports ConnectionSystem
begin

text \<open>
  The properties of the connection as a system: no assertion of the code fails in any interleaving, the invariant of
  every reachable state, the order of the states, and the completion of requests.
\<close>

section \<open>The invariant of the system\<close>

definition world_ok :: "'o config \<Rightarrow> 'o world \<Rightarrow> bool" where
  "world_ok cfg w \<longleftrightarrow>
     control_ok cfg (invocations w) (int (length (callbacks w))) (conn w) \<and> data_ok (conn w) \<and> early_ok cfg (conn w) \<and>
     (\<not> started w \<longrightarrow> (state (conn w) = StateNotInitialized \<and> only_registered None (conn w)) \<or> StateClosed \<le> state (conn w)) \<and>
     (finishing w \<longrightarrow> StateClosed \<le> state (conn w)) \<and> (state (conn w) = StateFinished \<longrightarrow> finishing w)"

lemma world_ok_new: "world_ok cfg world_new"
  using conn_ok_new [of cfg]
  by (simp add: world_ok_def world_new_def conn_ok_def early_ok_def early_stream_def only_registered_def)
    (simp add: connection_new_def)

text \<open>An event that leaves a connection alone while it is being established, or closes it.\<close>

definition quiet :: "'o connection \<Rightarrow> 'o connection \<Rightarrow> bool" where
  "quiet c c' \<longleftrightarrow> (state c \<le> StateNotValidated \<longrightarrow> c' = c \<or> StateClosed \<le> state c')"

lemma world_step:
  assumes ok: "world_ok cfg w"
    and w': "started w' = started w" "finishing w' = finishing w"
      "control_ok cfg (invocations w') (int (length (callbacks w'))) (conn w')" "data_ok (conn w')"
    and step: "forward (conn w) (conn w')" "transceiverClosed (conn w') = transceiverClosed (conn w)" "quiet (conn w) (conn w')"
  shows "world_ok cfg w'"
proof -
  let ?c = "conn w" and ?c' = "conn w'"
  note w = ok [unfolded world_ok_def]
  have late: "StateNotValidated < state ?c'" if "StateNotValidated < state ?c" using step(1) that by (simp add: forward_def)
  have closed: "StateClosed \<le> state ?c'" if "StateClosed \<le> state ?c"
  proof -
    have "StateClosing \<le> state ?c" using that by (auto simp: state_order)
    then show ?thesis using step(1) that by (auto simp: forward_def intro: order_trans)
  qed
  have early: "?c' = ?c" if "state ?c' \<le> StateNotValidated"
    using step(3) late that by (cases "state ?c \<le> StateNotValidated") (auto simp: quiet_def state_order)
  have "early_ok cfg ?c'"
  proof (cases "state ?c' \<le> StateNotValidated")
    case True
    then show ?thesis using early w by simp
  qed (simp add: early_ok_def)
  moreover have "(state ?c' = StateNotInitialized \<and> only_registered None ?c') \<or> StateClosed \<le> state ?c'" if "\<not> started w'"
    using w w'(1) that closed step(3) by (auto simp: quiet_def state_order)
  moreover have "state ?c' = StateFinished \<longleftrightarrow> state ?c = StateFinished"
    using step(2) w w'(3) finished_iff by metis
  ultimately show ?thesis using w w' closed by (simp add: world_ok_def)
qed

text \<open>The outcome of an event: it does not fail, the invariant holds again, and the connection goes forward.\<close>

definition advances :: "'o config \<Rightarrow> 'o world \<Rightarrow> 'o world option \<Rightarrow> bool" where
  "advances cfg w r \<longleftrightarrow> (\<exists>w'. r = Some w' \<and> world_ok cfg w' \<and> forward (conn w) (conn w'))"

lemma advancesI:
  assumes "world_ok cfg w" "r = Some w'" "started w' = started w" "finishing w' = finishing w"
    "control_ok cfg (invocations w') (int (length (callbacks w'))) (conn w')" "data_ok (conn w')" "forward (conn w) (conn w')"
    "transceiverClosed (conn w') = transceiverClosed (conn w)" "quiet (conn w) (conn w')"
  shows "advances cfg w r"
  using world_step [OF assms(1,3-9)] assms(2,7) by (simp add: advances_def)

lemma quiet_late: "StateNotValidated < state c \<Longrightarrow> quiet c c'"
  by (simp add: quiet_def)

lemma outside_advances:
  assumes "world_ok cfg w" "outside_ok cfg (invocations w) (int (length (callbacks w))) (conn w) r"
  shows "advances cfg w (with_conn w r)"
proof -
  from assms(2) obtain c' where c': "r = Some c'" "control_ok cfg (invocations w) (int (length (callbacks w))) c'" "data_ok c'"
    "same_requests (conn w) c'" "forward (conn w) c'" "quiet (conn w) c'"
    by (auto simp: outside_ok_def keeps_def quiet_def)
  show ?thesis
    by (rule advancesI [OF assms(1), where w' = "w\<lparr>conn := c'\<rparr>"]) (use c' in \<open>simp_all add: with_conn_def same_requests_def\<close>)
qed

text \<open>An operation of a dispatch, with the counts it leaves.\<close>

lemma dispatch_advances:
  assumes "world_ok cfg w" "keeps cfg (invocations w') (int (length (callbacks w'))) (conn w) r" "StateNotValidated < state (conn w)"
    "started w' = started w" "finishing w' = finishing w"
  shows "advances cfg w (map_option (\<lambda>c. w'\<lparr>conn := c\<rparr>) r)"
proof -
  from assms(2) obtain c' where c': "r = Some c'" "control_ok cfg (invocations w') (int (length (callbacks w'))) c'" "data_ok c'"
    "same_requests (conn w) c'" "forward (conn w) c'"
    by (auto simp: keeps_def)
  show ?thesis
    by (rule advancesI [OF assms(1), where w' = "w'\<lparr>conn := c'\<rparr>"])
      (use c' assms(3-5) in \<open>simp_all add: same_requests_def quiet_late\<close>)
qed

lemma dispatching: "world_ok cfg w \<Longrightarrow> 0 < invocations w \<or> callbacks w \<noteq> [] \<Longrightarrow> StateNotValidated < state (conn w)"
  by (auto simp: world_ok_def dest: control_ok_early [rotated] simp: not_le [symmetric])

section \<open>Every event\<close>

lemma closed_not_finished: "StateClosed \<le> state c \<Longrightarrow> state c \<noteq> StateFinished \<Longrightarrow> state c = StateClosed"
  by (cases "state c") (simp_all add: state_order)

lemma complete_fields:
  "control_ok cfg n k (complete q r c) = control_ok cfg n k c" "data_ok (complete q r c) = data_ok c" "state (complete q r c) = state c"
  "transceiverClosed (complete q r c) = transceiverClosed c" "requests (complete q r c) = requests c"
  "asyncRequests (complete q r c) = asyncRequests c" "sendStreams (complete q r c) = sendStreams c"
  by (simp_all add: complete_def control_ok_def data_ok_def idle_def queue_ok_def read_ok_def maps_ok_def)

lemma deliver_fields:
  "control_ok cfg n k (deliver x c) = control_ok cfg n k c" "data_ok (deliver x c) = data_ok c" "state (deliver x c) = state c"
  "transceiverClosed (deliver x c) = transceiverClosed c" "requests (deliver x c) = requests c"
  "asyncRequests (deliver x c) = asyncRequests c" "sendStreams (deliver x c) = sendStreams c"
  by (simp_all add: deliver_def complete_fields split: option.splits prod.splits)

lemma start_advances:
  assumes ok: "world_ok cfg w" and en: "event_possible cfg (Start ini vw vr) w"
  shows "advances cfg w (event_step cfg (Start ini vw vr) w)"
proof -
  let ?c = "conn w" and ?n = "invocations w" and ?k = "int (length (callbacks w))"
  have w: "control_ok cfg ?n ?k ?c" "data_ok ?c" "early_ok cfg ?c" "finishing w \<longrightarrow> StateClosed \<le> state ?c"
    "(state ?c = StateNotInitialized \<and> only_registered None ?c) \<or> StateClosed \<le> state ?c" "state ?c = StateFinished \<longrightarrow> finishing w"
    using ok en by (auto simp: world_ok_def)
  obtain r c' where r: "start cfg ini vw vr ?c = Some (r, c')" and c': "control_ok cfg ?n ?k c'" "data_ok c'" "same_requests ?c c'"
    "forward ?c c'" "early_ok cfg c'"
    using start_ok [OF w(1-3), of ini vw vr] w(5) en by (auto simp: state_order)
  have "state c' = StateFinished \<longleftrightarrow> state ?c = StateFinished"
    using finished_iff [OF w(1)] finished_iff [OF c'(1)] c'(3) by (simp add: same_requests_def)
  moreover have "StateClosed \<le> state c'" if "StateClosed \<le> state ?c"
  proof -
    have "StateClosing \<le> state ?c" using that by (auto simp: state_order)
    then show ?thesis using c'(4) that by (auto simp: forward_def intro: order_trans)
  qed
  ultimately show ?thesis using r c' w(4,6) by (simp add: advances_def world_ok_def)
qed

lemma send_advances:
  assumes cfg: "config_ok cfg" and ok: "world_ok cfg w" and en: "event_possible cfg (SendRequest async io too_big q os compress response) w"
  shows "advances cfg w (event_step cfg (SendRequest async io too_big q os compress response) w)"
proof -
  let ?n = "invocations w" and ?k = "int (length (callbacks w))"
  have w: "control_ok cfg ?n ?k (conn w)" "data_ok (conn w)" "StateNotValidated < state (conn w)" "headerSize + 4 \<le> length os"
    using ok en by (auto simp: world_ok_def)
  obtain r c' where r: "send_request async cfg io too_big q os compress response (conn w) = Some (r, c')" "control_ok cfg ?n ?k c'" "data_ok c'"
    "forward (conn w) c'" "case r of SendOk _ \<Rightarrow> recorded async response (fst (new_request_id (nextRequestId (conn w)))) q (conn w) c'
       | _ \<Rightarrow> same_requests (conn w) c'"
    using send_request_ok [OF cfg w(1,2,4,3), of async io too_big q compress response] by blast
  have t: "transceiverClosed c' = transceiverClosed (conn w)"
    using r(5) by (cases r) (simp_all add: recorded_def same_requests_def)
  have e: "event_step cfg (SendRequest async io too_big q os compress response) w = Some (if is_ok r \<and> response
       then w\<lparr>conn := c', issued := issued w @ [q],
         collided := collided w \<or> \<not> fresh_id (fst (new_request_id (nextRequestId (conn w)))) (conn w)\<rparr> else w\<lparr>conn := c'\<rparr>)"
    using r(1) by (cases async) (simp_all add: sendRequest_def sendAsyncRequest_def)
  show ?thesis
    by (rule advancesI [OF ok e]) (use r(2-4) t w(3) in \<open>simp_all add: quiet_late\<close>)
qed

lemma message_advances:
  assumes cfg: "config_ok cfg" and ok: "world_ok cfg w" and en: "event_possible cfg (Message op t) w"
  shows "advances cfg w (event_step cfg (Message op t) w)"
proof -
  let ?c = "conn w" and ?n = "invocations w" and ?k = "int (length (callbacks w))"
  have w: "control_ok cfg ?n ?k ?c" "data_ok ?c" "early_ok cfg ?c" "finishing w \<longrightarrow> StateClosed \<le> state ?c" "state ?c = StateFinished \<longrightarrow> finishing w"
    "\<not> started w \<longrightarrow> (state ?c = StateNotInitialized \<and> only_registered None ?c) \<or> StateClosed \<le> state ?c"
    using ok by (auto simp: world_ok_def)
  obtain td c' where m: "message cfg op t ?c = Some (td, c')" and ev: "event_ok cfg ?n ?k ?c td c'" and early: "early_ok cfg c'"
    using message_ok [OF cfg w(1-3), of op t] en by auto
  let ?w = "after_message td c' w"
  have "int (length (callbacks ?w)) = ?k + callbacks_of td" "invocations ?w = ?n + invokeNum (parsed_msg td)" "conn ?w = c'"
    by (simp_all add: after_message_def callbacks_of_def)
  then have counts: "control_ok cfg (invocations ?w) (int (length (callbacks ?w))) (conn ?w)" using ev by (simp add: event_ok_def)
  moreover have "state c' = StateFinished \<longleftrightarrow> state ?c = StateFinished"
    using finished_iff [OF w(1)] finished_iff [OF counts] ev by (simp add: event_ok_def after_message_def)
  moreover have closed: "StateClosed \<le> state c'" if "StateClosed \<le> state ?c"
  proof -
    have "StateClosing \<le> state ?c" using that by (auto simp: state_order)
    then show ?thesis using ev that by (auto simp: event_ok_def forward_def intro: order_trans)
  qed
  moreover have "StateClosed \<le> state c'" if "\<not> started w"
  proof -
    have "\<not> only_registered None ?c" using en by (cases op) (auto simp: event_enabled_def only_registered_def)
    then show ?thesis using w(6) that closed by blast
  qed
  ultimately show ?thesis using m ev early w(4,5)
    by (simp add: advances_def world_ok_def) (simp add: after_message_def event_ok_def)
qed

lemma callbacks_advance:
  assumes cfg: "config_ok cfg" and ok: "world_ok cfg w" and en: "event_possible cfg (RunCallbacks i io) w"
  shows "advances cfg w (event_step cfg (RunCallbacks i io) w)"
proof -
  let ?k = "int (length (callbacks w))" and ?c = "deliver (callbacks w ! i) (conn w)"
  have i: "i < length (callbacks w)" "callbacks w \<noteq> []" using en by auto
  have len: "int (length (drop_nth i (callbacks w))) = ?k - 1" using i(1) by (simp add: drop_nth_def)
  note same = deliver_fields(3,4) [of "callbacks w ! i" "conn w"]
  have "control_ok cfg (invocations w) ?k ?c" "data_ok ?c" using ok by (simp_all add: world_ok_def deliver_fields)
  then have "keeps cfg (invocations w) (?k - 1) ?c (callbacks_done cfg io ?c)" using callbacks_done_ok [OF cfg] i by simp
  then obtain c' where c': "callbacks_done cfg io ?c = Some c'" "control_ok cfg (invocations w) (?k - 1) c'" "data_ok c'"
    "same_requests ?c c'" "forward ?c c'"
    by (auto simp: keeps_def)
  have "forward (conn w) c'" using c'(5) same(1) by (simp add: forward_def)
  moreover have "transceiverClosed c' = transceiverClosed (conn w)" using c'(4) same(2) by (simp add: same_requests_def)
  moreover have "StateNotValidated < state (conn w)" using dispatching [OF ok] i(2) by simp
  ultimately show ?thesis
    by (intro advancesI [OF ok, where w' = "w\<lparr>conn := c', callbacks := drop_nth i (callbacks w)\<rparr>"]) (use c' len in \<open>simp_all add: quiet_late\<close>)
qed

lemma finish_advances:
  assumes ok: "world_ok cfg w" and en: "event_possible cfg Finish w"
  shows "advances cfg w (event_step cfg Finish w)"
proof -
  have w: "control_ok cfg (invocations w) (int (length (callbacks w))) (conn w)" "finishing w" "state (conn w) = StateClosed"
    using ok en closed_not_finished by (auto simp: world_ok_def)
  obtain c' where "finish cfg (conn w) = Some c'" "control_ok cfg (invocations w) (int (length (callbacks w))) c'" "data_ok c'" "state c' = StateFinished"
    using finish_ok [OF w(1,3)] by blast
  then show ?thesis using w(2,3) by (simp add: advances_def with_conn_def world_ok_def early_ok_def forward_def state_order)
qed

lemma finished_advances:
  assumes ok: "world_ok cfg w" and en: "event_possible cfg PoolFinished w"
  shows "advances cfg w (event_step cfg PoolFinished w)"
proof -
  have w: "control_ok cfg (invocations w) (int (length (callbacks w))) (conn w)" "data_ok (conn w)" "early_ok cfg (conn w)"
    "StateClosed \<le> state (conn w)" "state (conn w) \<noteq> StateFinished"
    using ok en by (auto simp: world_ok_def control_ok_def)
  then have c: "state (conn w) = StateClosed" using closed_not_finished by blast
  then show ?thesis using w
    by (simp add: advances_def world_ok_def finished_def forward_def) (simp add: early_ok_def state_order)
qed

lemma batch_open: "world_ok cfg w \<Longrightarrow> except (conn w) \<noteq> None \<longleftrightarrow> StateClosing \<le> state (conn w)"
  by (auto simp: world_ok_def control_ok_def not_less)

text \<open>The batch, with the requests that were accepted; a stream is lent only after the connection has been established.\<close>

definition batched :: "'o world \<Rightarrow> bool" where
  "batched w \<longleftrightarrow> batch_ok (accepted w) (aborted w) (lent w) (batch w) (conn w) \<and> (lent w \<noteq> None \<longrightarrow> StateNotValidated < state (conn w))"

lemma batched_new: "batched world_new"
  by (simp add: batched_def world_new_def batch_ok_new)

definition batch_event :: "'o event \<Rightarrow> bool" where
  "batch_event e \<longleftrightarrow> (case e of PrepareBatch \<Rightarrow> True | FinishBatch _ _ _ _ \<Rightarrow> True | AbortBatch \<Rightarrow> True | FlushBatch _ _ _ \<Rightarrow> True | _ \<Rightarrow> False)"

text \<open>An operation on the batch: the connection makes a step, the batch is in order, and nothing else changes.\<close>

definition batch_effect :: "'o config \<Rightarrow> 'o world \<Rightarrow> 'o world \<Rightarrow> bool" where
  "batch_effect cfg w w' \<longleftrightarrow> steps_to cfg (invocations w) (int (length (callbacks w))) (conn w) (conn w') \<and> batched w' \<and>
     tags (conn w') \<subseteq> tags (conn w) \<and> StateNotValidated < state (conn w) \<and> started w' = started w \<and> finishing w' = finishing w \<and>
     invocations w' = invocations w \<and> callbacks w' = callbacks w \<and> issued w' = issued w \<and> collided w' = collided w"

lemma batch_step:
  assumes cfg: "config_ok cfg" and ok: "world_ok cfg w" and b: "batched w" and en: "event_possible cfg e w" and ev: "batch_event e"
  shows "\<exists>w'. event_step cfg e w = Some w' \<and> batch_effect cfg w w'"
proof -
  have w: "control_ok cfg (invocations w) (int (length (callbacks w))) (conn w)" "data_ok (conn w)"
    "batch_ok (accepted w) (aborted w) (lent w) (batch w) (conn w)"
    using ok b by (auto simp: world_ok_def batched_def)
  have late: "StateNotValidated < state c'" if "steps_to cfg n k (conn w) c'" "StateNotValidated < state (conn w)" for n k c'
    using that by (simp add: steps_to_def forward_def)
  show ?thesis
  proof (cases e)
    case PrepareBatch
    then have p: "StateNotValidated < state (conn w)" "batch_ready (batch w) (conn w)" using en by auto
    obtain r s b' c' where "prepareBatchRequest cfg [] (batch w) (conn w) = Some (r, s, b', c')"
      "steps_to cfg (invocations w) (int (length (callbacks w))) (conn w) c'" "batch_ok (accepted w) (aborted w) (if r = BatchOk then Some s else lent w) b' c'"
      using prepareBatchRequest_ok [OF w(1,2) p(1) w(3) p(2)] by blast
    then show ?thesis using PrepareBatch p(1) late batch_tags(1) by (fastforce simp: batch_effect_def batched_def)
  next
    case (FinishBatch io check req compress)
    then obtain s where s: "lent w = Some s" "req \<noteq> []" "int (length s + length req) < 2 ^ 31" using en by (auto split: option.splits)
    then have p: "StateNotValidated < state (conn w)" using b by (simp add: batched_def)
    obtain r b' c' where "finishBatchRequest cfg io check (s @ req) compress (batch w) (conn w) = Some (r, b', c')"
      "steps_to cfg (invocations w) (int (length (callbacks w))) (conn w) c'"
      "batch_ok (if r = BatchOk then accepted w @ [req] else accepted w) (aborted w) None b' c'"
      using finishBatchRequest_ok [OF cfg w(1,2) p w(3) [unfolded s(1)] s(2,3)] by blast
    then show ?thesis using FinishBatch s(1) p finishBatchRequest_tags by (fastforce simp: batch_effect_def batched_def)
  next
    case AbortBatch
    then have l: "lent w \<noteq> None" "StateNotValidated < state (conn w)" using en b by (auto simp: batched_def)
    obtain b' where "abortBatchRequest (batch w) = Some b'" "batch_ok (accepted w) True None b' (conn w)"
      using abortBatchRequest_ok [OF w(3) l(1)] by blast
    then show ?thesis using AbortBatch l(2) steps_to_refl [OF w(1,2)] by (simp add: batch_effect_def batched_def)
  next
    case (FlushBatch async io q)
    then have p: "StateNotValidated < state (conn w)" "batch_ready (batch w) (conn w)" using en by auto
    let ?caller = "if async then Async q else Sync q"
    obtain r b' c' where f: "flush_batch cfg io ?caller [] (batch w) (conn w) = Some (r, b', c')"
      "steps_to cfg (invocations w) (int (length (callbacks w))) (conn w) c'" "batch_ok (accepted w) (aborted w) (lent w) b' c'"
      using flush_batch_ok [OF cfg w(1,2) p(1) w(3) p(2)] by blast
    then have "event_step cfg e w = Some (w\<lparr>conn := c', batch := b'\<rparr>)"
      using FlushBatch by (cases async) (simp_all add: flushAsyncBatchRequests_def flushBatchRequests_def)
    then show ?thesis using f p(1) late batch_tags(3) [OF f(1)] by (simp add: batch_effect_def batched_def)
  qed (use ev in \<open>simp_all add: batch_event_def\<close>)
qed

lemma batch_advances:
  assumes ok: "world_ok cfg w" and e: "batch_effect cfg w w'"
  shows "advances cfg w (Some w')"
  by (rule advancesI [OF ok refl]) (use e in \<open>simp_all add: batch_effect_def steps_to_def same_requests_def quiet_late\<close>)

text \<open>The other events leave the batch alone.\<close>

lemma other_batched:
  assumes ok: "world_ok cfg w" "world_ok cfg w'" and b: "batched w" and fwd: "forward (conn w) (conn w')"
    and step: "event_step cfg e w = Some w'" "\<not> batch_event e"
  shows "batched w'"
proof -
  have same: "batch w' = batch w" "lent w' = lent w" "accepted w' = accepted w" "aborted w' = aborted w"
    using step by (cases e; auto simp: with_conn_def after_message_def batch_event_def split: if_splits)+
  have "except (conn w') \<noteq> None" if "except (conn w) \<noteq> None"
  proof -
    have "StateClosing \<le> state (conn w)" using that batch_open [OF ok(1)] by blast
    then have "StateClosing \<le> state (conn w')" using fwd order_trans unfolding forward_def by blast
    then show ?thesis using batch_open [OF ok(2)] by blast
  qed
  then have "batch_ok (accepted w) (aborted w) (lent w) (batch w) (conn w')"
    using b unfolding batched_def by (blast intro: batch_ok_conn)
  then show ?thesis using same b fwd by (simp add: batched_def forward_def)
qed

lemma event_advances:
  assumes cfg: "config_ok cfg" and ok: "world_ok cfg w" and b: "batched w" and en: "event_possible cfg e w"
  shows "advances cfg w (event_step cfg e w)"
proof (cases "batch_event e")
  case True
  then show ?thesis using batch_step [OF cfg ok b en] batch_advances [OF ok] by auto
next
  case False
  have w: "control_ok cfg (invocations w) (int (length (callbacks w))) (conn w)" "data_ok (conn w)" using ok by (auto simp: world_ok_def)
  note dispatch = dispatching [OF ok]
  show ?thesis
  proof (cases e)
    case (SendResponse io io' os compress)
    then have "keeps cfg (invocations w - 1) (int (length (callbacks w))) (conn w) (sendResponse cfg io io' os compress (conn w))"
      using sendResponse_ok [OF cfg w] en dispatch by simp
    then show ?thesis using SendResponse en dispatch
      using dispatch_advances [OF ok, where w' = "w\<lparr>invocations := invocations w - 1\<rparr>"] by simp
  next
    case (SendNoResponse io)
    then have "keeps cfg (invocations w - 1) (int (length (callbacks w))) (conn w) (sendNoResponse cfg io (conn w))"
      using sendNoResponse_ok [OF cfg w] en dispatch by simp
    then show ?thesis using SendNoResponse en dispatch
      using dispatch_advances [OF ok, where w' = "w\<lparr>invocations := invocations w - 1\<rparr>"] by simp
  next
    case (InvokeException ex m)
    then have "keeps cfg (invocations w - m) (int (length (callbacks w))) (conn w) (invokeException cfg ex m (conn w))"
      using invokeException_ok [OF w] en by simp
    then show ?thesis using InvokeException en dispatch
      using dispatch_advances [OF ok, where w' = "w\<lparr>invocations := invocations w - m\<rparr>"] by simp
  qed (use en start_advances [OF ok] send_advances [OF cfg ok] message_advances [OF cfg ok] callbacks_advance [OF cfg ok]
      finish_advances [OF ok] finished_advances [OF ok] outside_advances [OF ok activate_ok(1) [OF w]] outside_advances [OF ok activate_ok(2) [OF w]]
      outside_advances [OF ok destroy_ok [OF cfg w]] outside_advances [OF ok close_ok [OF cfg w]] outside_advances [OF ok monitor_ok [OF cfg w]]
      outside_advances [OF ok timedOut_ok [OF w]] False in \<open>auto simp: batch_event_def simp del: event_possible.simps\<close>)
qed

section \<open>Requests are completed\<close>

text \<open>
  As long as no request id was used twice, an accepted two-way request is done, waits in a map, or its reply is with a
  callback that has not run yet; and the entries that queued messages would remove are their own.
\<close>

definition tags_ok :: "'o connection \<Rightarrow> bool" where
  "tags_ok c \<longleftrightarrow> (\<forall>(i, x) \<in> tags c. case x of NoCaller \<Rightarrow> False
     | Sync q \<Rightarrow> smap_find (requests c) i \<in> {None, Some q} | Async q \<Rightarrow> smap_find (asyncRequests c) i \<in> {None, Some q})"

definition accounted :: "'o world \<Rightarrow> 'o \<Rightarrow> bool" where
  "accounted w q \<longleftrightarrow> settled q (conn w) \<or> outstanding q (conn w) \<or> (\<exists>b. Some (q, b) \<in> set (callbacks w))"

definition live_ok :: "'o world \<Rightarrow> bool" where
  "live_ok w \<longleftrightarrow> \<not> collided w \<longrightarrow> (\<forall>q \<in> set (issued w). accounted w q) \<and> tags_ok (conn w)"

lemma live_ok_new: "live_ok world_new"
  by (simp add: live_ok_def world_new_def connection_new_def tags_ok_def tags_def)

lemma tags_ok_owner: "tags_ok c \<Longrightarrow> m \<in> set (sendStreams c) \<Longrightarrow> owner_ok c m"
proof (cases "m_requestId m = 0")
  case False
  assume "tags_ok c" "m \<in> set (sendStreams c)"
  moreover from this(2) False have "(m_requestId m, m_caller m) \<in> tags c" by (force simp: tags_def tag_def)
  ultimately show ?thesis by (auto simp: tags_ok_def owner_ok_def)
qed (simp add: owner_ok_def)

lemma tags_ok_shrink:
  assumes "tags_ok c" "tags c' \<subseteq> tags c" "\<And>i. smap_find (requests c') i \<in> {None, smap_find (requests c) i}"
    "\<And>i. smap_find (asyncRequests c') i \<in> {None, smap_find (asyncRequests c) i}"
  shows "tags_ok c'"
  unfolding tags_ok_def
proof
  fix x assume "x \<in> tags c'"
  then have "x \<in> tags c" using assms(2) by blast
  with assms(1) have "case x of (i, x) \<Rightarrow> (case x of NoCaller \<Rightarrow> False
     | Sync q \<Rightarrow> smap_find (requests c) i \<in> {None, Some q} | Async q \<Rightarrow> smap_find (asyncRequests c) i \<in> {None, Some q})"
    by (auto simp: tags_ok_def)
  then show "case x of (i, x) \<Rightarrow> (case x of NoCaller \<Rightarrow> False
     | Sync q \<Rightarrow> smap_find (requests c') i \<in> {None, Some q} | Async q \<Rightarrow> smap_find (asyncRequests c') i \<in> {None, Some q})"
    using assms(3) [of "fst x"] assms(4) [of "fst x"] by (auto split: prod.splits caller.splits)
qed

lemma live_same:
  assumes "live_ok w" "same_requests (conn w) (conn w')" "tags (conn w') \<subseteq> tags (conn w)" "issued w' = issued w" "collided w' = collided w"
    "set (callbacks w) \<subseteq> set (callbacks w')"
  shows "live_ok w'"
proof -
  have "accounted w' q" if "accounted w q" for q
    using that assms(2,6) by (auto simp: accounted_def settled_def outstanding_def same_requests_def)
  moreover have "tags_ok (conn w')" if "tags_ok (conn w)"
    by (rule tags_ok_shrink [OF that assms(3)]) (use assms(2) in \<open>simp_all add: same_requests_def\<close>)
  ultimately show ?thesis using assms(1,4,5) by (auto simp: live_ok_def)
qed

lemma keeps_live:
  assumes "live_ok w" "keeps cfg n k (conn w) r" "r = Some c'" "tags c' \<subseteq> tags (conn w)" "conn w' = c'" "issued w' = issued w"
    "collided w' = collided w" "callbacks w' = callbacks w"
  shows "live_ok w'"
  by (rule live_same [OF assms(1)]) (use assms(2-8) in \<open>auto simp: keeps_def\<close>)

text \<open>A reply moves its request from a map to the completed ones, or into the callback.\<close>

lemma reply_tags:
  assumes "reply_effect a c c'"
  shows "smap_find (requests c') i \<in> {None, smap_find (requests c) i}" "smap_find (asyncRequests c') i \<in> {None, smap_find (asyncRequests c) i}"
  using assms by (auto simp: reply_effect_def same_requests_def smap_erase_find split: option.splits)

lemma reply_accounted:
  assumes "reply_effect a c c'" "settled q c \<or> outstanding q c"
  shows "settled q c' \<or> outstanding q c' \<or> (\<exists>b. a = Some (q, b))"
proof (cases a)
  case (Some x)
  then obtain p b i where "smap_find (asyncRequests c) i = Some p" "asyncRequests c' = smap_erase i (asyncRequests c)"
    "requests c' = requests c" "completed c' = completed c" "a = Some (p, b)"
    using assms(1) by (cases x) (auto simp: reply_effect_def)
  then show ?thesis using assms(2) by (auto simp: settled_def outstanding_def smap_erase_find) (metis option.inject)
next
  case None
  then consider "same_requests c c'" | i p b where "smap_find (requests c) i = Some p" "requests c' = smap_erase i (requests c)"
      "asyncRequests c' = asyncRequests c" "completed c' = completed c @ [(p, GotReply b)]"
    using assms(1) by (auto simp: reply_effect_def)
  then show ?thesis
  proof cases
    case 1
    then show ?thesis using assms(2) by (auto simp: same_requests_def settled_def outstanding_def)
  next
    case (2 i p b)
    then show ?thesis using assms(2) by (auto simp: settled_def outstanding_def smap_erase_find) (metis option.inject)
  qed
qed

lemma message_live:
  assumes live: "live_ok w" and ev: "event_ok cfg n k (conn w) td c'" and tags: "tags c' \<subseteq> tags (conn w)"
  shows "live_ok (after_message td c' w)"
proof -
  let ?a = "outAsync (parsed_msg td)" and ?w = "after_message td c' w"
  have eff: "reply_effect ?a (conn w) c'" using ev by (simp add: event_ok_def)
  have cb: "set (callbacks w) \<subseteq> set (callbacks ?w)" "?a \<noteq> None \<Longrightarrow> ?a \<in> set (callbacks ?w)" by (auto simp: after_message_def)
  have "accounted ?w q" if "accounted w q" for q
  proof (cases "settled q (conn w) \<or> outstanding q (conn w)")
    case True
    then show ?thesis using reply_accounted [OF eff True] cb(2) by (auto simp: accounted_def after_message_def)
  next
    case False
    then show ?thesis using that cb(1) by (auto simp: accounted_def)
  qed
  moreover have "tags_ok c'" if "tags_ok (conn w)" by (rule tags_ok_shrink [OF that tags reply_tags [OF eff]])
  ultimately show ?thesis using live by (auto simp: live_ok_def after_message_def)
qed

lemma send_live:
  assumes cfg: "config_ok cfg" and ok: "world_ok cfg w" and live: "live_ok w"
    and en: "event_possible cfg (SendRequest async io too_big q os compress response) w"
    and step: "event_step cfg (SendRequest async io too_big q os compress response) w = Some w'"
  shows "live_ok w'"
proof -
  let ?c = "conn w" and ?i = "fst (new_request_id (nextRequestId (conn w)))"
  have w: "control_ok cfg (invocations w) (int (length (callbacks w))) ?c" "data_ok ?c" "StateNotValidated < state ?c" "headerSize + 4 \<le> length os"
    using ok en by (auto simp: world_ok_def)
  obtain r c' where r: "send_request async cfg io too_big q os compress response ?c = Some (r, c')"
    "case r of SendOk _ \<Rightarrow> recorded async response ?i q ?c c' | _ \<Rightarrow> same_requests ?c c'"
    using send_request_ok [OF cfg w(1,2,4,3), of async io too_big q compress response] by blast
  have w': "w' = (if is_ok r \<and> response then w\<lparr>conn := c', issued := issued w @ [q], collided := collided w \<or> \<not> fresh_id ?i ?c\<rparr>
      else w\<lparr>conn := c'\<rparr>)"
    using step r(1) by (cases async) (auto simp: sendRequest_def sendAsyncRequest_def)
  note tags = send_request_tags [OF r(1)]
  show ?thesis
  proof (cases "is_ok r \<and> response")
    case False
    then have "same_requests ?c c'" using r(2) by (cases r) (auto simp: is_ok_def recorded_def same_requests_def)
    then show ?thesis using w' False tags by (intro live_same [OF live]) auto
  next
    case True
    then have rec: "recorded async True ?i q ?c c'" using r(2) by (cases r) (auto simp: is_ok_def)
    show ?thesis
    proof (cases "fresh_id ?i ?c \<and> \<not> collided w")
      case False
      then show ?thesis using w' True by (auto simp: live_ok_def)
    next
      case fresh: True
      have nc: "state ?c < StateClosed"
        using r(1) True w(1) by (auto simp: send_request_def control_ok_def is_ok_def state_order split: option.splits bind_splits if_splits)
      then have "smap_inv (requests ?c)" "smap_inv (asyncRequests ?c)" using w(2,3) by (auto simp: data_ok_def maps_ok_def)
      then have maps: "smap_find (requests c') = (if async then smap_find (requests ?c) else (smap_find (requests ?c))(?i \<mapsto> q))"
        "smap_find (asyncRequests c') = (if async then (smap_find (asyncRequests ?c))(?i \<mapsto> q) else smap_find (asyncRequests ?c))"
        using rec fresh by (auto simp: recorded_def insert_request_def fresh_id_def smap_put_find)
      have comp: "completed c' = completed ?c" using rec by (simp add: recorded_def)
      have "smap_find (requests ?c) j = Some p \<Longrightarrow> smap_find (requests c') j = Some p"
        "smap_find (asyncRequests ?c) j = Some p \<Longrightarrow> smap_find (asyncRequests c') j = Some p" for j p
        using maps fresh by (auto simp: fresh_id_def)
      then have out: "outstanding p c'" if "outstanding p ?c" for p using that unfolding outstanding_def by blast
      have new: "outstanding q c'" using maps by (cases async) (auto simp: outstanding_def)
      have "accounted w' p" if "p \<in> set (issued w')" for p
        using that w' True live fresh out new comp by (auto simp: live_ok_def accounted_def settled_def)
      moreover have "tags_ok c'"
        unfolding tags_ok_def
      proof (intro ballI)
        fix x assume "x \<in> tags c'"
        then consider "x \<in> tags ?c" | "x = (?i, if async then Async q else Sync q)" using tags True by auto
        then show "case x of (i, x) \<Rightarrow> (case x of NoCaller \<Rightarrow> False
          | Sync q \<Rightarrow> smap_find (requests c') i \<in> {None, Some q} | Async q \<Rightarrow> smap_find (asyncRequests c') i \<in> {None, Some q})"
        proof cases
          case 1
          then have "fst x \<noteq> ?i" using fresh by (auto simp: fresh_id_def tags_def tag_def)
          moreover have "case x of (i, x) \<Rightarrow> (case x of NoCaller \<Rightarrow> False
            | Sync q \<Rightarrow> smap_find (requests ?c) i \<in> {None, Some q} | Async q \<Rightarrow> smap_find (asyncRequests ?c) i \<in> {None, Some q})"
            using 1 live fresh by (auto simp: live_ok_def tags_ok_def)
          ultimately show ?thesis using maps by (auto split: prod.splits caller.splits)
        next
          case 2
          then show ?thesis using maps by (cases async) simp_all
        qed
      qed
      moreover have "conn w' = c'" using w' True by simp
      ultimately show ?thesis unfolding live_ok_def by blast
    qed
  qed
qed

lemma callbacks_live:
  assumes cfg: "config_ok cfg" and ok: "world_ok cfg w" and live: "live_ok w" and en: "event_possible cfg (RunCallbacks i io) w"
    and step: "event_step cfg (RunCallbacks i io) w = Some w'"
  shows "live_ok w'"
proof -
  let ?x = "callbacks w ! i" and ?c = "deliver (callbacks w ! i) (conn w)"
  have i: "i < length (callbacks w)" "0 < int (length (callbacks w))" using en by auto
  have "control_ok cfg (invocations w) (int (length (callbacks w))) ?c" "data_ok ?c" using ok by (simp_all add: world_ok_def deliver_fields)
  from callbacks_done_ok [OF cfg this i(2), of io] obtain c' where c': "callbacks_done cfg io ?c = Some c'" "same_requests ?c c'"
    by (auto simp: keeps_def)
  have w': "w' = w\<lparr>conn := c', callbacks := drop_nth i (callbacks w)\<rparr>" using step c'(1) by simp
  have tags: "tags c' \<subseteq> tags (conn w)"
    using callbacks_done_tags [OF c'(1)] tags_same [of ?c "conn w"] by (simp add: deliver_fields)
  have split: "set (callbacks w) = insert ?x (set (drop_nth i (callbacks w)))"
    using id_take_nth_drop [OF i(1)] by (simp add: drop_nth_def) (metis Un_insert_right list.simps(15) set_append)
  have "accounted w' q" if "accounted w q" for q
  proof -
    have "settled q ?c" if "\<exists>b. ?x = Some (q, b)" using that by (auto simp: deliver_def complete_def settled_def)
    moreover have "settled q ?c" if "settled q (conn w)" using that by (auto simp: deliver_def complete_def settled_def split: option.splits)
    moreover have "outstanding q ?c = outstanding q (conn w)" by (simp add: outstanding_def deliver_fields)
    moreover have "settled q c' = settled q ?c" "outstanding q c' = outstanding q ?c"
      using c'(2) by (simp_all add: same_requests_def settled_def outstanding_def)
    ultimately show ?thesis using \<open>accounted w q\<close> w' split by (simp add: accounted_def) (metis insert_iff)
  qed
  moreover have "tags_ok c'" if "tags_ok (conn w)"
    by (rule tags_ok_shrink [OF that tags]) (use c'(2) in \<open>simp_all add: same_requests_def deliver_fields\<close>)
  ultimately show ?thesis using live w' by (auto simp: live_ok_def)
qed

lemma finish_live:
  assumes ok: "world_ok cfg w" and live: "live_ok w" and en: "event_possible cfg Finish w" and step: "event_step cfg Finish w = Some w'"
  shows "live_ok w'"
proof -
  have w: "control_ok cfg (invocations w) (int (length (callbacks w))) (conn w)" "state (conn w) = StateClosed"
    using ok en closed_not_finished by (auto simp: world_ok_def)
  obtain c' where c': "finish cfg (conn w) = Some c'" "data_ok c'" "state c' = StateFinished" "\<forall>q. settled q (conn w) \<longrightarrow> settled q c'"
    "(\<forall>m \<in> set (sendStreams (conn w)). owner_ok (conn w) m) \<longrightarrow> (\<forall>q. outstanding q (conn w) \<longrightarrow> settled q c')"
    using finish_ok [OF w] by blast
  have w': "w' = w\<lparr>conn := c'\<rparr>" using step c'(1) by (simp add: with_conn_def)
  have "tags c' = {}" using c'(2,3) by (simp add: data_ok_def tags_def)
  then have "tags_ok c'" by (simp add: tags_ok_def)
  moreover have "accounted w' q" if "accounted w q" "tags_ok (conn w)" for q
    using that c'(4,5) tags_ok_owner [OF that(2)] w' by (auto simp: accounted_def)
  ultimately show ?thesis using live w' by (auto simp: live_ok_def)
qed

lemma start_live:
  assumes ok: "world_ok cfg w" and live: "live_ok w" and en: "event_possible cfg (Start ini vw vr) w"
    and step: "event_step cfg (Start ini vw vr) w = Some w'"
  shows "live_ok w'"
proof -
  have w: "control_ok cfg (invocations w) (int (length (callbacks w))) (conn w)" "data_ok (conn w)" "early_ok cfg (conn w)"
    "(state (conn w) = StateNotInitialized \<and> only_registered None (conn w)) \<or> StateClosed \<le> state (conn w)"
    using ok en by (auto simp: world_ok_def)
  obtain r c' where r: "start cfg ini vw vr (conn w) = Some (r, c')" "same_requests (conn w) c'"
    using start_ok [OF w(1-3), of ini vw vr] w(4) en by (auto simp: state_order)
  then have "w' = w\<lparr>conn := c', started := True\<rparr>" using step by simp
  then show ?thesis using live_same [OF live, of w'] r(2) start_tags [OF r(1)] by simp
qed

lemma event_live:
  assumes cfg: "config_ok cfg" and ok: "world_ok cfg w" and b: "batched w" and live: "live_ok w" and en: "event_possible cfg e w"
    and step: "event_step cfg e w = Some w'"
  shows "live_ok w'"
proof (cases "batch_event e")
  case True
  then have "batch_effect cfg w w'" using batch_step [OF cfg ok b en] step by auto
  then show ?thesis using live_same [OF live] by (simp add: batch_effect_def steps_to_def)
next
  case False
  have w: "control_ok cfg (invocations w) (int (length (callbacks w))) (conn w)" "data_ok (conn w)" "early_ok cfg (conn w)"
    using ok by (auto simp: world_ok_def)
  note dispatch = dispatching [OF ok]
  have outside: "live_ok w'" if r: "outside_ok cfg (invocations w) (int (length (callbacks w))) (conn w) r" "with_conn w r = Some w'"
    "\<And>c'. r = Some c' \<Longrightarrow> tags c' \<subseteq> tags (conn w)" for r
  proof -
    obtain c' where c': "r = Some c'" "w' = w\<lparr>conn := c'\<rparr>" using r(2) by (auto simp: with_conn_def)
    show ?thesis by (rule keeps_live [OF live _ c'(1) r(3) [OF c'(1)]]) (use r(1) c'(2) in \<open>auto simp: outside_ok_def\<close>)
  qed
  have dispatched: "live_ok w'" if r: "keeps cfg n k (conn w) r" "r = Some c'" "w' = w\<lparr>invocations := m, conn := c'\<rparr>" "tags c' \<subseteq> tags (conn w)"
    for n k r c' m
    by (rule keeps_live [OF live r(1,2,4)]) (simp_all add: r(3))
  show ?thesis
  proof (cases e)
    case (Message op t)
    obtain td c' where m: "message cfg op t (conn w) = Some (td, c')"
      "event_ok cfg (invocations w) (int (length (callbacks w))) (conn w) td c'"
      using message_ok [OF cfg w, of op t] en Message by auto
    then have "w' = after_message td c' w" using step Message by simp
    with message_live [OF live m(2) message_tags [OF m(1)]] show ?thesis by simp
  next
    case (SendResponse io io' os compress)
    have k: "keeps cfg (invocations w - 1) (int (length (callbacks w))) (conn w) (sendResponse cfg io io' os compress (conn w))"
      using sendResponse_ok [OF cfg w(1,2)] en dispatch SendResponse by simp
    obtain c' where "sendResponse cfg io io' os compress (conn w) = Some c'" "w' = w\<lparr>invocations := invocations w - 1, conn := c'\<rparr>"
      using step SendResponse by auto
    with dispatched [OF k] sendResponse_tags show ?thesis by blast
  next
    case (SendNoResponse io)
    have k: "keeps cfg (invocations w - 1) (int (length (callbacks w))) (conn w) (sendNoResponse cfg io (conn w))"
      using sendNoResponse_ok [OF cfg w(1,2)] en dispatch SendNoResponse by simp
    obtain c' where "sendNoResponse cfg io (conn w) = Some c'" "w' = w\<lparr>invocations := invocations w - 1, conn := c'\<rparr>"
      using step SendNoResponse by auto
    with dispatched [OF k] sendNoResponse_tags show ?thesis by blast
  next
    case (InvokeException ex m)
    have k: "keeps cfg (invocations w - m) (int (length (callbacks w))) (conn w) (invokeException cfg ex m (conn w))"
      using invokeException_ok [OF w(1,2)] en InvokeException by simp
    obtain c' where "invokeException cfg ex m (conn w) = Some c'" "w' = w\<lparr>invocations := invocations w - m, conn := c'\<rparr>"
      using step InvokeException by auto
    with dispatched [OF k] invokeException_tags show ?thesis by blast
  next
    case PoolFinished
    then have "w' = w\<lparr>conn := unscheduleTimeout OpReadWrite (conn w), finishing := True\<rparr>"
      using step by (auto simp: finished_def split: bind_splits)
    then show ?thesis using live_same [OF live, of w'] by simp
  next
    case Activate
    show ?thesis by (rule outside [OF activate_ok(1) [OF w(1,2)]]) (use step Activate in \<open>auto dest: outside_tags(1)\<close>)
  next
    case Hold
    show ?thesis by (rule outside [OF activate_ok(2) [OF w(1,2)]]) (use step Hold in \<open>auto dest: outside_tags(2)\<close>)
  next
    case (Destroy io reason)
    show ?thesis by (rule outside [OF destroy_ok [OF cfg w(1,2)]]) (use step Destroy in \<open>auto dest: outside_tags(3)\<close>)
  next
    case (Close io force)
    show ?thesis by (rule outside [OF close_ok [OF cfg w(1,2)]]) (use step Close in \<open>auto dest: outside_tags(4)\<close>)
  next
    case (Monitor io expired)
    show ?thesis by (rule outside [OF monitor_ok [OF cfg w(1,2)]]) (use step Monitor in \<open>auto dest: outside_tags(5)\<close>)
  next
    case TimedOut
    show ?thesis by (rule outside [OF timedOut_ok [OF w(1,2)]]) (use step TimedOut in \<open>auto dest: outside_tags(6)\<close>)
  qed (use en step False start_live [OF ok live] send_live [OF cfg ok live] callbacks_live [OF cfg ok live] finish_live [OF ok live]
      in \<open>(blast | simp add: batch_event_def)+\<close>)
qed

section \<open>The life of a connection\<close>

abbreviation run_connection :: "'o config \<Rightarrow> 'o event list \<Rightarrow> 'o world \<Rightarrow> 'o world option" where
  "run_connection cfg \<equiv> run_events (event_possible cfg) (event_step cfg)"

definition system_ok :: "'o config \<Rightarrow> 'o world \<Rightarrow> bool" where
  "system_ok cfg w \<longleftrightarrow> world_ok cfg w \<and> batched w \<and> live_ok w"

lemma system_step:
  assumes ok: "system_ok cfg w" and en: "event_possible cfg e w"
  shows "\<exists>w'. event_step cfg e w = Some w' \<and> system_ok cfg w' \<and> forward (conn w) (conn w')"
proof -
  note cfg = config_ok [of cfg]
  have w: "world_ok cfg w" "batched w" "live_ok w" using ok by (auto simp: system_ok_def)
  obtain w' where w': "event_step cfg e w = Some w'" "world_ok cfg w'" "forward (conn w) (conn w')"
    using event_advances [OF cfg w(1,2) en] by (auto simp: advances_def)
  have "batched w'"
  proof (cases "batch_event e")
    case True
    then show ?thesis using batch_step [OF cfg w(1,2) en] w'(1) by (auto simp: batch_effect_def)
  qed (use other_batched [OF w(1) w'(2) w(2) w'(3,1)] in blast)
  then show ?thesis using w w' event_live [OF cfg w en w'(1)] by (simp add: system_ok_def)
qed

interpretation life: ordered_system "event_possible cfg" "event_step cfg" "system_ok cfg" "\<lambda>w w'. forward (conn w) (conn w')" for cfg
proof
  fix s :: "'a world" and e
  assume "system_ok cfg s" "event_possible cfg e s"
  then show "\<exists>s'. event_step cfg e s = Some s' \<and> system_ok cfg s'" using system_step by blast
next
  fix s s' :: "'a world" and e
  assume "system_ok cfg s" "event_possible cfg e s" "event_step cfg e s = Some s'"
  then show "forward (conn s) (conn s')" using system_step [of cfg s e] by auto
qed (auto intro: forward_trans)

lemma system_ok_new: "system_ok cfg world_new"
  by (simp add: system_ok_def world_ok_new batched_new live_ok_new)

text \<open>A client connection whose compression library always fails, for examples.\<close>

definition sample_config :: "nat config" where
  "sample_config = \<lparr>datagram = False, has_adapter = False, warn_connections = True, acm_enabled = False, batchAutoFlush = True, messageSizeMax = 1048576,
     connectTimeout = 60000, endpointTimeout = 60000, closeTimeout = 60000,
     bzCompress = \<lambda>_ _. Inl BZ_MEM_ERROR, bzDecompress = \<lambda>_ _. Inl BZ_DATA_ERROR,
     sent_callback = \<lambda>_. False, reply_error = \<lambda>_. None\<rparr>"


text \<open>The connection is established and activated, a request with id 1 is queued, and the connection is destroyed.\<close>

definition establishing :: "nat event list" where
  "establishing = [Start InitDone WriteBlocked (ReadDone (control_message validateConnectionMsg 0)), Activate,
     SendRequest False WriteBlocked False 7 (requestHdr @ replicate 8 0) False True]"

definition closing :: "nat event list" where
  "closing = [Destroy WriteDone CommunicatorDestroyed, TimedOut, PoolFinished, Finish]"




text \<open>
  C4. A connection that is closing never goes back: later states are closing, closed or finished, in this order.
\<close>

theorem connection_order:
  assumes "run_connection cfg es world_new = Some w" "run_connection cfg es' w = Some w'"
    and "StateClosing \<le> state (conn w)"
  shows "state (conn w) \<le> state (conn w')"
proof -
  have "system_ok cfg w" using life.run_safe [OF system_ok_new, of cfg es] assms(1) by auto
  from life.run_rel [OF this assms(2)] show ?thesis using assms(3) by (simp add: forward_def)
qed

lemma connection_order_witness:
  "\<exists>w w'. run_connection sample_config (establishing @ take 1 closing) world_new = Some w \<and>
     run_connection sample_config (Activate # drop 1 closing) w = Some w' \<and> StateClosing \<le> state (conn w) \<and> state (conn w) \<le> state (conn w')"
proof -
  have "map_option (\<lambda>w. (StateClosing \<le> state (conn w), run_connection sample_config (Activate # drop 1 closing) w \<noteq> None))
      (run_connection sample_config (establishing @ take 1 closing) world_new) = Some (True, True)" by code_simp
  then obtain w w' where "run_connection sample_config (establishing @ take 1 closing) world_new = Some w"
    "run_connection sample_config (Activate # drop 1 closing) w = Some w'" "StateClosing \<le> state (conn w)" by auto
  with connection_order [OF this] show ?thesis by blast
qed

text \<open>
  C3. No request is lost: when the connection is finished and the callbacks have run, every two-way request that was
  accepted has been completed, with its reply or with the exception of the connection, provided no request id was given
  out while it was still in use.
\<close>

theorem requests_complete:
  assumes "run_connection cfg es world_new = Some w"
    and "state (conn w) = StateFinished" "callbacks w = []" "\<not> collided w" "q \<in> set (issued w)"
  shows "\<exists>r. (q, r) \<in> set (completed (conn w))"
proof -
  have ok: "data_ok (conn w)" "live_ok w"
    using life.run_safe [OF system_ok_new, of cfg es] assms(1) by (auto simp: system_ok_def world_ok_def)
  have "\<not> outstanding q (conn w)" using ok(1) assms(2) by (simp add: data_ok_def outstanding_def)
  then have "settled q (conn w)" using ok(2) assms(3-5) by (auto simp: live_ok_def accounted_def)
  then show ?thesis by (auto simp: settled_def)
qed

lemma requests_complete_witness:
  "\<exists>w r. run_connection sample_config (establishing @ closing) world_new = Some w \<and> (7, r) \<in> set (completed (conn w))"
proof -
  have "map_option (\<lambda>w. (state (conn w) = StateFinished, callbacks w = [], \<not> collided w, 7 \<in> set (issued w)))
      (run_connection sample_config (establishing @ closing) world_new) = Some (True, True, True, True)" by code_simp
  then obtain w where "run_connection sample_config (establishing @ closing) world_new = Some w" "state (conn w) = StateFinished"
    "callbacks w = []" "\<not> collided w" "7 \<in> set (issued w)" by auto
  with requests_complete [OF this] show ?thesis by blast
qed

section \<open>Completion can happen twice\<close>




section \<open>Batch requests\<close>





section \<open>Request ids\<close>

text \<open>The ids that \<open>k\<close> two-way requests get, from the counter \<open>n\<close> on.\<close>

fun request_ids :: "nat \<Rightarrow> int \<Rightarrow> int list" where
  "request_ids 0 n = []"
| "request_ids (Suc k) n = (let (i, n') = new_request_id n in i # request_ids k n')"

abbreviation max_id :: int where "max_id \<equiv> 2147483647"

definition id_position :: "int \<Rightarrow> int" where
  "id_position n = (if n \<le> 0 then 0 else n - 1)"

lemma new_request_id_position:
  assumes "n \<le> max_id" "new_request_id n = (i, n')"
  shows "i = id_position n + 1" "n' \<le> max_id" "id_position n' = (id_position n + 1) mod max_id" "0 \<le> id_position n" "id_position n < max_id"
  using assms by (auto simp: new_request_id_def incr32_def id_position_def split: if_splits)

lemma request_ids_eq: "n \<le> max_id \<Longrightarrow> request_ids k n = map (\<lambda>j. (id_position n + int j) mod max_id + 1) [0..<k]"
proof (induction k arbitrary: n)
  case (Suc k)
  obtain i n' where i: "new_request_id n = (i, n')" by force
  note p = new_request_id_position [OF Suc.prems i]
  have "(id_position n' + int j) mod max_id = (id_position n + int (Suc j)) mod max_id" for j
    using p(3) by (simp add: mod_add_left_eq add.assoc [symmetric])
  then show ?case using Suc.IH [OF p(2)] i p(1,4,5) by (simp add: map_upt_Suc mod_pos_pos_trivial del: upt_Suc)
qed simp

text \<open>
  C13. Request ids are positive 32-bit integers, also when the counter wraps around, and no id is given out twice in
  \<open>2 ^ 31 - 1\<close> consecutive two-way requests.
\<close>

theorem request_ids_distinct:
  assumes "n \<le> max_id" "k \<le> nat max_id"
  shows "distinct (request_ids k n) \<and> (\<forall>i \<in> set (request_ids k n). 0 < i \<and> i \<le> max_id)"
proof -
  have "inj_on (\<lambda>j. (id_position n + int j) mod max_id + 1) (set [0..<k])"
  proof (rule inj_onI)
    fix x y assume xy: "x \<in> set [0..<k]" "y \<in> set [0..<k]"
      and "(id_position n + int x) mod max_id + 1 = (id_position n + int y) mod max_id + 1"
    then have "max_id dvd (int x - int y)" by (simp add: mod_eq_dvd_iff)
    moreover have "\<bar>int x - int y\<bar> < max_id" using xy assms(2) by simp
    ultimately have "int x - int y = 0" using dvd_imp_le_int [of "int x - int y" max_id] by linarith
    then show "x = y" by simp
  qed
  moreover have "0 < m mod max_id + 1" "m mod max_id + 1 \<le> max_id" for m :: int
    using pos_mod_sign [of max_id m] pos_mod_bound [of max_id m] by simp_all
  ultimately show ?thesis unfolding request_ids_eq [OF assms(1)] by (simp add: distinct_map)
qed

lemma request_ids_distinct_witness:
  "request_ids 3 2147483646 = [2147483646, 2147483647, 1] \<and> distinct (request_ids 3 2147483646)"
  using request_ids_distinct [of 2147483646 3] by (simp add: numeral_3_eq_3 new_request_id_def incr32_def)

end
