(* ===== verification/ConnectionCompress.thy ===== *)
theory ConnectionCompress
  imports ConnectionProofs
begin

text \<open>
  Compressed messages: what \<open>sendMessage\<close> puts on the wire is what \<open>parseMessage\<close> gets back, for every compression library
  that undoes its own compression and respects the capacity of the output buffer.
\<close>

definition bz_ok :: "'o config \<Rightarrow> bool" where
  "bz_ok cfg \<longleftrightarrow> (\<forall>cap d z. bzCompress cfg cap d = Inr z \<longrightarrow> length z \<le> cap \<and> bzDecompress cfg (length d) z = Inr d)"

lemma int_at_filled:
  assumes "int n < 2 ^ 31" "length pre = pos"
  shows "int_at (pre @ nat_to_le 4 n @ post) pos = int n"
proof -
  have "le_to_nat (nat_to_le 4 n) = n" using assms(1) by (simp add: le_to_nat_to_le)
  moreover have "sint (word_of_nat n :: int32) = int n" using assms(1) sint_of_nat32 by simp
  ultimately show ?thesis using assms(2) by (simp add: int_at_def)
qed

text \<open>The layout of a compressed message.\<close>

lemma doCompress_layout:
  assumes "doCompress cfg s = Inr t" "headerSize \<le> length s"
  obtains z where "bzCompress cfg ((length s - headerSize) * 101 div 100 + 600) (drop headerSize s) = Inr z"
    "t = take 10 s @ nat_to_le 4 (length t) @ nat_to_le 4 (length s) @ z" "length t = headerSize + 4 + length z"
proof -
  obtain z where z: "bzCompress cfg ((length s - headerSize) * 101 div 100 + 600) (drop headerSize s) = Inr z"
    using assms(1) by (auto simp: doCompress_def Let_def split: sum.splits)
  have "t = take 10 s @ nat_to_le 4 (headerSize + 4 + length z) @ nat_to_le 4 (length s) @ z"
    using assms z by (auto simp: doCompress_def Let_def memcpy_at_def headerSize_def)
  moreover from this have "length t = headerSize + 4 + length z" using assms(2) by (simp add: headerSize_def)
  ultimately show ?thesis using that [OF z] by metis
qed

lemma doUncompress_layout:
  assumes t: "t = pre @ nat_to_le 4 n @ nat_to_le 4 (length s) @ z" and len: "length pre = 10" "int (length s) < 2 ^ 31" "headerSize < length s"
    and max: "int (length s) \<le> messageSizeMax cfg" and bz: "bzDecompress cfg (length s - headerSize) z = Inr (drop headerSize s)"
  shows "doUncompress cfg t = Inr (pre @ nat_to_le 4 n @ drop headerSize s)"
proof -
  have at: "int_at t headerSize = int (length s)"
    using int_at_filled [OF len(2), of "pre @ nat_to_le 4 n" headerSize z] t len(1) by (simp add: headerSize_def)
  have d: "drop (headerSize + 4) t = z" "take headerSize t = pre @ nat_to_le 4 n" "\<not> length t < headerSize + 4"
    using t len(1) by (simp_all add: headerSize_def)
  have "memcpy_at (memcpy_at (replicate (length s) 0) headerSize (drop headerSize s)) 0 (pre @ nat_to_le 4 n) = pre @ nat_to_le 4 n @ drop headerSize s"
    using len by (simp add: memcpy_at_def headerSize_def)
  then show ?thesis using at d len(3) max bz by (simp add: doUncompress_def)
qed

text \<open>
  C9. A message that \<open>sendMessage\<close> compresses says so in its header and carries its own size there, and the receiver's
  \<open>doUncompress\<close> gives back the message: the same header apart from compression status and size, and the same body.
\<close>

theorem compression_roundtrip:
  assumes bz: "bz_ok cfg" and m: "m_compress m" "100 \<le> length (m_stream m)" "prepare cfg m = Some (Inr t)"
    and size: "int (length t) < 2 ^ 31" "int (length (m_stream m)) < 2 ^ 31" "int (length (m_stream m)) \<le> messageSizeMax cfg"
  shows "t ! 9 = 2 \<and> int_at t 10 = int (length t) \<and>
    doUncompress cfg t = Inr (take 9 (m_stream m) @ [2] @ nat_to_le 4 (length t) @ drop headerSize (m_stream m))"
proof -
  define s where "s = (m_stream m)[9 := 2]"
  have s: "length s = length (m_stream m)" "drop headerSize s = drop headerSize (m_stream m)" "take 10 s = take 9 (m_stream m) @ [2]"
    using m(2) by (simp_all add: s_def headerSize_def take_update_swap take_Suc_conv_app_nth [of 9, simplified] list_update_append)
  have comp: "doCompress cfg s = Inr t" using m by (auto simp: prepare_def s_def split: bind_splits)
  have "headerSize \<le> length s" using m(2) s(1) by (simp add: headerSize_def)
  then obtain z where z: "bzCompress cfg ((length s - headerSize) * 101 div 100 + 600) (drop headerSize s) = Inr z"
    "t = take 10 s @ nat_to_le 4 (length t) @ nat_to_le 4 (length s) @ z"
    using doCompress_layout [OF comp] by metis
  have un: "bzDecompress cfg (length s - headerSize) z = Inr (drop headerSize s)" using bz z(1) unfolding bz_ok_def by (metis length_drop)
  have "doUncompress cfg t = Inr (take 10 s @ nat_to_le 4 (length t) @ drop headerSize s)"
    using doUncompress_layout [OF z(2) _ _ _ _ un] m(2) s(1) size by (simp add: headerSize_def)
  moreover have "int_at t 10 = int (length t)"
    by (subst z(2)) (rule int_at_filled, use size m(2) s(1) in simp_all)
  moreover have "t ! 9 = 2" by (subst z(2)) (use m(2) s(3) in \<open>simp add: nth_append\<close>)
  ultimately show ?thesis using s(2,3) by simp
qed

text \<open>A connection whose compression library stores the data as it is.\<close>

definition storing_config :: "nat config" where
  "storing_config = \<lparr>datagram = False, has_adapter = False, warn_connections = True, acm_enabled = False, batchAutoFlush = True,
     messageSizeMax = 1048576, connectTimeout = 60000, endpointTimeout = 60000, closeTimeout = 60000,
     bzCompress = \<lambda>cap d. if length d \<le> cap then Inr d else Inl BZ_OUTBUFF_FULL,
     bzDecompress = \<lambda>cap z. if length z \<le> cap then Inr z else Inl BZ_OUTBUFF_FULL,
     sent_callback = \<lambda>_. False, reply_error = \<lambda>_. None\<rparr>"

definition long_message :: "nat message" where
  "long_message = \<lparr>m_stream = requestHdr @ replicate 90 7, m_caller = NoCaller, m_compress = True, m_requestId = 0, m_isSent = False\<rparr>"

lemma compression_roundtrip_witness:
  "bz_ok storing_config \<and> (\<exists>t. prepare storing_config long_message = Some (Inr t) \<and> length t = 112 \<and> t ! 9 = 2 \<and>
     doUncompress storing_config t = Inr (take 9 requestHdr @ [2] @ nat_to_le 4 112 @ replicate 4 0 @ replicate 90 7))"
proof -
  have bz: "bz_ok storing_config" by (simp add: bz_ok_def storing_config_def)
  have "map_option (map_sum id length) (prepare storing_config long_message) = Some (Inr 112)" by code_simp
  then obtain t where t: "prepare storing_config long_message = Some (Inr t)" "length t = 112"
    by (cases "prepare storing_config long_message"; cases "the (prepare storing_config long_message)") auto
  have m: "m_compress long_message" "length (m_stream long_message) = 108" "messageSizeMax storing_config = 1048576"
    "take 9 (m_stream long_message) = take 9 requestHdr" "drop headerSize (m_stream long_message) = replicate 4 0 @ replicate 90 7"
    by (simp_all add: long_message_def storing_config_def requestHdr_def magic_def headerSize_def numeral_eq_Suc)
  show ?thesis using compression_roundtrip [OF bz m(1) _ t(1)] t bz m by simp
qed

end
