(* ===== verification/StreamClass.thy ===== *)
theory StreamClass
  imports StreamString
begin

text \<open>
  Class instances on a stream, what the encoders and decoders of both encodings share:
  \<^verbatim>\<open>EncapsEncoder\<close> and \<^verbatim>\<open>EncapsDecoder\<close> of \<^verbatim>\<open>cpp/include/Ice/BasicStream.h\<close> and \<^verbatim>\<open>cpp/src/Ice/BasicStream.cpp\<close>. An instance
  is known by its address; what generated code does for it is determined by its slices, from the most derived class
  to its last base, each with the data members it declares. A member is a plain value, whose type is a parameter, or a
  handle.
\<close>

section \<open>Instances\<close>

datatype 'v field = Plain 'v | Handle "nat option"

type_synonym 'v slice = "string \<times> 'v field list"

type_synonym 'v object = "'v slice list"

definition ice_staticId :: string where
  "ice_staticId = ''::Ice::Object''"

datatype slice_type = NoSlice | ObjectSlice | ExceptionSlice

text \<open>A step of an encoder or decoder: its own state and the stream change.\<close>

type_synonym 'e step = "'e \<Rightarrow> stream \<Rightarrow> stream_error + 'e \<times> stream"

definition on_stream :: "writer \<Rightarrow> 'e step" where
  "on_stream w e s = bindE (w s) (\<lambda>s1. Inr (e, s1))"

fun each :: "('a \<Rightarrow> 'e step) \<Rightarrow> 'a list \<Rightarrow> 'e step" where
  "each f [] e s = Inr (e, s)"
| "each f (x # xs) e s = bindS (f x e s) (each f xs)"

section \<open>Type ids that have been written\<close>

record type_ids =
  typeIdMap :: "(string \<times> int) list"
  typeIdIndex :: int

definition type_ids_new :: type_ids where
  "type_ids_new = \<lparr>typeIdMap = [], typeIdIndex = 0\<rparr>"

definition registerTypeId :: "string \<Rightarrow> type_ids \<Rightarrow> int \<times> type_ids" where
  "registerTypeId typeId t =
     (case smap_find (typeIdMap t) typeId of
        Some index \<Rightarrow> (index, t)
      | None \<Rightarrow> (-1, t\<lparr>typeIdMap := smap_put typeId (typeIdIndex t + 1) (typeIdMap t), typeIdIndex := typeIdIndex t + 1\<rparr>))"

section \<open>Decoding\<close>

text \<open>
  Where a handle is to be stored: the \<open>k\<close>-th handle that is read outside of instances, or a member of an instance, by the
  number of its slice and its number within the slice.
\<close>

datatype location = Root nat | Member nat nat nat

text \<open>
  The layout of a class: the types of the plain members and the handles of each slice. A factory is asked for
  an instance of a type id and may decline.
\<close>

datatype 't kind = PlainKind 't | HandleKind

type_synonym 't layout = "'t kind list list"

type_synonym 't factory = "string \<Rightarrow> 't layout option"

record 't factories =
  findFactory :: "string \<Rightarrow> 't factory option"
  staticFactory :: "string \<Rightarrow> 't factory option"

text \<open>
  The decoder with what it does to the program's memory: \<open>patched\<close> are the handles it has stored, \<open>instances\<close> the
  instances with the type id they were created for and the plain members read so far, by address, and \<open>posted\<close>
  the calls of \<^verbatim>\<open>ice_postUnmarshal\<close>.
\<close>

record 'v decoder =
  patchMap :: "(int \<times> location list) list"
  unmarshaledMap :: "(int \<times> nat) list"
  readTypeIds :: "(int \<times> string) list"
  readTypeIdIndex :: int
  objectList :: "nat list"
  patched :: "(location \<times> nat option) list"
  instances :: "(string \<times> 'v list list) list"
  posted :: "nat list"

definition decoder_new :: "'v decoder" where
  "decoder_new = \<lparr>patchMap = [], unmarshaledMap = [], readTypeIds = [], readTypeIdIndex = 0, objectList = [], patched = [],
     instances = [], posted = []\<rparr>"

definition readTypeId :: "bool \<Rightarrow> ('v, 'z) decoder_scheme \<Rightarrow> stream \<Rightarrow> stream_error + string \<times> ('v, 'z) decoder_scheme \<times> stream" where
  "readTypeId isIndex d s =
     (if isIndex then
        bindS (readSize s) (\<lambda>index s1.
        case smap_find (readTypeIds d) (int index) of
          None \<Rightarrow> Inl UnmarshalOutOfBounds
        | Some t \<Rightarrow> Inr (t, d, s1))
      else
        bindS (readString False s) (\<lambda>t s1.
        let k = readTypeIdIndex d + 1
        in Inr (t, d\<lparr>readTypeIds := (if smap_find (readTypeIds d) k = None then smap_put k t (readTypeIds d) else readTypeIds d),
             readTypeIdIndex := k\<rparr>, s1)))"

definition newInstance :: "'t factories \<Rightarrow> string \<Rightarrow> stream_error + 't layout option" where
  "newInstance f typeId =
     (let v = (case findFactory f typeId of None \<Rightarrow> None | Some create \<Rightarrow> create typeId);
          v' = (if v = None then (case findFactory f [] of None \<Rightarrow> None | Some create \<Rightarrow> create typeId) else v)
      in if v' = None then
           (case staticFactory f typeId of
              None \<Rightarrow> Inr None
            | Some create \<Rightarrow> (case create typeId of None \<Rightarrow> Inl AssertFailed | Some layout \<Rightarrow> Inr (Some layout)))
         else Inr v')"

text \<open>Storing a handle: the patch function is called with the address.\<close>

definition patch :: "location \<Rightarrow> nat option \<Rightarrow> ('v, 'z) decoder_scheme \<Rightarrow> ('v, 'z) decoder_scheme" where
  "patch addr v d = d\<lparr>patched := patched d @ [(addr, v)]\<rparr>"

definition addPatchEntry :: "int \<Rightarrow> location \<Rightarrow> ('v, 'z) decoder_scheme \<Rightarrow> stream_error + ('v, 'z) decoder_scheme" where
  "addPatchEntry index addr d =
     (if index \<le> 0 then Inl AssertFailed
      else
        (case smap_find (unmarshaledMap d) index of
           Some v \<Rightarrow> Inr (patch addr (Some v) d)
         | None \<Rightarrow>
             (let entries = (case smap_find (patchMap d) index of None \<Rightarrow> [] | Some l \<Rightarrow> l)
              in Inr (d\<lparr>patchMap := smap_put index (entries @ [addr]) (patchMap d)\<rparr>))))"

text \<open>
  \<open>unmarshal\<close>: \<open>read\<close> is the \<^verbatim>\<open>__read\<close> of the instance. The exceptions that \<^verbatim>\<open>ice_postUnmarshal\<close> may throw are caught.
\<close>

definition unmarshal :: "('v, 'z) decoder_scheme step \<Rightarrow> int \<Rightarrow> nat \<Rightarrow> ('v, 'z) decoder_scheme step" where
  "unmarshal read index v d s =
     (let d1 = d\<lparr>unmarshaledMap := (if smap_find (unmarshaledMap d) index = None then smap_put index v (unmarshaledMap d)
            else unmarshaledMap d)\<rparr>
      in bindS (read d1 s) (\<lambda>d2 s2.
         case smap_find (patchMap d2) index of
           Some [] \<Rightarrow> Inl AssertFailed
         | entries \<Rightarrow>
             (let d3 = (case entries of
                          None \<Rightarrow> d2
                        | Some l \<Rightarrow> (fold (\<lambda>addr. patch addr (Some v)) l d2)\<lparr>patchMap := smap_erase index (patchMap d2)\<rparr>);
                  d4 = (if objectList d3 = [] \<and> patchMap d3 = [] then d3\<lparr>posted := posted d3 @ [v]\<rparr>
                        else if patchMap d3 = [] then d3\<lparr>posted := posted d3 @ objectList d3 @ [v], objectList := []\<rparr>
                        else d3\<lparr>objectList := objectList d3 @ [v]\<rparr>)
              in Inr (d4, s2))))"

end
