(* ===== verification/StreamClass10.thy ===== *)
theory StreamClass10
  imports StreamClass
begin

text \<open>
  Class instances with the 1.0 encoding: \<^verbatim>\<open>EncapsEncoder10\<close> and \<^verbatim>\<open>EncapsDecoder10\<close> of
  \<^verbatim>\<open>cpp/src/Ice/BasicStream.cpp\<close>. A handle is the negative index of its instance; the instances follow at the end, in
  sequences, until no new one has turned up. Each slice carries its type id, as a string or as an index, and its size,
  so that a receiver can skip the slices of classes it does not know.
\<close>

section \<open>Encoding\<close>

record encoder10 =
  typeIds :: type_ids
  sliceType :: slice_type
  writeSlice :: nat
  objectIdIndex :: int
  marshaledMap :: "(nat \<times> int) list"
  toBeMarshaledMap :: "(nat \<times> int) list"

definition encoder10_new :: encoder10 where
  "encoder10_new = \<lparr>typeIds = type_ids_new, sliceType = NoSlice, writeSlice = 0, objectIdIndex = 0, marshaledMap = [],
     toBeMarshaledMap = []\<rparr>"

definition registerObject :: "nat \<Rightarrow> encoder10 \<Rightarrow> int \<times> encoder10" where
  "registerObject v e =
     (case smap_find (toBeMarshaledMap e) v of
        Some index \<Rightarrow> (index, e)
      | None \<Rightarrow>
          (case smap_find (marshaledMap e) v of
             Some index \<Rightarrow> (index, e)
           | None \<Rightarrow>
               (objectIdIndex e + 1,
                e\<lparr>objectIdIndex := objectIdIndex e + 1, toBeMarshaledMap := smap_put v (objectIdIndex e + 1) (toBeMarshaledMap e)\<rparr>)))"

definition enc10_write :: "nat option \<Rightarrow> encoder10 step" where
  "enc10_write v e s =
     (case v of
        None \<Rightarrow> on_stream (writeInt 0) e s
      | Some a \<Rightarrow> (let (index, e1) = registerObject a e in on_stream (writeInt (of_int (- index))) e1 s))"

definition enc10_startInstance :: "slice_type \<Rightarrow> encoder10 step" where
  "enc10_startInstance st e s = Inr (e\<lparr>sliceType := st\<rparr>, s)"

definition enc10_startSlice :: "string \<Rightarrow> encoder10 step" where
  "enc10_startSlice typeId e s =
     bindS (if sliceType e = ObjectSlice then
              (let (index, t) = registerTypeId typeId (typeIds e);
                   e1 = e\<lparr>typeIds := t\<rparr>
               in if index < 0 then bindE (writeBool False s) (on_stream (writeString False typeId) e1)
                  else bindE (writeBool True s) (on_stream (writeSize (of_int index)) e1))
            else on_stream (writeString False typeId) e s) (\<lambda>e1 s1.
     bindE (writeInt 0 s1) (\<lambda>s2. Inr (e1\<lparr>writeSlice := length (b s2)\<rparr>, s2)))"

definition enc10_endSlice :: "encoder10 step" where
  "enc10_endSlice e s = on_stream (writeInt_at (of_nat (length (b s) - writeSlice e + 4)) (writeSlice e - 4)) e s"

definition enc10_endInstance :: "encoder10 step" where
  "enc10_endInstance e s =
     bindS (if sliceType e = ObjectSlice then
              bindS (enc10_startSlice ice_staticId e s) (\<lambda>e1 s1.
              bindS (on_stream (writeSize 0) e1 s1) enc10_endSlice)
            else Inr (e, s)) (\<lambda>e1 s1. Inr (e1\<lparr>sliceType := NoSlice\<rparr>, s1))"

text \<open>What generated code does with the members, the slices and the whole instance; \<open>wr\<close> writes a plain member.\<close>

definition write_member10 :: "('v \<Rightarrow> writer) \<Rightarrow> 'v field \<Rightarrow> encoder10 step" where
  "write_member10 wr m = (case m of Plain v \<Rightarrow> on_stream (wr v) | Handle v \<Rightarrow> enc10_write v)"

definition write_slice10 :: "('v \<Rightarrow> writer) \<Rightarrow> 'v slice \<Rightarrow> encoder10 step" where
  "write_slice10 wr sl e s =
     bindS (enc10_startSlice (fst sl) e s) (\<lambda>e1 s1. bindS (each (write_member10 wr) (snd sl) e1 s1) enc10_endSlice)"

definition object_write10 :: "('v \<Rightarrow> writer) \<Rightarrow> 'v object \<Rightarrow> encoder10 step" where
  "object_write10 wr v e s =
     bindS (enc10_startInstance ObjectSlice e s) (\<lambda>e1 s1. bindS (each (write_slice10 wr) v e1 s1) enc10_endInstance)"

text \<open>
  One of the pending instances: its index, and the instance. \<^verbatim>\<open>ice_preMarshal\<close>, which is called in between, is taken not to change the graph; what it
  throws is caught.
\<close>

definition write_pending :: "('v \<Rightarrow> writer) \<Rightarrow> (nat \<Rightarrow> 'v object) \<Rightarrow> nat \<times> int \<Rightarrow> encoder10 step" where
  "write_pending wr heap p e s =
     bindS (on_stream (writeInt (of_int (snd p))) e s) (object_write10 wr (heap (fst p)))"

text \<open>\<^verbatim>\<open>map::insert\<close> of a range.\<close>

definition insert_range :: "('k :: linorder \<times> 'v) list \<Rightarrow> ('k \<times> 'v) list \<Rightarrow> ('k \<times> 'v) list" where
  "insert_range xs m = fold (\<lambda>(k, v) m. if smap_find m k = None then smap_put k v m else m) xs m"

partial_function (option) pending_loop :: "('v \<Rightarrow> writer) \<Rightarrow> (nat \<Rightarrow> 'v object) \<Rightarrow> encoder10 \<Rightarrow> stream \<Rightarrow>
    (stream_error + encoder10 \<times> stream) option" where
  "pending_loop wr heap e s =
     (if toBeMarshaledMap e = [] then Some (Inr (e, s))
      else
        (let savedMap = toBeMarshaledMap e;
             e1 = e\<lparr>marshaledMap := insert_range savedMap (marshaledMap e), toBeMarshaledMap := []\<rparr>
         in case bindS (on_stream (writeSize (of_nat (length savedMap))) e1 s) (each (write_pending wr heap) savedMap) of
              Inl err \<Rightarrow> Some (Inl err)
            | Inr (e2, s2) \<Rightarrow> pending_loop wr heap e2 s2))"

definition enc10_writePendingObjects :: "('v \<Rightarrow> writer) \<Rightarrow> (nat \<Rightarrow> 'v object) \<Rightarrow> encoder10 \<Rightarrow> stream \<Rightarrow>
    (stream_error + encoder10 \<times> stream) option" where
  "enc10_writePendingObjects wr heap e s =
     map_option (\<lambda>r. bindS r (on_stream (writeSize 0))) (pending_loop wr heap e s)"

section \<open>Decoding\<close>

record 'v decoder10 = "'v decoder" +
  d_sliceType :: slice_type
  skipFirstSlice :: bool
  sliceSize :: int
  typeId :: string

definition decoder10_new :: "'v decoder10" where
  "decoder10_new = decoder.extend decoder_new \<lparr>d_sliceType = NoSlice, skipFirstSlice = False, sliceSize = 0, typeId = []\<rparr>"

text \<open>Reading a handle; the smallest integer has no negation in an \<^verbatim>\<open>int\<close>.\<close>

definition dec10_read :: "location \<Rightarrow> 'v decoder10 step" where
  "dec10_read addr d s =
     bindS (readInt s) (\<lambda>v s1.
     let index = - sint v
     in if index < 0 then Inl (MarshalError ''invalid object id'')
        else if \<not> int_ok index then Inl CxxUndefined
        else if index = 0 then Inr (patch addr None d, s1)
        else bindE (addPatchEntry index addr d) (\<lambda>d1. Inr (d1, s1)))"

definition dec10_startInstance :: "slice_type \<Rightarrow> 'v decoder10 step" where
  "dec10_startInstance st d s = (if d_sliceType d \<noteq> st then Inl AssertFailed else Inr (d\<lparr>skipFirstSlice := True\<rparr>, s))"

definition dec10_startSlice :: "'v decoder10 step" where
  "dec10_startSlice d s =
     (if skipFirstSlice d then Inr (d\<lparr>skipFirstSlice := False\<rparr>, s)
      else
        bindS (if d_sliceType d = ObjectSlice then
                 bindS (readBool s) (\<lambda>isIndex s1.
                 bindS (readTypeId isIndex d s1) (\<lambda>t x. Inr ((fst x)\<lparr>typeId := t\<rparr>, snd x)))
               else bindS (readString False s) (\<lambda>t s1. Inr (d\<lparr>typeId := t\<rparr>, s1))) (\<lambda>d1 s1.
        bindS (readInt s1) (\<lambda>sz s2.
        if sint sz < 4 then Inl UnmarshalOutOfBounds else Inr (d1\<lparr>sliceSize := sint sz\<rparr>, s2))))"

definition dec10_endSlice :: "'v decoder10 step" where
  "dec10_endSlice d s = Inr (d, s)"

definition dec10_skipSlice :: "'v decoder10 step" where
  "dec10_skipSlice d s = (if sliceSize d < 4 then Inl AssertFailed else on_stream (skip (sliceSize d - 4)) d s)"

definition dec10_endInstance :: "'v decoder10 step" where
  "dec10_endInstance d s =
     bindS (if d_sliceType d = ObjectSlice then
              bindS (dec10_startSlice d s) (\<lambda>d1 s1.
              bindS (readSize s1) (\<lambda>sz s2.
              if sz \<noteq> 0 then Inl (MarshalError ''invalid Object slice'') else dec10_endSlice d1 s2))
            else Inr (d, s)) (\<lambda>d1 s1. Inr (d1\<lparr>d_sliceType := NoSlice\<rparr>, s1))"

text \<open>
  What generated code does: a plain member of the instance at \<open>a\<close> is read by \<open>rd\<close> and becomes the next value of the current
  slice; a handle is stored at its location.
\<close>

definition put_value :: "nat \<Rightarrow> 'v \<Rightarrow> ('v, 'z) decoder_scheme \<Rightarrow> ('v, 'z) decoder_scheme" where
  "put_value a v d =
     (let (t, vs) = instances d ! a
      in d\<lparr>instances := (instances d)[a := (t, butlast vs @ [last vs @ [v]])]\<rparr>)"

definition new_slice :: "nat \<Rightarrow> ('v, 'z) decoder_scheme \<Rightarrow> ('v, 'z) decoder_scheme" where
  "new_slice a d = (let (t, vs) = instances d ! a in d\<lparr>instances := (instances d)[a := (t, vs @ [[]])]\<rparr>)"

definition read_member10 :: "('t \<Rightarrow> 'v reader) \<Rightarrow> nat \<Rightarrow> nat \<Rightarrow> nat \<times> 't kind \<Rightarrow> 'v decoder10 step" where
  "read_member10 rd a j p d s =
     (case snd p of
        PlainKind t \<Rightarrow> bindS (rd t s) (\<lambda>v s1. Inr (put_value a v d, s1))
      | HandleKind \<Rightarrow> dec10_read (Member a j (fst p)) d s)"

definition read_slice10 :: "('t \<Rightarrow> 'v reader) \<Rightarrow> nat \<Rightarrow> nat \<times> 't kind list \<Rightarrow> 'v decoder10 step" where
  "read_slice10 rd a p d s =
     bindS (dec10_startSlice d s) (\<lambda>d1 s1.
     bindS (each (read_member10 rd a (fst p)) (enumerate 0 (snd p)) (new_slice a d1) s1) dec10_endSlice)"

definition object_read10 :: "('t \<Rightarrow> 'v reader) \<Rightarrow> nat \<Rightarrow> 't layout \<Rightarrow> 'v decoder10 step" where
  "object_read10 rd a layout d s =
     bindS (dec10_startInstance ObjectSlice d s) (\<lambda>d1 s1.
     bindS (each (read_slice10 rd a) (enumerate 0 layout) d1 s1) dec10_endInstance)"

text \<open>The search for a factory: slices that no factory knows are skipped, up to that of \<^verbatim>\<open>::Ice::Object\<close>.\<close>

datatype decode_error = StreamError stream_error | NoObjectFactory string string

partial_function (option) find_layout :: "'t factories \<Rightarrow> bool \<Rightarrow> string \<Rightarrow> 'v decoder10 \<Rightarrow> stream \<Rightarrow>
    (decode_error + 't layout \<times> 'v decoder10 \<times> stream) option" where
  "find_layout f slicing mostDerivedId d s =
     (if typeId d = ice_staticId then Some (Inl (NoObjectFactory [] mostDerivedId))
      else
        (case newInstance f (typeId d) of
           Inl err \<Rightarrow> Some (Inl (StreamError err))
         | Inr (Some layout) \<Rightarrow> Some (Inr (layout, d, s))
         | Inr None \<Rightarrow>
             if \<not> slicing then Some (Inl (NoObjectFactory ''object slicing is disabled'' (typeId d)))
             else
               (case bindS (dec10_skipSlice d s) dec10_startSlice of
                  Inl err \<Rightarrow> Some (Inl (StreamError err))
                | Inr (d1, s1) \<Rightarrow> find_layout f slicing mostDerivedId d1 s1)))"

definition lift_error :: "stream_error + 'a \<Rightarrow> decode_error + 'a" where
  "lift_error r = (case r of Inl err \<Rightarrow> Inl (StreamError err) | Inr x \<Rightarrow> Inr x)"

definition readInstance10 :: "('t \<Rightarrow> 'v reader) \<Rightarrow> 't factories \<Rightarrow> bool \<Rightarrow> 'v decoder10 \<Rightarrow> stream \<Rightarrow>
    (decode_error + 'v decoder10 \<times> stream) option" where
  "readInstance10 rd f slicing d s =
     (case bindS (readInt s) (\<lambda>v s1.
           if sint v \<le> 0 then Inl (MarshalError ''invalid object id'')
           else bindS (dec10_startSlice (d\<lparr>d_sliceType := ObjectSlice, skipFirstSlice := False\<rparr>) s1) (\<lambda>d1 s2. Inr (sint v, d1, s2))) of
        Inl err \<Rightarrow> Some (Inl (StreamError err))
      | Inr (index, d1, s2) \<Rightarrow>
          (case find_layout f slicing (typeId d1) d1 s2 of
             None \<Rightarrow> None
           | Some (Inl err) \<Rightarrow> Some (Inl err)
           | Some (Inr (layout, d2, s3)) \<Rightarrow>
               (let a = length (instances d2);
                    d3 = d2\<lparr>instances := instances d2 @ [(typeId d2, [])]\<rparr>
                in Some (lift_error (unmarshal (object_read10 rd a layout) index a d3 s3)))))"

text \<open>The loops of \<open>readPendingObjects\<close>.\<close>

fun read_instances10 :: "('t \<Rightarrow> 'v reader) \<Rightarrow> 't factories \<Rightarrow> bool \<Rightarrow> nat \<Rightarrow> 'v decoder10 \<Rightarrow> stream \<Rightarrow>
    (decode_error + 'v decoder10 \<times> stream) option" where
  "read_instances10 rd f slicing 0 d s = Some (Inr (d, s))"
| "read_instances10 rd f slicing (Suc k) d s =
     (case readInstance10 rd f slicing d s of
        None \<Rightarrow> None
      | Some (Inl err) \<Rightarrow> Some (Inl err)
      | Some (Inr (d1, s1)) \<Rightarrow> read_instances10 rd f slicing k d1 s1)"

partial_function (option) read_sequences10 :: "('t \<Rightarrow> 'v reader) \<Rightarrow> 't factories \<Rightarrow> bool \<Rightarrow> 'v decoder10 \<Rightarrow> stream \<Rightarrow>
    (decode_error + 'v decoder10 \<times> stream) option" where
  "read_sequences10 rd f slicing d s =
     (case readSize s of
        Inl err \<Rightarrow> Some (Inl (StreamError err))
      | Inr (num, s1) \<Rightarrow>
          (case read_instances10 rd f slicing num d s1 of
             None \<Rightarrow> None
           | Some (Inl err) \<Rightarrow> Some (Inl err)
           | Some (Inr (d2, s2)) \<Rightarrow>
               if num = 0 then Some (Inr (d2, s2)) else read_sequences10 rd f slicing d2 s2))"

definition dec10_readPendingObjects :: "('t \<Rightarrow> 'v reader) \<Rightarrow> 't factories \<Rightarrow> bool \<Rightarrow> 'v decoder10 \<Rightarrow> stream \<Rightarrow>
    (decode_error + 'v decoder10 \<times> stream) option" where
  "dec10_readPendingObjects rd f slicing d s =
     (case read_sequences10 rd f slicing d s of
        Some (Inr (d1, s1)) \<Rightarrow>
          Some (if patchMap d1 \<noteq> [] then Inl (StreamError (MarshalError ''index for class received, but no instance'')) else Inr (d1, s1))
      | r \<Rightarrow> r)"

end
