(* ===== verification/ClassGraph10.thy ===== *)
theory ClassGraph10
  imports StreamClass10 "HOL-Library.Sublist"
begin

text \<open>
  Graphs of class instances survive the 1.0 encoding: what \<^verbatim>\<open>EncapsEncoder10\<close> writes for a set of handles is read back by
  \<^verbatim>\<open>EncapsDecoder10\<close> as an isomorphic graph, with sharing and cycles.
\<close>

section \<open>Tables in order of registration\<close>

text \<open>The position of an element, and adding an element that is not there yet.\<close>

definition idx :: "'a list \<Rightarrow> 'a \<Rightarrow> nat" where
  "idx xs x = length (takeWhile (\<lambda>y. y \<noteq> x) xs)"

definition add_new :: "'a \<Rightarrow> 'a list \<Rightarrow> 'a list" where
  "add_new x xs = (if x \<in> set xs then xs else xs @ [x])"

lemma idx_less: "x \<in> set xs \<Longrightarrow> idx xs x < length xs \<and> xs ! idx xs x = x"
  unfolding idx_def by (induction xs) auto

lemma idx_append: "idx (xs @ ys) x = (if x \<in> set xs then idx xs x else length xs + idx ys x)"
  unfolding idx_def by (induction xs) auto

lemma idx_single [simp]: "idx [x] x = 0"
  by (simp add: idx_def)

lemma idx_nth: "distinct xs \<Longrightarrow> k < length xs \<Longrightarrow> idx xs (xs ! k) = k"
  using idx_less [of "xs ! k" xs] by (metis nth_eq_iff_index_eq nth_mem)

lemma idx_eq: "x \<in> set xs \<Longrightarrow> idx xs x = idx xs y \<Longrightarrow> y \<in> set xs \<Longrightarrow> x = y"
  by (metis idx_less)

lemma idx_prefix: "prefix xs ys \<Longrightarrow> x \<in> set xs \<Longrightarrow> idx ys x = idx xs x"
  by (auto simp: prefix_def idx_append)

lemma add_new_set [simp]: "set (add_new x xs) = insert x (set xs)"
  by (auto simp: add_new_def)

lemma add_new_distinct: "distinct xs \<Longrightarrow> distinct (add_new x xs)"
  by (auto simp: add_new_def)

lemma add_new_prefix: "prefix xs (add_new x xs)"
  by (simp add: add_new_def)

lemma fold_add_new:
  "prefix xs (fold add_new ys xs)" "set (fold add_new ys xs) = set xs \<union> set ys" "distinct xs \<Longrightarrow> distinct (fold add_new ys xs)"
proof (induction ys arbitrary: xs)
  case (Cons y ys)
  case 1 then show ?case using Cons(1) add_new_prefix prefix_order.trans by fastforce
  case 2 then show ?case using Cons(2) by simp
  case 3 then show ?case using Cons(3) add_new_distinct by fastforce
qed simp_all

text \<open>A type id on the wire: an index if it has been written before.\<close>

definition type_bytes :: "string list \<Rightarrow> string \<Rightarrow> byte list" where
  "type_bytes ts t = (if t \<in> set ts then 1 # size_bytes (idx ts t + 1) else 0 # string_bytes t)"

definition ids_rel :: "type_ids \<Rightarrow> string list \<Rightarrow> bool" where
  "ids_rel ids ts \<longleftrightarrow> smap_inv (typeIdMap ids) \<and> typeIdIndex ids = int (length ts) \<and>
     (\<forall>t. smap_find (typeIdMap ids) t = (if t \<in> set ts then Some (int (idx ts t) + 1) else None))"

lemma ids_rel_new: "ids_rel type_ids_new []"
  by (simp add: ids_rel_def type_ids_new_def)

lemma registerTypeId_rel:
  assumes "ids_rel ids ts"
  shows "\<exists>ids'. registerTypeId t ids = (if t \<in> set ts then int (idx ts t) + 1 else -1, ids') \<and> ids_rel ids' (add_new t ts)"
  using assms by (auto simp: registerTypeId_def ids_rel_def add_new_def smap_put_inv smap_put_find idx_append)

section \<open>The bytes of instances\<close>

text \<open>
  \<open>os\<close> is the list of all instances in the order of their indices. Handles are written against it, so they do not
  depend on when they are written; type ids depend on those written before.
\<close>

definition handle_index :: "nat list \<Rightarrow> nat option \<Rightarrow> int" where
  "handle_index os v = (case v of None \<Rightarrow> 0 | Some a \<Rightarrow> int (idx os a) + 1)"

fun handles :: "'v field list \<Rightarrow> nat list" where
  "handles [] = []"
| "handles (Handle (Some a) # ms) = a # handles ms"
| "handles (_ # ms) = handles ms"

lemma handles_Cons: "handles (m # ms) = handles [m] @ handles ms"
proof (cases m)
  case (Handle v)
  then show ?thesis by (cases v) simp_all
qed simp

definition field_bytes :: "('v \<Rightarrow> byte list) \<Rightarrow> nat list \<Rightarrow> 'v field \<Rightarrow> byte list" where
  "field_bytes enc os m =
     (case m of Plain v \<Rightarrow> enc v | Handle v \<Rightarrow> nat_to_le 4 (unat (of_int (- handle_index os v) :: int32)))"

definition sized :: "byte list \<Rightarrow> byte list" where
  "sized bs = nat_to_le 4 (4 + length bs) @ bs"

fun slices_bytes :: "('v \<Rightarrow> byte list) \<Rightarrow> nat list \<Rightarrow> string list \<Rightarrow> 'v object \<Rightarrow> byte list" where
  "slices_bytes enc os ts [] = type_bytes ts ice_staticId @ sized [0]"
| "slices_bytes enc os ts ((t, ms) # sls) =
     type_bytes ts t @ sized (concat (map (field_bytes enc os) ms)) @ slices_bytes enc os (add_new t ts) sls"

definition slices_types :: "'v object \<Rightarrow> string list \<Rightarrow> string list" where
  "slices_types obj ts = fold add_new (map fst obj @ [ice_staticId]) ts"

definition object_handles :: "'v object \<Rightarrow> nat list" where
  "object_handles obj = concat (map (\<lambda>sl. handles (snd sl)) obj)"

section \<open>The encoder writes these bytes\<close>

definition encodes :: "encoder10 \<Rightarrow> string list \<Rightarrow> nat list \<Rightarrow> nat \<Rightarrow> bool" where
  "encodes e ts os m \<longleftrightarrow> ids_rel (typeIds e) ts \<and> smap_inv (toBeMarshaledMap e) \<and> smap_inv (marshaledMap e) \<and> distinct os \<and>
     m \<le> length os \<and> objectIdIndex e = int (length os) \<and>
     (\<forall>a. smap_find (toBeMarshaledMap e) a = (if a \<in> set (drop m os) then Some (int (idx os a) + 1) else None)) \<and>
     (\<forall>a. smap_find (marshaledMap e) a = (if a \<in> set (take m os) then Some (int (idx os a) + 1) else None))"

lemma encodes_new: "encodes encoder10_new [] [] 0"
  by (simp add: encodes_def encoder10_new_def ids_rel_new)

lemma registerObject_encodes:
  assumes "encodes e ts os m"
  shows "\<exists>e'. registerObject a e = (int (idx (add_new a os) a) + 1, e') \<and> encodes e' ts (add_new a os) m \<and>
    sliceType e' = sliceType e \<and> writeSlice e' = writeSlice e"
proof -
  have mem: "a \<in> set os \<longleftrightarrow> a \<in> set (take m os) \<or> a \<in> set (drop m os)" by (metis Un_iff append_take_drop_id set_append)
  have e: "smap_inv (toBeMarshaledMap e)" "m \<le> length os" "objectIdIndex e = int (length os)"
    "smap_find (toBeMarshaledMap e) a = (if a \<in> set (drop m os) then Some (int (idx os a) + 1) else None)"
    "smap_find (marshaledMap e) a = (if a \<in> set (take m os) then Some (int (idx os a) + 1) else None)"
    using assms by (auto simp: encodes_def)
  show ?thesis
  proof (cases "a \<in> set os")
    case True
    then show ?thesis using assms e mem by (auto simp: registerObject_def add_new_def)
  next
    case False
    then have "registerObject a e = (int (length os) + 1, e\<lparr>objectIdIndex := int (length os) + 1,
        toBeMarshaledMap := smap_put a (int (length os) + 1) (toBeMarshaledMap e)\<rparr>)"
      using e mem by (simp add: registerObject_def)
    moreover have "idx (os @ [a]) a = length os" using False by (simp add: idx_append)
    moreover have "idx (os @ [a]) x = idx os x" if "x \<in> set (drop m os) \<or> x \<in> set (take m os)" for x
      using that by (auto simp: idx_append dest: in_set_dropD in_set_takeD)
    ultimately show ?thesis using assms False e(2)
      by (auto simp: encodes_def add_new_def smap_put_inv smap_put_find)
  qed
qed

text \<open>With the stream: every registered instance and type id has taken a byte of it, so indices stay in range.\<close>

definition encodes_at :: "encoder10 \<Rightarrow> stream \<Rightarrow> string list \<Rightarrow> nat list \<Rightarrow> nat \<Rightarrow> bool" where
  "encodes_at e s ts os m \<longleftrightarrow> encodes e ts os m \<and> length ts \<le> length (b s) \<and> length os \<le> length (b s) \<and> stringConverter s = None"

abbreviation fits :: "byte list \<Rightarrow> stream \<Rightarrow> bool" where
  "fits bs s \<equiv> room (length bs) s \<and> length (b s) + length bs < 2 ^ 31"

lemma length_add_new: "length (add_new x xs) \<le> Suc (length xs)"
  by (simp add: add_new_def)

lemma type_bytes_nonempty: "0 < length (type_bytes ts t)"
  by (simp add: type_bytes_def)

lemma startSlice_bytes:
  assumes e: "encodes_at e s ts os m" "sliceType e = ObjectSlice" and fits: "fits (type_bytes ts t @ nat_to_le 4 0) s"
  shows "\<exists>e'. enc10_startSlice t e s = Inr (e', s\<lparr>b := b s @ type_bytes ts t @ nat_to_le 4 0\<rparr>) \<and>
    encodes e' (add_new t ts) os m \<and> sliceType e' = ObjectSlice \<and> writeSlice e' = length (b s) + length (type_bytes ts t) + 4"
proof -
  obtain ids' where ids: "registerTypeId t (typeIds e) = (if t \<in> set ts then int (idx ts t) + 1 else -1, ids')" "ids_rel ids' (add_new t ts)"
    using registerTypeId_rel e(1) by (fastforce simp: encodes_at_def encodes_def)
  let ?e = "e\<lparr>typeIds := ids'\<rparr>" and ?s = "s\<lparr>b := b s @ type_bytes ts t\<rparr>"
  have 1: "(if sliceType e = ObjectSlice then
              (let (index, t') = registerTypeId t (typeIds e); e1 = e\<lparr>typeIds := t'\<rparr>
               in if index < 0 then bindE (writeBool False s) (on_stream (writeString False t) e1)
                  else bindE (writeBool True s) (on_stream (writeSize (of_int index)) e1))
            else on_stream (writeString False t) e s) = Inr (?e, ?s)"
  proof (cases "t \<in> set ts")
    case True
    then have "idx ts t + 1 < 2 ^ 31" using idx_less [OF True] e(1) fits by (auto simp: encodes_at_def type_bytes_def)
    then have "writeSize (of_nat (idx ts t + 1)) (s\<lparr>b := b s @ [1]\<rparr>) = Inr ?s"
      using writeSize_eq [of "idx ts t + 1" "s\<lparr>b := b s @ [1]\<rparr>"] fits True by (auto simp: type_bytes_def)
    moreover have "of_int (int (idx ts t) + 1) = (of_nat (idx ts t + 1) :: int32)" by simp
    ultimately show ?thesis using True ids(1) e(2) by (simp add: writeBool_def on_stream_def add.commute)
  next
    case False
    then have "length t < 2 ^ 31" using fits by (simp add: type_bytes_def string_bytes_def)
    then have "writeString False t (s\<lparr>b := b s @ [0]\<rparr>) = Inr ?s"
      using writeString_plain [of t "s\<lparr>b := b s @ [0]\<rparr>" False] fits False e(1) by (auto simp: type_bytes_def encodes_at_def)
    then show ?thesis using False ids(1) e(2) by (simp add: writeBool_def on_stream_def)
  qed
  have 2: "writeInt 0 ?s = Inr (s\<lparr>b := b s @ type_bytes ts t @ nat_to_le 4 0\<rparr>)"
    using fits by (auto simp: write_num_eq)
  have "encodes (?e\<lparr>writeSlice := n\<rparr>) (add_new t ts) os m" for n using e(1) ids(2) by (simp add: encodes_at_def encodes_def)
  then show ?thesis using e(2) unfolding enc10_startSlice_def 1 by (simp add: 2)
qed

lemma endSlice_bytes:
  assumes "writeSlice e = length pre + 4" "b s = pre @ nat_to_le 4 0 @ body" "length body + 4 < 2 ^ 31"
  shows "enc10_endSlice e s = Inr (e, s\<lparr>b := pre @ sized body\<rparr>)"
proof -
  have "length (b s) - writeSlice e + 4 = 4 + length body" using assms(1,2) by simp
  moreover have "memcpy_at (pre @ nat_to_le 4 0 @ body) (length pre) (nat_to_le 4 (4 + length body)) = pre @ sized body"
    unfolding sized_def by (rule memcpy_at_middle) simp_all
  moreover have "unat (of_nat (4 + length body) :: int32) = 4 + length body" using assms(3) by (intro unat_of_nat32) simp
  ultimately show ?thesis using assms(1,2) by (simp add: enc10_endSlice_def on_stream_def writeInt_at_def store_def add.commute)
qed

lemma endInstance_bytes:
  assumes e: "encodes_at e s ts os m" "sliceType e = ObjectSlice" and fits: "fits (type_bytes ts ice_staticId @ sized [0]) s"
  shows "\<exists>e'. enc10_endInstance e s = Inr (e', s\<lparr>b := b s @ type_bytes ts ice_staticId @ sized [0]\<rparr>) \<and>
    encodes e' (add_new ice_staticId ts) os m"
proof -
  let ?s = "s\<lparr>b := b s @ type_bytes ts ice_staticId @ nat_to_le 4 0\<rparr>"
  have "fits (type_bytes ts ice_staticId @ nat_to_le 4 0) s" using fits by (auto simp: sized_def)
  from startSlice_bytes [OF e this] obtain e1 where e1: "enc10_startSlice ice_staticId e s = Inr (e1, ?s)"
    "encodes e1 (add_new ice_staticId ts) os m" "writeSlice e1 = length (b s) + length (type_bytes ts ice_staticId) + 4"
    by blast
  have w: "writeSize 0 ?s = Inr (?s\<lparr>b := b ?s @ [0]\<rparr>)" by (simp add: writeSize_def writeByte_def)
  have "enc10_endSlice e1 (?s\<lparr>b := b ?s @ [0]\<rparr>) = Inr (e1, s\<lparr>b := b s @ type_bytes ts ice_staticId @ sized [0]\<rparr>)"
    using endSlice_bytes [of e1 "b s @ type_bytes ts ice_staticId" "?s\<lparr>b := b ?s @ [0]\<rparr>" "[0]"] e1(3) by simp
  then show ?thesis using e(2) e1 w by (simp add: enc10_endInstance_def on_stream_def) (simp add: encodes_def)
qed

text \<open>Instances whose plain members are values their types can hold.\<close>

definition field_ok :: "('v \<Rightarrow> bool) \<Rightarrow> 'v field \<Rightarrow> bool" where
  "field_ok ok m = (case m of Plain v \<Rightarrow> ok v | Handle v \<Rightarrow> True)"

definition object_ok :: "('v \<Rightarrow> bool) \<Rightarrow> 'v object \<Rightarrow> bool" where
  "object_ok ok obj \<longleftrightarrow> list_all (\<lambda>sl. list_all (field_ok ok) (snd sl)) obj"

locale plain_types =
  fixes ok :: "'v \<Rightarrow> bool" and kind :: "'v \<Rightarrow> 't" and wr :: "'v \<Rightarrow> writer" and rd :: "'t \<Rightarrow> 'v reader"
    and enc :: "'v \<Rightarrow> byte list" and mw :: "'t \<Rightarrow> nat"
  assumes plain_codec: "codec (\<lambda>v. ok v \<and> kind v = t) wr (rd t) enc (mw t)"
begin

lemma write_field_bytes:
  assumes e: "encodes_at e s ts os m" and mb: "field_ok ok mb" and pre: "prefix (fold add_new (handles [mb]) os) OS"
    and fits: "fits (field_bytes enc OS mb) s"
  shows "\<exists>e'. write_member10 wr mb e s = Inr (e', s\<lparr>b := b s @ field_bytes enc OS mb\<rparr>) \<and>
    encodes_at e' (s\<lparr>b := b s @ field_bytes enc OS mb\<rparr>) ts (fold add_new (handles [mb]) os) m \<and>
    sliceType e' = sliceType e \<and> writeSlice e' = writeSlice e"
proof (cases mb)
  case (Plain v)
  have "wr v s = Inr (s\<lparr>b := b s @ enc v\<rparr>)"
    using codec.wr_enc [OF plain_codec, of v "kind v" s] mb e fits Plain by (simp add: field_ok_def encodes_at_def field_bytes_def)
  then show ?thesis using Plain e by (simp add: write_member10_def on_stream_def field_bytes_def encodes_at_def)
next
  case (Handle v)
  show ?thesis
  proof (cases v)
    case None
    have "writeInt 0 s = Inr (s\<lparr>b := b s @ field_bytes enc OS mb\<rparr>)"
      using fits Handle None by (auto simp: write_num_eq field_bytes_def handle_index_def)
    then show ?thesis using Handle None e
      by (simp add: write_member10_def enc10_write_def on_stream_def encodes_at_def)
  next
    case (Some a)
    obtain e' where e': "registerObject a e = (int (idx (add_new a os) a) + 1, e')" "encodes e' ts (add_new a os) m"
      "sliceType e' = sliceType e" "writeSlice e' = writeSlice e"
      using registerObject_encodes e by (fastforce simp: encodes_at_def)
    have "idx OS a = idx (add_new a os) a" using idx_prefix [of "add_new a os" OS a] pre Handle Some by simp
    then have "writeInt (of_int (- (int (idx (add_new a os) a) + 1))) s = Inr (s\<lparr>b := b s @ field_bytes enc OS mb\<rparr>)"
      using fits Handle Some by (auto simp: write_num_eq field_bytes_def handle_index_def)
    moreover have "length (add_new a os) \<le> length (b s @ field_bytes enc OS mb)"
      using e length_add_new [of a os] Handle by (simp add: encodes_at_def field_bytes_def)
    ultimately show ?thesis using Handle Some e e' 
      by (simp add: write_member10_def enc10_write_def on_stream_def encodes_at_def)
  qed
qed

lemma write_fields_bytes:
  "encodes_at e s ts os m \<Longrightarrow> list_all (field_ok ok) ms \<Longrightarrow> prefix (fold add_new (handles ms) os) OS \<Longrightarrow>
   fits (concat (map (field_bytes enc OS) ms)) s \<Longrightarrow>
   \<exists>e'. each (write_member10 wr) ms e s = Inr (e', s\<lparr>b := b s @ concat (map (field_bytes enc OS) ms)\<rparr>) \<and>
     encodes_at e' (s\<lparr>b := b s @ concat (map (field_bytes enc OS) ms)\<rparr>) ts (fold add_new (handles ms) os) m \<and>
     sliceType e' = sliceType e \<and> writeSlice e' = writeSlice e"
proof (induction ms arbitrary: e s os)
  case (Cons mb ms)
  note h = handles_Cons [of mb ms]
  let ?os = "fold add_new (handles [mb]) os" and ?s = "s\<lparr>b := b s @ field_bytes enc OS mb\<rparr>"
  have pre: "prefix ?os OS" using Cons.prems(3) fold_add_new(1) [of ?os "handles ms"] h prefix_order.trans by fastforce
  have "fits (field_bytes enc OS mb) s" using Cons.prems(4) by auto
  from write_field_bytes [OF Cons.prems(1) _ pre this] Cons.prems(2) obtain e1 where
    1: "write_member10 wr mb e s = Inr (e1, ?s)" "encodes_at e1 ?s ts ?os m" "sliceType e1 = sliceType e" "writeSlice e1 = writeSlice e"
    by auto
  from Cons.IH [OF 1(2)] Cons.prems h obtain e2 where
    "each (write_member10 wr) ms e1 ?s = Inr (e2, ?s\<lparr>b := b ?s @ concat (map (field_bytes enc OS) ms)\<rparr>)"
    "encodes_at e2 (?s\<lparr>b := b ?s @ concat (map (field_bytes enc OS) ms)\<rparr>) ts (fold add_new (handles ms) ?os) m"
    "sliceType e2 = sliceType e1" "writeSlice e2 = writeSlice e1" by auto
  then show ?case using 1 h by simp
qed simp

lemma write_slice_bytes:
  assumes e: "encodes_at e s ts os m" "sliceType e = ObjectSlice" and ms: "list_all (field_ok ok) ms" "prefix (fold add_new (handles ms) os) OS"
    and fits: "fits (type_bytes ts t @ sized (concat (map (field_bytes enc OS) ms))) s"
  shows "\<exists>e'. write_slice10 wr (t, ms) e s = Inr (e', s\<lparr>b := b s @ type_bytes ts t @ sized (concat (map (field_bytes enc OS) ms))\<rparr>) \<and>
    encodes_at e' (s\<lparr>b := b s @ type_bytes ts t @ sized (concat (map (field_bytes enc OS) ms))\<rparr>) (add_new t ts) (fold add_new (handles ms) os) m \<and>
    sliceType e' = ObjectSlice"
proof -
  let ?body = "concat (map (field_bytes enc OS) ms)" and ?s = "s\<lparr>b := b s @ type_bytes ts t @ nat_to_le 4 0\<rparr>"
  have "fits (type_bytes ts t @ nat_to_le 4 0) s" using fits by (auto simp: sized_def)
  from startSlice_bytes [OF e this] obtain e1 where e1: "enc10_startSlice t e s = Inr (e1, ?s)" "encodes e1 (add_new t ts) os m"
    "sliceType e1 = ObjectSlice" "writeSlice e1 = length (b s) + length (type_bytes ts t) + 4" by blast
  have at: "encodes_at e1 ?s (add_new t ts) os m"
    using e1(2) e(1) length_add_new [of t ts] by (simp add: encodes_at_def)
  have room: "fits ?body ?s" using fits by (auto simp: sized_def)
  from write_fields_bytes [OF at ms room] obtain e2 where e2: "each (write_member10 wr) ms e1 ?s = Inr (e2, ?s\<lparr>b := b ?s @ ?body\<rparr>)"
    "encodes_at e2 (?s\<lparr>b := b ?s @ ?body\<rparr>) (add_new t ts) (fold add_new (handles ms) os) m" "sliceType e2 = ObjectSlice" "writeSlice e2 = writeSlice e1"
    using e1(3) by auto
  have "enc10_endSlice e2 (?s\<lparr>b := b ?s @ ?body\<rparr>) = Inr (e2, s\<lparr>b := b s @ type_bytes ts t @ sized ?body\<rparr>)"
    using endSlice_bytes [of e2 "b s @ type_bytes ts t" "?s\<lparr>b := b ?s @ ?body\<rparr>" ?body] e1(4) e2(4) fits by (simp add: sized_def)
  then show ?thesis using e1 e2 by (simp add: write_slice10_def encodes_at_def sized_def)
qed

lemma write_slices_bytes:
  "encodes_at e s ts os m \<Longrightarrow> sliceType e = ObjectSlice \<Longrightarrow> object_ok ok obj \<Longrightarrow> prefix (fold add_new (object_handles obj) os) OS \<Longrightarrow>
   fits (slices_bytes enc OS ts obj) s \<Longrightarrow>
   \<exists>e'. bindS (each (write_slice10 wr) obj e s) enc10_endInstance = Inr (e', s\<lparr>b := b s @ slices_bytes enc OS ts obj\<rparr>) \<and>
     encodes_at e' (s\<lparr>b := b s @ slices_bytes enc OS ts obj\<rparr>) (slices_types obj ts) (fold add_new (object_handles obj) os) m"
proof (induction obj arbitrary: e s ts os)
  case Nil
  then obtain e' where e': "enc10_endInstance e s = Inr (e', s\<lparr>b := b s @ type_bytes ts ice_staticId @ sized [0]\<rparr>)"
    "encodes e' (add_new ice_staticId ts) os m"
    using endInstance_bytes by fastforce
  then show ?case using Nil(1) length_add_new [of ice_staticId ts] 
    by (simp add: slices_types_def object_handles_def encodes_at_def sized_def)
next
  case (Cons sl obj)
  obtain t ms where sl: "sl = (t, ms)" by force
  let ?here = "type_bytes ts t @ sized (concat (map (field_bytes enc OS) ms))" and ?os = "fold add_new (handles ms) os"
  let ?s = "s\<lparr>b := b s @ ?here\<rparr>"
  have h: "fold add_new (object_handles (sl # obj)) os = fold add_new (object_handles obj) ?os" by (simp add: object_handles_def sl)
  have "prefix ?os OS" using Cons.prems(4) fold_add_new(1) [of ?os "object_handles obj"] h prefix_order.trans by fastforce
  moreover have "fits ?here s" "list_all (field_ok ok) ms" using Cons.prems(3,5) by (auto simp: sl object_ok_def)
  ultimately obtain e1 where e1: "write_slice10 wr (t, ms) e s = Inr (e1, ?s)" "encodes_at e1 ?s (add_new t ts) ?os m" "sliceType e1 = ObjectSlice"
    using write_slice_bytes [OF Cons.prems(1,2)] by blast
  have "object_ok ok obj" "prefix (fold add_new (object_handles obj) ?os) OS" "fits (slices_bytes enc OS (add_new t ts) obj) ?s"
    using Cons.prems(3-5) h by (auto simp: sl object_ok_def)
  from Cons.IH [OF e1(2,3) this] show ?case using e1(1) h by (simp add: sl slices_types_def)
qed

lemma object_write_bytes:
  assumes "encodes_at e s ts os m" "object_ok ok obj" "prefix (fold add_new (object_handles obj) os) OS" "fits (slices_bytes enc OS ts obj) s"
  shows "\<exists>e'. object_write10 wr obj e s = Inr (e', s\<lparr>b := b s @ slices_bytes enc OS ts obj\<rparr>) \<and>
    encodes_at e' (s\<lparr>b := b s @ slices_bytes enc OS ts obj\<rparr>) (slices_types obj ts) (fold add_new (object_handles obj) os) m"
proof -
  have "encodes_at (e\<lparr>sliceType := ObjectSlice\<rparr>) s ts os m" using assms(1) by (simp add: encodes_at_def encodes_def)
  from write_slices_bytes [OF this _ assms(2-4)] show ?thesis by (simp add: object_write10_def enc10_startInstance_def)
qed

end

section \<open>Sequences of pending instances\<close>

text \<open>
  The sequences that are written when the instances \<open>os\<close> are registered and the first \<open>m\<close> of them are done: a sequence has all
  that are registered but not done, in the order of their addresses, and what they refer to is registered meanwhile. At
  the end \<open>OS\<close> is the list of all instances.
\<close>

inductive sequences :: "(nat \<Rightarrow> 'v object) \<Rightarrow> nat list \<Rightarrow> nat \<Rightarrow> nat list list \<Rightarrow> nat list \<Rightarrow> bool" for heap where
  seq_end: "sequences heap os (length os) [] os"
| seq_more: "m < length os \<Longrightarrow> r = sort (drop m os) \<Longrightarrow>
    sequences heap (fold add_new (concat (map (\<lambda>a. object_handles (heap a)) r)) os) (length os) rs OS \<Longrightarrow> sequences heap os m (r # rs) OS"

inductive_simps sequences_steps: "sequences heap os m [] OS" "sequences heap os m (r # rs) OS"

text \<open>With finitely many instances there is an end.\<close>

lemma sequences_exist:
  assumes A: "finite A" "\<And>a. a \<in> A \<Longrightarrow> set (object_handles (heap a)) \<subseteq> A"
  shows "set os \<subseteq> A \<Longrightarrow> distinct os \<Longrightarrow> m \<le> length os \<Longrightarrow> \<exists>rs OS. sequences heap os m rs OS"
proof (induction "card A - m" arbitrary: os m rule: less_induct)
  case less
  show ?case
  proof (cases "m = length os")
    case True
    then show ?thesis using sequences.seq_end by blast
  next
    case False
    let ?os = "fold add_new (concat (map (\<lambda>a. object_handles (heap a)) (sort (drop m os)))) os"
    have "length os \<le> card A" using less.prems(1,2) A(1) by (metis card_mono distinct_card)
    then have "card A - length os < card A - m" using False less.prems(3) by simp
    moreover have "set ?os \<subseteq> A" using A(2) less.prems(1) by (fastforce simp: fold_add_new dest: in_set_dropD)
    moreover have "length os \<le> length ?os" using fold_add_new(1) prefix_length_le by blast
    ultimately obtain rs OS where "sequences heap ?os (length os) rs OS"
      using less.hyps less.prems(2) fold_add_new(3) by blast
    then show ?thesis using sequences.seq_more [of m os] False less.prems(3) by fastforce
  qed
qed

lemma pending_nonempty: "m < length os \<Longrightarrow> sort (drop m os) \<noteq> []"
  by (metis drop_eq_Nil linorder_not_less set_empty2 set_sort)

lemma sequences_props:
  assumes "sequences heap os m rs OS" "distinct os"
  shows "prefix os OS \<and> distinct OS \<and> set (concat rs) = set (drop m OS) \<and> distinct (concat rs) \<and> [] \<notin> set rs \<and>
    (\<forall>a \<in> set (concat rs). set (object_handles (heap a)) \<subseteq> set OS)"
  using assms
proof (induction rule: sequences.induct)
  case (seq_more m os r rs OS)
  let ?os = "fold add_new (concat (map (\<lambda>a. object_handles (heap a)) r)) os"
  have ih: "prefix ?os OS" "distinct OS" "set (concat rs) = set (drop (length os) OS)" "distinct (concat rs)" "[] \<notin> set rs"
    "\<forall>a \<in> set (concat rs). set (object_handles (heap a)) \<subseteq> set OS"
    using seq_more.IH [OF fold_add_new(3) [OF seq_more.prems]] by (simp_all del: set_concat)
  have pre: "prefix os OS" using fold_add_new(1) ih(1) prefix_order.trans by blast
  then obtain ys where OS: "OS = os @ ys" by (auto simp: prefix_def)
  have "drop m OS = drop m os @ ys" using OS seq_more.hyps(1) by simp
  moreover have "set (concat rs) = set ys" using ih(3) OS by simp
  moreover have "set r = set (drop m os)" "distinct r" "r \<noteq> []"
    using seq_more.hyps(1,2) seq_more.prems pending_nonempty by simp_all
  moreover have "\<forall>a \<in> set r. set (object_handles (heap a)) \<subseteq> set OS"
    using set_mono_prefix [OF ih(1)] by (auto simp: fold_add_new)
  moreover have "set r \<inter> set ys = {}" using ih(2) OS \<open>set r = set (drop m os)\<close> by (auto dest: in_set_dropD)
  ultimately show ?case using pre ih(2,4-6) by (simp del: set_concat add: ball_Un)
qed simp

fun pending_bytes :: "('v \<Rightarrow> byte list) \<Rightarrow> nat list \<Rightarrow> (nat \<Rightarrow> 'v object) \<Rightarrow> string list \<Rightarrow> nat list \<Rightarrow> byte list" where
  "pending_bytes enc OS heap ts [] = []"
| "pending_bytes enc OS heap ts (a # as) =
     nat_to_le 4 (idx OS a + 1) @ slices_bytes enc OS ts (heap a) @ pending_bytes enc OS heap (slices_types (heap a) ts) as"

definition pending_types :: "(nat \<Rightarrow> 'v object) \<Rightarrow> nat list \<Rightarrow> string list \<Rightarrow> string list" where
  "pending_types heap as ts = fold (\<lambda>a. slices_types (heap a)) as ts"

fun sequences_bytes :: "('v \<Rightarrow> byte list) \<Rightarrow> nat list \<Rightarrow> (nat \<Rightarrow> 'v object) \<Rightarrow> string list \<Rightarrow> nat list list \<Rightarrow> byte list" where
  "sequences_bytes enc OS heap ts [] = []"
| "sequences_bytes enc OS heap ts (r # rs) =
     size_bytes (length r) @ pending_bytes enc OS heap ts r @ sequences_bytes enc OS heap (pending_types heap r ts) rs"

lemma insert_range_find:
  "smap_inv m \<Longrightarrow> distinct (map fst xs) \<Longrightarrow> smap_inv (insert_range xs m) \<and>
   (\<forall>k. smap_find (insert_range xs m) k = (case smap_find m k of Some v \<Rightarrow> Some v | None \<Rightarrow> map_of xs k))"
proof (induction xs arbitrary: m)
  case (Cons x xs)
  obtain k v where x: "x = (k, v)" by force
  let ?m = "if smap_find m k = None then smap_put k v m else m"
  have inv: "smap_inv ?m" using Cons.prems(1) smap_put_inv by auto
  have "insert_range (x # xs) m = insert_range xs ?m" by (simp add: insert_range_def x)
  moreover have "map_of xs k = None" using Cons.prems(2) by (auto simp: x map_of_eq_None_iff)
  ultimately show ?case using Cons.IH [OF inv] Cons.prems by (auto simp: x smap_put_find split: option.splits)
qed (auto simp: insert_range_def split: option.splits)

text \<open>The map of pending instances as a list.\<close>

lemma toBeMarshaled_list:
  assumes "encodes e ts os m"
  shows "toBeMarshaledMap e = map (\<lambda>a. (a, int (idx os a) + 1)) (sort (drop m os))"
proof (rule sorted_alist_unique)
  have d: "distinct (sort (drop m os))" using assms by (simp add: encodes_def)
  show "sorted_wrt (<) (map fst (map (\<lambda>a. (a, int (idx os a) + 1)) (sort (drop m os))))"
    using d by (simp add: o_def strict_sorted_iff)
  show "sorted_wrt (<) (map fst (toBeMarshaledMap e))" using assms by (simp add: encodes_def smap_inv_def)
  have "map_of (map (\<lambda>a. (a, int (idx os a) + 1)) xs) k = (if k \<in> set xs then Some (int (idx os k) + 1) else None)" for xs k
    by (induction xs) auto
  then show "map_of (toBeMarshaledMap e) = map_of (map (\<lambda>a. (a, int (idx os a) + 1)) (sort (drop m os)))"
    using assms by (auto simp: encodes_def fun_eq_iff)
qed

lemma pending_encodes:
  assumes "encodes_at e s ts os m"
  shows "encodes_at (e\<lparr>marshaledMap := insert_range (toBeMarshaledMap e) (marshaledMap e), toBeMarshaledMap := []\<rparr>) s ts os (length os)"
proof -
  have e: "encodes e ts os m" using assms by (simp add: encodes_at_def)
  have m: "set os = set (take m os) \<union> set (drop m os)" by (metis append_take_drop_id set_append)
  have "smap_inv (marshaledMap e)" "distinct (map fst (toBeMarshaledMap e))" using e by (auto simp: encodes_def intro: smap_inv_distinct)
  from insert_range_find [OF this] show ?thesis using assms m
    by (auto simp: encodes_at_def encodes_def)
qed

context plain_types
begin

lemma write_each_pending:
  "encodes_at e s ts os m \<Longrightarrow> (\<And>a. a \<in> set as \<Longrightarrow> object_ok ok (heap a) \<and> a \<in> set os) \<Longrightarrow>
   prefix (fold add_new (concat (map (\<lambda>a. object_handles (heap a)) as)) os) OS \<Longrightarrow> fits (pending_bytes enc OS heap ts as) s \<Longrightarrow>
   \<exists>e'. each (write_pending wr heap) (map (\<lambda>a. (a, int (idx OS a) + 1)) as) e s = Inr (e', s\<lparr>b := b s @ pending_bytes enc OS heap ts as\<rparr>) \<and>
     encodes_at e' (s\<lparr>b := b s @ pending_bytes enc OS heap ts as\<rparr>) (pending_types heap as ts)
       (fold add_new (concat (map (\<lambda>a. object_handles (heap a)) as)) os) m"
proof (induction as arbitrary: e s ts os)
  case Nil
  then show ?case by (simp add: pending_types_def)
next
  case (Cons a as)
  let ?os = "fold add_new (object_handles (heap a)) os" and ?hd = "nat_to_le 4 (idx OS a + 1)" and ?sl = "slices_bytes enc OS ts (heap a)"
  let ?s1 = "s\<lparr>b := b s @ ?hd\<rparr>" and ?ts = "slices_types (heap a) ts"
  let ?s2 = "?s1\<lparr>b := b ?s1 @ ?sl\<rparr>"
  have pre: "prefix (fold add_new (concat (map (\<lambda>a. object_handles (heap a)) as)) ?os) OS" using Cons.prems(3) by simp
  then have pre1: "prefix ?os OS" using fold_add_new(1) prefix_order.trans by blast
  then have pre2: "prefix os OS" using fold_add_new(1) prefix_order.trans by blast
  have "idx OS a < length os" using idx_prefix [OF pre2] idx_less [of a os] Cons.prems(2) by simp
  then have "idx OS a + 1 < 2 ^ 31" using Cons.prems(1,4) by (simp add: encodes_at_def)
  then have "unat (of_int (int (idx OS a) + 1) :: int32) = idx OS a + 1"
    using unat_of_nat32 [of "idx OS a + 1"] by (simp add: add.commute)
  then have w: "writeInt (of_int (int (idx OS a) + 1)) s = Inr ?s1"
    using Cons.prems(4) by (auto simp: write_num_eq)
  have at: "encodes_at e ?s1 ts os m" using Cons.prems(1) by (simp add: encodes_at_def)
  have "fits ?sl ?s1" "object_ok ok (heap a)" using Cons.prems(2,4) by auto
  from object_write_bytes [OF at this(2) pre1 this(1)] obtain e1 where
    e1: "object_write10 wr (heap a) e ?s1 = Inr (e1, ?s2)" "encodes_at e1 ?s2 ?ts ?os m" by blast
  have as: "object_ok ok (heap x) \<and> x \<in> set ?os" if "x \<in> set as" for x using Cons.prems(2) that by (auto simp: fold_add_new)
  have "fits (pending_bytes enc OS heap ?ts as) ?s2" using Cons.prems(4) by auto
  from Cons.IH [OF e1(2) as pre this] show ?case using w e1(1)
    by (simp add: write_pending_def on_stream_def pending_types_def)
qed

lemma pending_loop_bytes:
  "sequences heap os m rs OS \<Longrightarrow> encodes_at e s ts os m \<Longrightarrow> distinct os \<Longrightarrow> (\<And>a. a \<in> set OS \<Longrightarrow> object_ok ok (heap a)) \<Longrightarrow>
   fits (sequences_bytes enc OS heap ts rs) s \<Longrightarrow>
   \<exists>e'. pending_loop wr heap e s = Some (Inr (e', s\<lparr>b := b s @ sequences_bytes enc OS heap ts rs\<rparr>))"
proof (induction arbitrary: e s ts rule: sequences.induct)
  case (seq_end os)
  then have "toBeMarshaledMap e = []" using toBeMarshaled_list [of e ts os "length os"] by (simp add: encodes_at_def)
  then show ?case by (simp add: pending_loop.simps)
next
  case (seq_more m os r rs OS)
  let ?os = "fold add_new (concat (map (\<lambda>a. object_handles (heap a)) r)) os"
  let ?e = "e\<lparr>marshaledMap := insert_range (toBeMarshaledMap e) (marshaledMap e), toBeMarshaledMap := []\<rparr>"
  let ?s1 = "s\<lparr>b := b s @ size_bytes (length r)\<rparr>"
  let ?s2 = "?s1\<lparr>b := b ?s1 @ pending_bytes enc OS heap ts r\<rparr>"
  have d: "distinct ?os" using fold_add_new(3) seq_more.prems(2) .
  have pre: "prefix ?os OS" using sequences_props [OF seq_more.hyps(3) d] by simp
  have pre': "prefix os OS" using fold_add_new(1) pre prefix_order.trans by blast
  have r: "set r \<subseteq> set os" "length r \<le> length os" "r \<noteq> []" using seq_more.hyps(1,2) pending_nonempty by (auto dest: in_set_dropD)
  have "map (\<lambda>a. (a, int (idx os a) + 1)) r = map (\<lambda>a. (a, int (idx OS a) + 1)) r"
    using r(1) idx_prefix [OF pre'] by auto
  then have tm: "toBeMarshaledMap e = map (\<lambda>a. (a, int (idx OS a) + 1)) r"
    using toBeMarshaled_list [of e ts os m] seq_more.prems(1) seq_more.hyps(2) by (simp add: encodes_at_def)
  have "length r < 2 ^ 31" using r(2) seq_more.prems(1,4) by (simp add: encodes_at_def)
  then have w: "writeSize (of_nat (length r)) s = Inr ?s1" using seq_more.prems(4) by (intro writeSize_eq) auto
  have at: "encodes_at ?e ?s1 ts os (length os)" using pending_encodes [OF seq_more.prems(1)] by (simp add: encodes_at_def)
  have ok: "object_ok ok (heap a) \<and> a \<in> set os" if "a \<in> set r" for a
    using that r(1) seq_more.prems(3) set_mono_prefix [OF pre'] by auto
  have "fits (pending_bytes enc OS heap ts r) ?s1" using seq_more.prems(4) by auto
  from write_each_pending [OF at ok pre this] obtain e1 where
    e1: "each (write_pending wr heap) (toBeMarshaledMap e) ?e ?s1 = Inr (e1, ?s2)" "encodes_at e1 ?s2 (pending_types heap r ts) ?os (length os)"
    unfolding tm by blast
  have "fits (sequences_bytes enc OS heap (pending_types heap r ts) rs) ?s2" using seq_more.prems(4) by auto
  from seq_more.IH [OF e1(2) d seq_more.prems(3) this] obtain e2 where
    "pending_loop wr heap e1 ?s2 = Some (Inr (e2, ?s2\<lparr>b := b ?s2 @ sequences_bytes enc OS heap (pending_types heap r ts) rs\<rparr>))" by blast
  moreover have "pending_loop wr heap e s = pending_loop wr heap e1 ?s2"
    using w e1(1) tm r(3) by (subst pending_loop.simps) (simp add: on_stream_def Let_def)
  ultimately show ?case by simp
qed

end

end
