(* ===== verification/ClassDecode10.thy ===== *)
theory ClassDecode10
  imports ClassGraph10 "HOL-Library.Multiset"
begin

text \<open>
  The decoder of the 1.0 encoding on what the encoder has written. The handles that it has stored and those that wait for
  their instance are, together, those it has read: this is what every step keeps, and at the end none waits.
\<close>

section \<open>Type ids\<close>

definition read_ids_rel :: "('v, 'z) decoder_scheme \<Rightarrow> string list \<Rightarrow> bool" where
  "read_ids_rel d ts \<longleftrightarrow> smap_inv (readTypeIds d) \<and> readTypeIdIndex d = int (length ts) \<and>
     (\<forall>z. smap_find (readTypeIds d) z = (if 1 \<le> z \<and> z \<le> int (length ts) then Some (ts ! nat (z - 1)) else None))"

lemma readTypeId_consumes:
  assumes d: "read_ids_rel d ts" and a: "ahead (tl (type_bytes ts t) @ ys) post s" and o: "owes 0 s" and l: "length ts < 2 ^ 31"
  shows "\<exists>ids k s'. readTypeId (t \<in> set ts) d s = Inr (t, d\<lparr>readTypeIds := ids, readTypeIdIndex := k\<rparr>, s') \<and>
    consumed (tl (type_bytes ts t)) s s' \<and> read_ids_rel (d\<lparr>readTypeIds := ids, readTypeIdIndex := k\<rparr>) (add_new t ts)"
proof (cases "t \<in> set ts")
  case True
  note ix = idx_less [OF True]
  have a': "ahead (size_bytes (idx ts t + 1) @ ys) post s" using a True by (simp add: type_bytes_def)
  from size_consumes [OF _ a' o] ix l obtain s' where s': "readSize s = Inr (idx ts t + 1, s')" "consumed (size_bytes (idx ts t + 1)) s s'"
    by auto
  have "smap_find (readTypeIds d) (int (idx ts t + 1)) = Some t" using d ix by (simp add: read_ids_rel_def)
  then have "readTypeId True d s = Inr (t, d, s')" using s' by (simp add: readTypeId_def)
  then have "readTypeId (t \<in> set ts) d s = Inr (t, d\<lparr>readTypeIds := readTypeIds d, readTypeIdIndex := readTypeIdIndex d\<rparr>, s')"
    using True by simp
  moreover have "read_ids_rel (d\<lparr>readTypeIds := readTypeIds d, readTypeIdIndex := readTypeIdIndex d\<rparr>) (add_new t ts)"
    using d True by (simp add: add_new_def)
  ultimately show ?thesis using s'(2) True
    by (intro exI [of _ "readTypeIds d"] exI [of _ "readTypeIdIndex d"] exI [of _ s']) (simp add: type_bytes_def)
next
  case False
  have a': "ahead (string_bytes t @ ys) post s" using a False by (simp add: type_bytes_def)
  have "length t < 2 ^ 31" using ahead_length [OF a'] a' by (simp add: ahead_def string_bytes_def)
  from string_consumes [OF this a' o] obtain s' where s': "readString False s = Inr (t, s')" "consumed (string_bytes t) s s'"
    by blast
  let ?k = "int (length ts) + 1" let ?m = "smap_put ?k t (readTypeIds d)"
  have "readTypeId False d s = Inr (t, d\<lparr>readTypeIds := ?m, readTypeIdIndex := ?k\<rparr>, s')"
    using s' d by (simp add: readTypeId_def read_ids_rel_def Let_def)
  moreover have "read_ids_rel (d\<lparr>readTypeIds := ?m, readTypeIdIndex := ?k\<rparr>) (add_new t ts)"
    using d False by (auto simp: read_ids_rel_def add_new_def smap_put_inv smap_put_find nth_append)
  ultimately show ?thesis using s' False by (auto simp: type_bytes_def)
qed

lemma readBool_consumes:
  assumes "ahead (type_bytes ts t @ ys) post s" "owes 0 s"
  shows "\<exists>s'. readBool s = Inr (t \<in> set ts, s') \<and> consumed [hd (type_bytes ts t)] s s' \<and> ahead (tl (type_bytes ts t) @ ys) post s'"
proof -
  have tb: "type_bytes ts t = (if t \<in> set ts then 1 else 0) # tl (type_bytes ts t)" by (simp add: type_bytes_def)
  then have a: "ahead ([if t \<in> set ts then 1 else 0] @ tl (type_bytes ts t) @ ys) post s" using assms(1)
    by (metis append_Cons append_Nil)
  from bool_consumes [of "t \<in> set ts", OF _ assms(2)] a obtain s' where
    s': "readBool s = Inr (t \<in> set ts, s')" "consumed [if t \<in> set ts then 1 else 0] s s'" by fastforce
  have "hd (type_bytes ts t) = (if t \<in> set ts then 1 else 0)" by (simp add: type_bytes_def)
  then show ?thesis using s' ahead_consumed [OF a s'(2)] by auto
qed

text \<open>The start of a slice: its type id is found, whichever way it was written, and its size.\<close>

lemma startSlice_consumes:
  assumes d: "read_ids_rel d ts" "d_sliceType d = ObjectSlice" "\<not> skipFirstSlice d" and l: "length ts < 2 ^ 31"
    and a: "ahead (type_bytes ts t @ sized body @ ys) post s" and o: "owes 0 s"
  shows "\<exists>ids k s'. let d' = d\<lparr>readTypeIds := ids, readTypeIdIndex := k, typeId := t, sliceSize := 4 + int (length body)\<rparr>
    in dec10_startSlice d s = Inr (d', s') \<and> consumed (type_bytes ts t @ nat_to_le 4 (4 + length body)) s s' \<and> read_ids_rel d' (add_new t ts)"
proof -
  from readBool_consumes [OF a o] obtain s1 where s1: "readBool s = Inr (t \<in> set ts, s1)" "consumed [hd (type_bytes ts t)] s s1"
    "ahead (tl (type_bytes ts t) @ sized body @ ys) post s1" by blast
  from readTypeId_consumes [OF d(1) s1(3) consumed_owes [OF s1(2)] l] obtain ids k s2 where
    s2: "readTypeId (t \<in> set ts) d s1 = Inr (t, d\<lparr>readTypeIds := ids, readTypeIdIndex := k\<rparr>, s2)" "consumed (tl (type_bytes ts t)) s1 s2"
    "read_ids_rel (d\<lparr>readTypeIds := ids, readTypeIdIndex := k\<rparr>) (add_new t ts)" by blast
  have a2: "ahead (sized body @ ys) post s2" using ahead_consumed [OF s1(3) s2(2)] .
  then have len: "4 + length body < 2 ^ 31" using ahead_length [OF a2] by (simp add: ahead_def sized_def)
  let ?w = "of_nat (4 + length body) :: int32"
  have w: "unat ?w = 4 + length body" "sint ?w = 4 + int (length body)"
    using unat_of_nat32 [of "4 + length body"] sint_of_nat32 [of "4 + length body"] len by simp_all
  have "ahead (nat_to_le 4 (unat ?w) @ body @ ys) post s2" using a2 w(1) by (simp add: sized_def)
  from int_consumes [OF this consumed_owes [OF s2(2)]] obtain s3 where
    s3: "readInt s2 = Inr (?w, s3)" "consumed (nat_to_le 4 (4 + length body)) s2 s3" using w(1) by auto
  have "type_bytes ts t = [hd (type_bytes ts t)] @ tl (type_bytes ts t)" by (simp add: type_bytes_def)
  then have c: "consumed (type_bytes ts t) s s2" using consumed_trans [OF s1(2) s2(2)] by simp
  have "dec10_startSlice d s = Inr (d\<lparr>readTypeIds := ids, readTypeIdIndex := k, typeId := t, sliceSize := 4 + int (length body)\<rparr>, s3)"
    using d(2,3) s1(1) s2(1) s3(1) w(2) by (simp add: dec10_startSlice_def)
  then show ?thesis using consumed_trans [OF c s3(2)] s2(3)
    by (intro exI [of _ ids] exI [of _ k] exI [of _ s3]) (simp add: read_ids_rel_def)
qed

section \<open>Handles that are stored and handles that wait\<close>

text \<open>
  \<open>OS\<close> are the instances in the order of their indices and \<open>DD\<close> in the order in which they are sent, which is the
  order in which the receiver creates them: its addresses are the positions in \<open>DD\<close>.
\<close>

definition waiting :: "nat list \<Rightarrow> nat list \<Rightarrow> (int \<times> location list) list \<Rightarrow> (location \<times> nat option) list" where
  "waiting OS DD m = concat (map (\<lambda>(z, l). map (\<lambda>loc. (loc, Some (idx DD (OS ! nat (z - 1))))) l) m)"

definition handles_of :: "nat list \<Rightarrow> nat list \<Rightarrow> ('v, 'z) decoder_scheme \<Rightarrow> (location \<times> nat option) multiset" where
  "handles_of OS DD d = mset (patched d) + mset (waiting OS DD (patchMap d))"

definition received_at :: "nat list \<Rightarrow> location \<times> nat option \<Rightarrow> location \<times> nat option" where
  "received_at DD q = (fst q, map_option (idx DD) (snd q))"

lemma waiting_put:
  "smap_inv m \<Longrightarrow> mset (waiting OS DD (smap_put z ((case smap_find m z of None \<Rightarrow> [] | Some l \<Rightarrow> l) @ [loc]) m)) =
     mset (waiting OS DD m) + {#(loc, Some (idx DD (OS ! nat (z - 1))))#}"
proof (induction m)
  case (Cons x m)
  obtain z' l' where x: "x = (z', l')" by force
  show ?case
  proof (cases "z < z'")
    case True
    then have "smap_find (x # m) z = None" using Cons.prems by (auto simp: x smap_inv_Cons map_of_eq_None_iff)
    then show ?thesis using True by (simp add: x waiting_def)
  next
    case False
    then show ?thesis using Cons by (auto simp: x waiting_def smap_inv_Cons)
  qed
qed (simp add: waiting_def)

lemma waiting_erase:
  "smap_inv m \<Longrightarrow> smap_find m z = Some l \<Longrightarrow>
   mset (waiting OS DD m) = mset (map (\<lambda>loc. (loc, Some (idx DD (OS ! nat (z - 1))))) l) + mset (waiting OS DD (smap_erase z m))"
proof (induction m)
  case (Cons x m)
  obtain z' l' where x: "x = (z', l')" by force
  show ?case
  proof (cases "z' = z")
    case True
    then have "filter (\<lambda>(k', v'). k' \<noteq> z) m = m" using Cons.prems(1) by (auto simp: x smap_inv_Cons filter_id_conv)
    then show ?thesis using True Cons.prems by (simp add: x waiting_def smap_erase_def)
  next
    case False
    then show ?thesis using Cons by (simp add: x waiting_def smap_erase_def smap_inv_Cons)
  qed
qed simp

text \<open>
  \<open>n\<close> instances have been created; \<open>X\<close> has the index of the one that is being read, if any. No other instance that has
  been created is waited for.
\<close>

definition decodes :: "nat list \<Rightarrow> nat list \<Rightarrow> nat \<Rightarrow> int set \<Rightarrow> ('v, 'z) decoder_scheme \<Rightarrow> bool" where
  "decodes OS DD n X d \<longleftrightarrow> smap_inv (unmarshaledMap d) \<and> smap_inv (patchMap d) \<and>
     (\<forall>a \<in> set OS. smap_find (unmarshaledMap d) (int (idx OS a) + 1) = (if a \<in> set (take n DD) then Some (idx DD a) else None)) \<and>
     (\<forall>z l. smap_find (patchMap d) z = Some l \<longrightarrow> l \<noteq> [] \<and> (z \<in> X \<or> (\<exists>a \<in> set OS - set (take n DD). z = int (idx OS a) + 1)))"

definition keeps_posted :: "'v decoder10 \<Rightarrow> 'v decoder10 \<Rightarrow> bool" where
  "keeps_posted d d' \<longleftrightarrow> posted d' = posted d \<and> objectList d' = objectList d \<and> (patchMap d' = [] \<longrightarrow> patchMap d = [])"

definition flags :: "'v decoder10 \<Rightarrow> slice_type \<times> bool" where
  "flags d = (d_sliceType d, skipFirstSlice d)"

lemma keeps_posted_trans: "keeps_posted d d' \<Longrightarrow> keeps_posted d' d'' \<Longrightarrow> keeps_posted d d''"
  by (simp add: keeps_posted_def)

lemma decoder_new_decodes: "decodes OS DD 0 {} decoder10_new" "read_ids_rel decoder10_new []" "handles_of OS DD decoder10_new = {#}"
  by (simp_all add: decodes_def read_ids_rel_def handles_of_def waiting_def decoder10_new_def decoder_new_def decoder.defs)

lemma patch_handles_of: "handles_of OS DD (patch loc v d) = add_mset (loc, v) (handles_of OS DD d)"
  by (simp add: handles_of_def patch_def)

lemma smap_put_nonempty: "smap_put k v m \<noteq> []"
  by (induction k v m rule: smap_put.induct) auto

lemma sint_of_int32: "- (2 ^ 31) \<le> z \<Longrightarrow> z < 2 ^ 31 \<Longrightarrow> sint (of_int z :: int32) = z"
  by (simp add: signed_of_int signed_take_bit_int_eq_self)

lemma dec10_read_handle:
  assumes d: "decodes OS DD n X d" and v: "\<And>a. v = Some a \<Longrightarrow> a \<in> set OS" and l: "length OS < 2 ^ 31"
    and a: "ahead (nat_to_le 4 (unat (of_int (- handle_index OS v) :: int32)) @ ys) post s" and o: "owes 0 s"
  shows "\<exists>d' s'. dec10_read loc d s = Inr (d', s') \<and> consumed (nat_to_le 4 (unat (of_int (- handle_index OS v) :: int32))) s s' \<and>
    decodes OS DD n X d' \<and> handles_of OS DD d' = add_mset (received_at DD (loc, v)) (handles_of OS DD d) \<and> keeps_posted d d' \<and>
    flags d' = flags d \<and> instances d' = instances d \<and> (\<forall>ts. read_ids_rel d ts \<longrightarrow> read_ids_rel d' ts)"
proof -
  let ?z = "handle_index OS v"
  have z: "0 \<le> ?z" "?z < 2 ^ 31" using v l idx_less [of "the v" OS] by (auto simp: handle_index_def split: option.splits)
  then have neg: "sint (of_int (- ?z) :: int32) = - ?z" by (intro sint_of_int32) simp_all
  from int_consumes [OF a o] obtain s' where s': "readInt s = Inr (of_int (- ?z), s')"
    "consumed (nat_to_le 4 (unat (of_int (- ?z) :: int32))) s s'" by blast
  have r: "dec10_read loc d s = (if ?z = 0 then Inr (patch loc None d, s') else bindE (addPatchEntry ?z loc d) (\<lambda>d1. Inr (d1, s')))"
    using s'(1) neg z by (simp add: dec10_read_def int_ok_def)
  show ?thesis
  proof (cases v)
    case None
    then have "dec10_read loc d s = Inr (patch loc None d, s')" using r by (simp add: handle_index_def)
    then show ?thesis using s'(2) d None patch_handles_of [of OS DD loc None d]
      by (simp add: decodes_def received_at_def keeps_posted_def flags_def patch_def read_ids_rel_def)
  next
    case (Some x)
    have x: "x \<in> set OS" "?z = int (idx OS x) + 1" using v Some by (simp_all add: handle_index_def)
    have nth: "OS ! nat (?z - 1) = x" using x idx_less [OF x(1)] by simp
    have um: "smap_find (unmarshaledMap d) ?z = (if x \<in> set (take n DD) then Some (idx DD x) else None)"
      using d x by (simp add: decodes_def)
    show ?thesis
    proof (cases "x \<in> set (take n DD)")
      case True
      then have "dec10_read loc d s = Inr (patch loc (Some (idx DD x)) d, s')" using r um x(2) by (simp add: addPatchEntry_def)
      then show ?thesis using s'(2) d Some patch_handles_of [of OS DD loc "Some (idx DD x)" d]
        by (simp add: decodes_def received_at_def keeps_posted_def flags_def patch_def read_ids_rel_def)
    next
      case False
      let ?l = "case smap_find (patchMap d) ?z of None \<Rightarrow> [] | Some l \<Rightarrow> l"
      let ?d = "d\<lparr>patchMap := smap_put ?z (?l @ [loc]) (patchMap d)\<rparr>"
      have pm: "smap_inv (patchMap d)" using d by (simp add: decodes_def)
      have "dec10_read loc d s = Inr (?d, s')" using r um x(2) False by (simp add: addPatchEntry_def)
      moreover have "decodes OS DD n X ?d"
        using d x False by (auto simp: decodes_def smap_put_inv smap_put_find)
      moreover have "handles_of OS DD ?d = add_mset (received_at DD (loc, v)) (handles_of OS DD d)"
        using waiting_put [OF pm, of OS DD ?z loc] nth Some by (simp add: handles_of_def received_at_def)
      ultimately show ?thesis using s'(2) by (auto simp: keeps_posted_def flags_def smap_put_nonempty read_ids_rel_def)
    qed
  qed
qed

section \<open>Members, slices and instances\<close>

definition kind_of :: "('v \<Rightarrow> 't) \<Rightarrow> 'v field \<Rightarrow> 't kind" where
  "kind_of kind m = (case m of Plain v \<Rightarrow> PlainKind (kind v) | Handle v \<Rightarrow> HandleKind)"

definition layout_of :: "('v \<Rightarrow> 't) \<Rightarrow> 'v object \<Rightarrow> 't layout" where
  "layout_of kind obj = map (\<lambda>sl. map (kind_of kind) (snd sl)) obj"

fun plains :: "'v field list \<Rightarrow> 'v list" where
  "plains [] = []"
| "plains (Plain v # ms) = v # plains ms"
| "plains (Handle v # ms) = plains ms"

text \<open>The handles that are read with the instance at address \<open>n\<close>, and where they go.\<close>

fun member_requests :: "nat \<Rightarrow> nat \<Rightarrow> nat \<Rightarrow> 'v field list \<Rightarrow> (location \<times> nat option) list" where
  "member_requests n j p [] = []"
| "member_requests n j p (Plain v # ms) = member_requests n j (Suc p) ms"
| "member_requests n j p (Handle v # ms) = (Member n j p, v) # member_requests n j (Suc p) ms"

fun slice_requests :: "nat \<Rightarrow> nat \<Rightarrow> 'v object \<Rightarrow> (location \<times> nat option) list" where
  "slice_requests n j [] = []"
| "slice_requests n j (sl # sls) = member_requests n j 0 (snd sl) @ slice_requests n (Suc j) sls"

text \<open>Between two steps of reading the instance at address \<open>n\<close>.\<close>

definition advance :: "nat list \<Rightarrow> nat list \<Rightarrow> nat \<Rightarrow> int set \<Rightarrow> (location \<times> nat option) list \<Rightarrow> 'v decoder10 \<Rightarrow> 'v decoder10 \<Rightarrow> bool" where
  "advance OS DD n X Q d d' \<longleftrightarrow> decodes OS DD n X d' \<and> handles_of OS DD d' = handles_of OS DD d + mset (map (received_at DD) Q) \<and> keeps_posted d d'"

lemma advance_trans: "advance OS DD n X Q d d' \<Longrightarrow> advance OS DD n X Q' d' d'' \<Longrightarrow> advance OS DD n X (Q @ Q') d d''"
  by (auto simp: advance_def intro: keeps_posted_trans)

lemma advance_refl: "decodes OS DD n X d \<Longrightarrow> advance OS DD n X [] d d"
  by (simp add: advance_def keeps_posted_def)

lemma advance_decodes: "advance OS DD n X Q d d' \<Longrightarrow> decodes OS DD n X d'"
  by (simp add: advance_def)

lemma handles_Handle: "set (handles (Handle v # ms)) = set_option v \<union> set (handles ms)"
  by (cases v) auto

lemma put_value_props:
  assumes "instances d = pre @ [(t, vs @ [cur])]" "length pre = a"
  shows "instances (put_value a v d) = pre @ [(t, vs @ [cur @ [v]])]" "read_ids_rel (put_value a v d) ts = read_ids_rel d ts"
    "decodes OS DD n X d \<Longrightarrow> advance OS DD n X [] d (put_value a v d)" "flags (put_value a v d) = flags d"
  using assms by (auto simp: put_value_def Let_def nth_append list_update_append read_ids_rel_def decodes_def advance_def keeps_posted_def flags_def handles_of_def)

lemma member_cases:
  "kind_of kind (Plain v) = PlainKind (kind v)" "kind_of kind (Handle h) = HandleKind"
  "field_bytes enc OS (Plain v) = enc v" "field_bytes enc OS (Handle h) = nat_to_le 4 (unat (of_int (- handle_index OS h) :: int32))"
  "read_member10 rd a j (p, PlainKind t) d s = bindS (rd t s) (\<lambda>v s1. Inr (put_value a v d, s1))"
  "read_member10 rd a j (p, HandleKind) d s = dec10_read (Member a j p) d s"
  by (simp_all add: kind_of_def field_bytes_def read_member10_def)

lemma startSlice_step:
  assumes d: "decodes OS DD n X d" "read_ids_rel d ts" "flags d = (ObjectSlice, False)" and l: "length ts \<le> i s"
    and a: "ahead (type_bytes ts t @ sized body @ ys) post s" and o: "owes 0 s"
  shows "\<exists>d' s'. dec10_startSlice d s = Inr (d', s') \<and> consumed (type_bytes ts t @ nat_to_le 4 (4 + length body)) s s' \<and>
    ahead (body @ ys) post s' \<and> read_ids_rel d' (add_new t ts) \<and> length (add_new t ts) \<le> i s' \<and> advance OS DD n X [] d d' \<and>
    flags d' = flags d \<and> instances d' = instances d \<and> typeId d' = t \<and> sliceSize d' = 4 + int (length body)"
proof -
  have "length ts < 2 ^ 31" using l a by (simp add: ahead_def)
  from startSlice_consumes [OF d(2) _ _ this a o] d(3) obtain ids k s' where
    s': "dec10_startSlice d s = Inr (d\<lparr>readTypeIds := ids, readTypeIdIndex := k, typeId := t, sliceSize := 4 + int (length body)\<rparr>, s')"
    "consumed (type_bytes ts t @ nat_to_le 4 (4 + length body)) s s'"
    "read_ids_rel (d\<lparr>readTypeIds := ids, readTypeIdIndex := k, typeId := t, sliceSize := 4 + int (length body)\<rparr>) (add_new t ts)"
    by (auto simp: flags_def Let_def)
  have "ahead ((type_bytes ts t @ nat_to_le 4 (4 + length body)) @ body @ ys) post s" using a by (simp add: sized_def)
  note a' = ahead_consumed [OF this s'(2)]
  have "length (add_new t ts) \<le> i s'" using s'(2) l length_add_new [of t ts] by (simp add: consumed_def)
  then show ?thesis using s' a' d(1)
    by (simp add: decodes_def flags_def advance_def keeps_posted_def handles_of_def)
qed

context plain_types
begin

lemma read_members:
  "decodes OS DD n X d \<Longrightarrow> read_ids_rel d ts \<Longrightarrow> instances d = pre @ [(t, vs @ [cur])] \<Longrightarrow> length pre = a \<Longrightarrow>
   list_all (field_ok ok) ms \<Longrightarrow> set (handles ms) \<subseteq> set OS \<Longrightarrow> length OS < 2 ^ 31 \<Longrightarrow>
   ahead (concat (map (field_bytes enc OS) ms) @ ys) post s \<Longrightarrow> owes 0 s \<Longrightarrow>
   \<exists>d' s'. each (read_member10 rd a j) (enumerate p (map (kind_of kind) ms)) d s = Inr (d', s') \<and>
     consumed (concat (map (field_bytes enc OS) ms)) s s' \<and> advance OS DD n X (member_requests a j p ms) d d' \<and>
     read_ids_rel d' ts \<and> flags d' = flags d \<and> instances d' = pre @ [(t, vs @ [cur @ plains ms])]"
proof (induction ms arbitrary: d s cur p)
  case Nil
  then show ?case by (simp add: consumed_Nil advance_refl)
next
  case (Cons m ms)
  let ?rest = "concat (map (field_bytes enc OS) ms)"
  have a: "ahead (field_bytes enc OS m @ ?rest @ ys) post s" using Cons.prems(8) by simp
  show ?case
  proof (cases m)
    case (Plain v)
    have "ok v \<and> kind v = kind v" using Cons.prems(5) Plain by (simp add: field_ok_def)
    moreover have "ahead (enc v @ ?rest @ ys) post s" using a Plain by (simp add: field_bytes_def)
    ultimately obtain s1 where s1: "rd (kind v) s = Inr (v, s1)" "consumed (enc v) s s1"
      using codec_consumes [OF plain_codec _ _ Cons.prems(9)] by blast
    let ?d = "put_value a v d"
    note pv = put_value_props [where v = v, OF Cons.prems(3,4)]
    have a1: "ahead (?rest @ ys) post s1" using ahead_consumed a s1(2) Plain by (fastforce simp: field_bytes_def)
    have pr: "advance OS DD n X [] d ?d" using pv(3) Cons.prems(1) .
    have "list_all (field_ok ok) ms" "set (handles ms) \<subseteq> set OS" using Cons.prems(5,6) Plain by simp_all
    from Cons.IH [OF advance_decodes [OF pr] pv(2) [THEN iffD2, OF Cons.prems(2)] pv(1) Cons.prems(4) this Cons.prems(7) a1 consumed_owes [OF s1(2)], of "Suc p"]
    obtain d' s' where d': "each (read_member10 rd a j) (enumerate (Suc p) (map (kind_of kind) ms)) ?d s1 = Inr (d', s')"
      "consumed ?rest s1 s'" "advance OS DD n X (member_requests a j (Suc p) ms) ?d d'" "read_ids_rel d' ts"
      "flags d' = flags ?d" "instances d' = pre @ [(t, vs @ [(cur @ [v]) @ plains ms])]" by blast
    then show ?thesis using s1(1) consumed_trans [OF s1(2) d'(2)] advance_trans [OF pr d'(3)] pv(4) Plain
      by (simp add: member_cases)
  next
    case (Handle v)
    let ?hb = "nat_to_le 4 (unat (of_int (- handle_index OS v) :: int32))"
    have v: "x \<in> set OS" if "v = Some x" for x using Cons.prems(6) Handle that by simp
    have "ahead (?hb @ ?rest @ ys) post s" using a Handle by (simp add: member_cases)
    from dec10_read_handle [where loc = "Member a j p", OF Cons.prems(1) v Cons.prems(7) this Cons.prems(9)]
    obtain d1 s1 where d1: "dec10_read (Member a j p) d s = Inr (d1, s1)" "consumed ?hb s s1" "decodes OS DD n X d1"
      "handles_of OS DD d1 = add_mset (received_at DD (Member a j p, v)) (handles_of OS DD d)" "keeps_posted d d1"
      "flags d1 = flags d" "instances d1 = instances d" "read_ids_rel d1 ts"
      using Cons.prems(2) by blast
    have pr: "advance OS DD n X [(Member a j p, v)] d d1" using d1(3-5) by (simp add: advance_def)
    have a1: "ahead (?rest @ ys) post s1" using ahead_consumed a d1(2) Handle by (fastforce simp: field_bytes_def)
    have "list_all (field_ok ok) ms" "set (handles ms) \<subseteq> set OS" using Cons.prems(5,6) Handle by (simp_all add: handles_Handle)
    from Cons.IH [OF d1(3,8) d1(7) [unfolded Cons.prems(3)] Cons.prems(4) this Cons.prems(7) a1 consumed_owes [OF d1(2)], of "Suc p"]
    obtain d' s' where d': "each (read_member10 rd a j) (enumerate (Suc p) (map (kind_of kind) ms)) d1 s1 = Inr (d', s')"
      "consumed ?rest s1 s'" "advance OS DD n X (member_requests a j (Suc p) ms) d1 d'" "read_ids_rel d' ts"
      "flags d' = flags d1" "instances d' = pre @ [(t, vs @ [cur @ plains ms])]" by blast
    then show ?thesis using d1 consumed_trans [OF d1(2) d'(2)] advance_trans [OF pr d'(3)] Handle
      by (simp add: member_cases)
  qed
qed

text \<open>A slice once its header has been read, all slices up to the end, and the whole instance.\<close>

lemma read_slice_body:
  assumes d: "decodes OS DD n X d" "read_ids_rel d ts" "instances d = pre @ [(t, vs)]" "length pre = a"
    and ms: "list_all (field_ok ok) ms" "set (handles ms) \<subseteq> set OS" and l: "length OS < 2 ^ 31"
    and a: "ahead (concat (map (field_bytes enc OS) ms) @ ys) post s" and o: "owes 0 s"
  shows "\<exists>d' s'. bindS (each (read_member10 rd a j) (enumerate 0 (map (kind_of kind) ms)) (new_slice a d) s) dec10_endSlice = Inr (d', s') \<and>
     consumed (concat (map (field_bytes enc OS) ms)) s s' \<and> advance OS DD n X (member_requests a j 0 ms) d d' \<and>
     read_ids_rel d' ts \<and> flags d' = flags d \<and> instances d' = pre @ [(t, vs @ [plains ms])]"
proof -
  let ?d = "new_slice a d"
  have i: "instances ?d = pre @ [(t, vs @ [[]])]" using d(3,4) by (auto simp: new_slice_def nth_append list_update_append)
  have f: "decodes OS DD n X ?d" "read_ids_rel ?d ts" "flags ?d = flags d" "advance OS DD n X [] d ?d"
    using d by (auto simp: new_slice_def nth_append decodes_def read_ids_rel_def flags_def advance_def keeps_posted_def handles_of_def)
  from read_members [OF f(1,2) i d(4) ms l a o, of j 0] obtain d' s' where
    d': "each (read_member10 rd a j) (enumerate 0 (map (kind_of kind) ms)) ?d s = Inr (d', s')"
    "consumed (concat (map (field_bytes enc OS) ms)) s s'" "advance OS DD n X (member_requests a j 0 ms) ?d d'" "read_ids_rel d' ts"
    "flags d' = flags ?d" "instances d' = pre @ [(t, vs @ [[] @ plains ms])]" by blast
  then show ?thesis using f(3) advance_trans [OF f(4) d'(3)] by (simp add: dec10_endSlice_def)
qed

lemma read_slices:
  "decodes OS DD n X d \<Longrightarrow> read_ids_rel d ts \<Longrightarrow> flags d = (ObjectSlice, False) \<Longrightarrow> instances d = pre @ [(t0, vs)] \<Longrightarrow> length pre = a \<Longrightarrow>
   object_ok ok obj \<Longrightarrow> set (object_handles obj) \<subseteq> set OS \<Longrightarrow> length OS < 2 ^ 31 \<Longrightarrow> length ts \<le> i s \<Longrightarrow>
   ahead (slices_bytes enc OS ts obj @ ys) post s \<Longrightarrow> owes 0 s \<Longrightarrow>
   \<exists>d' s'. bindS (each (read_slice10 rd a) (enumerate j (layout_of kind obj)) d s) dec10_endInstance = Inr (d', s') \<and>
     consumed (slices_bytes enc OS ts obj) s s' \<and> advance OS DD n X (slice_requests a j obj) d d' \<and>
     read_ids_rel d' (slices_types obj ts) \<and> length (slices_types obj ts) \<le> i s' \<and>
     instances d' = pre @ [(t0, vs @ map (\<lambda>sl. plains (snd sl)) obj)]"
proof (induction obj arbitrary: d ts s vs j)
  case Nil
  have a: "ahead (type_bytes ts ice_staticId @ sized [0] @ ys) post s" using Nil.prems(10) by simp
  from startSlice_step [OF Nil.prems(1-3,9) a Nil.prems(11)] obtain d1 s1 where
    d1: "dec10_startSlice d s = Inr (d1, s1)" "consumed (type_bytes ts ice_staticId @ nat_to_le 4 (4 + length [0 :: byte])) s s1"
    "ahead ([0] @ ys) post s1" "read_ids_rel d1 (add_new ice_staticId ts)" "length (add_new ice_staticId ts) \<le> i s1"
    "advance OS DD n X [] d d1" "instances d1 = instances d" by blast
  have sb: "size_bytes 0 = [0]" by (simp add: size_bytes_def)
  from size_consumes [of 0 ys post s1] d1(3) consumed_owes [OF d1(2)] sb obtain s2 where
    s2: "readSize s1 = Inr (0, s2)" "consumed [0] s1 s2" by auto
  let ?d = "d1\<lparr>d_sliceType := NoSlice\<rparr>"
  have "bindS (each (read_slice10 rd a) (enumerate j (layout_of kind [])) d s) dec10_endInstance = Inr (?d, s2)"
    using Nil.prems(3) d1(1) s2(1) by (simp add: layout_of_def dec10_endInstance_def dec10_endSlice_def flags_def)
  moreover have "consumed (slices_bytes enc OS ts []) s s2" using consumed_trans [OF d1(2) s2(2)] by (simp add: sized_def)
  moreover have "advance OS DD n X [] d ?d" "read_ids_rel ?d (add_new ice_staticId ts)"
    using d1(4,6) by (simp_all add: advance_def decodes_def handles_of_def keeps_posted_def read_ids_rel_def)
  moreover have "length (add_new ice_staticId ts) \<le> i s2" using d1(5) s2(2) by (simp add: consumed_def)
  ultimately show ?case using Nil.prems(4) d1(7) by (simp add: slices_types_def)
next
  case (Cons sl obj)
  obtain t ms where sl: "sl = (t, ms)" by force
  let ?body = "concat (map (field_bytes enc OS) ms)" let ?rest = "slices_bytes enc OS (add_new t ts) obj"
  have a: "ahead (type_bytes ts t @ sized ?body @ ?rest @ ys) post s" using Cons.prems(10) by (simp add: sl)
  from startSlice_step [OF Cons.prems(1-3,9) a Cons.prems(11)] obtain d1 s1 where
    d1: "dec10_startSlice d s = Inr (d1, s1)" "consumed (type_bytes ts t @ nat_to_le 4 (4 + length ?body)) s s1"
    "ahead (?body @ ?rest @ ys) post s1" "read_ids_rel d1 (add_new t ts)" "length (add_new t ts) \<le> i s1"
    "advance OS DD n X [] d d1" "flags d1 = flags d" "instances d1 = instances d" by blast
  have ms: "list_all (field_ok ok) ms" "set (handles ms) \<subseteq> set OS" "object_ok ok obj" "set (object_handles obj) \<subseteq> set OS"
    using Cons.prems(6,7) by (simp_all add: sl object_ok_def object_handles_def)
  from read_slice_body [OF advance_decodes [OF d1(6)] d1(4) d1(8) [unfolded Cons.prems(4)] Cons.prems(5) ms(1,2) Cons.prems(8) d1(3) consumed_owes [OF d1(2)], of j]
  obtain d2 s2 where d2: "bindS (each (read_member10 rd a j) (enumerate 0 (map (kind_of kind) ms)) (new_slice a d1) s1) dec10_endSlice = Inr (d2, s2)"
    "consumed ?body s1 s2" "advance OS DD n X (member_requests a j 0 ms) d1 d2" "read_ids_rel d2 (add_new t ts)" "flags d2 = flags d1"
    "instances d2 = pre @ [(t0, vs @ [plains ms])]" by blast
  have f: "flags d2 = (ObjectSlice, False)" using d2(5) d1(7) Cons.prems(3) by simp
  have l: "length (add_new t ts) \<le> i s2" using d1(5) d2(2) by (simp add: consumed_def)
  from Cons.IH [OF advance_decodes [OF d2(3)] d2(4) f d2(6) Cons.prems(5) ms(3,4) Cons.prems(8) l ahead_consumed [OF d1(3) d2(2)] consumed_owes [OF d2(2)], of "Suc j"]
  obtain d' s' where d': "bindS (each (read_slice10 rd a) (enumerate (Suc j) (layout_of kind obj)) d2 s2) dec10_endInstance = Inr (d', s')"
    "consumed ?rest s2 s'" "advance OS DD n X (slice_requests a (Suc j) obj) d2 d'" "read_ids_rel d' (slices_types obj (add_new t ts))"
    "length (slices_types obj (add_new t ts)) \<le> i s'" "instances d' = pre @ [(t0, (vs @ [plains ms]) @ map (\<lambda>sl. plains (snd sl)) obj)]"
    by blast
  have "read_slice10 rd a (j, map (kind_of kind) ms) d s = Inr (d2, s2)" using d1(1) d2(1) by (simp add: read_slice10_def)
  moreover have "consumed (slices_bytes enc OS ts (sl # obj)) s s'"
    using consumed_trans [OF consumed_trans [OF d1(2) d2(2)] d'(2)] by (simp add: sl sized_def)
  ultimately show ?case using advance_trans [OF advance_trans [OF d1(6) d2(3)] d'(3)] d'(1,4-6)
    by (simp add: sl layout_of_def slices_types_def)
qed

lemma object_read:
  assumes d: "decodes OS DD n X d" "read_ids_rel d ts" "d_sliceType d = ObjectSlice" "instances d = pre @ [(t0, [])]" "length pre = a"
    and obj: "object_ok ok ((t, ms) # rest)" "set (object_handles ((t, ms) # rest)) \<subseteq> set OS" and l: "length OS < 2 ^ 31" "length ts \<le> i s"
    and a: "ahead (concat (map (field_bytes enc OS) ms) @ slices_bytes enc OS ts rest @ ys) post s" and o: "owes 0 s"
  shows "\<exists>d' s'. object_read10 rd a (layout_of kind ((t, ms) # rest)) d s = Inr (d', s') \<and>
    consumed (concat (map (field_bytes enc OS) ms) @ slices_bytes enc OS ts rest) s s' \<and>
    advance OS DD n X (slice_requests a 0 ((t, ms) # rest)) d d' \<and> read_ids_rel d' (slices_types rest ts) \<and>
    length (slices_types rest ts) \<le> i s' \<and> instances d' = pre @ [(t0, map (\<lambda>sl. plains (snd sl)) ((t, ms) # rest))]"
proof -
  let ?body = "concat (map (field_bytes enc OS) ms)" let ?d = "d\<lparr>skipFirstSlice := True\<rparr>\<lparr>skipFirstSlice := False\<rparr>"
  have d0: "decodes OS DD n X ?d" "read_ids_rel ?d ts" "instances ?d = pre @ [(t0, [])]" "advance OS DD n X [] d ?d" "flags ?d = (ObjectSlice, False)"
    using d by (simp_all add: decodes_def read_ids_rel_def advance_def keeps_posted_def handles_of_def flags_def)
  have ms: "list_all (field_ok ok) ms" "set (handles ms) \<subseteq> set OS" "object_ok ok rest" "set (object_handles rest) \<subseteq> set OS"
    using obj by (simp_all add: object_ok_def object_handles_def)
  from read_slice_body [OF d0(1-3) d(5) ms(1,2) l(1) a o, of 0] obtain d2 s2 where
    d2: "bindS (each (read_member10 rd a 0) (enumerate 0 (map (kind_of kind) ms)) (new_slice a ?d) s) dec10_endSlice = Inr (d2, s2)"
    "consumed ?body s s2" "advance OS DD n X (member_requests a 0 0 ms) ?d d2" "read_ids_rel d2 ts" "flags d2 = flags ?d"
    "instances d2 = pre @ [(t0, [] @ [plains ms])]" by blast
  have f: "flags d2 = (ObjectSlice, False)" using d2(5) d0(5) by simp
  have l2: "length ts \<le> i s2" using l(2) d2(2) by (simp add: consumed_def)
  from read_slices [OF advance_decodes [OF d2(3)] d2(4) f d2(6) d(5) ms(3,4) l(1) l2 ahead_consumed [OF a d2(2)] consumed_owes [OF d2(2)], of 1]
  obtain d' s' where d': "bindS (each (read_slice10 rd a) (enumerate 1 (layout_of kind rest)) d2 s2) dec10_endInstance = Inr (d', s')"
    "consumed (slices_bytes enc OS ts rest) s2 s'" "advance OS DD n X (slice_requests a 1 rest) d2 d'" "read_ids_rel d' (slices_types rest ts)"
    "length (slices_types rest ts) \<le> i s'" "instances d' = pre @ [(t0, ([] @ [plains ms]) @ map (\<lambda>sl. plains (snd sl)) rest)]" by blast
  have "dec10_startSlice (d\<lparr>skipFirstSlice := True\<rparr>) s = Inr (?d, s)" by (simp add: dec10_startSlice_def)
  then have "read_slice10 rd a (0, map (kind_of kind) ms) (d\<lparr>skipFirstSlice := True\<rparr>) s = Inr (d2, s2)" using d2(1) by (simp add: read_slice10_def)
  then have "object_read10 rd a (layout_of kind ((t, ms) # rest)) d s = Inr (d', s')" using d(3) d'(1)
    by (simp add: object_read10_def layout_of_def dec10_startInstance_def)
  then show ?thesis using advance_trans [OF advance_trans [OF d0(4) d2(3)] d'(3)] consumed_trans [OF d2(2) d'(2)] d'(4-6) by simp
qed

end

section \<open>Slicing\<close>

text \<open>
  The slices from the first one that the receiver knows. What it knows of an instance it knows with all bases; without
  slicing it has to know the first slice.
\<close>

definition sliced :: "'t factories \<Rightarrow> 'v object \<Rightarrow> 'v object" where
  "sliced f obj = dropWhile (\<lambda>sl. newInstance f (fst sl) = Inr None) obj"

definition known :: "'t factories \<Rightarrow> bool \<Rightarrow> ('v \<Rightarrow> 't) \<Rightarrow> 'v object \<Rightarrow> bool" where
  "known f slicing kind obj \<longleftrightarrow> sliced f obj \<noteq> [] \<and> newInstance f (fst (hd (sliced f obj))) = Inr (Some (layout_of kind (sliced f obj))) \<and>
     (slicing \<or> sliced f obj = obj) \<and> ice_staticId \<notin> fst ` set obj"

definition received :: "'t factories \<Rightarrow> 'v object \<Rightarrow> string \<times> 'v list list" where
  "received f obj = (fst (hd (sliced f obj)), map (\<lambda>sl. plains (snd sl)) (sliced f obj))"

lemma skipSlice_consumes:
  assumes "sliceSize d = 4 + int (length body)" "ahead (body @ ys) post s" "owes 0 s"
  shows "\<exists>s'. dec10_skipSlice d s = Inr (d, s') \<and> consumed body s s'"
proof -
  have "i s + length body \<le> length (b s)" using ahead_length [OF assms(2)] by simp
  then have "skip (int (length body)) s = Inr (s\<lparr>i := i s + length body\<rparr>)" by (simp add: skip_def nat_int_add)
  moreover have "consumed body s (s\<lparr>i := i s + length body\<rparr>)" using assms(3) by (auto simp: consumed_def owes_def)
  ultimately show ?thesis using assms(1) by (simp add: dec10_skipSlice_def on_stream_def)
qed

lemma find_layout_known:
  "known f slicing kind ((t, ms) # rest) \<Longrightarrow> decodes OS DD n X d \<Longrightarrow> read_ids_rel d ts \<Longrightarrow> flags d = (ObjectSlice, False) \<Longrightarrow> typeId d = t \<Longrightarrow>
   sliceSize d = 4 + int (length (concat (map (field_bytes enc OS) ms))) \<Longrightarrow> length ts \<le> i s \<Longrightarrow>
   ahead (concat (map (field_bytes enc OS) ms) @ slices_bytes enc OS ts rest @ ys) post s \<Longrightarrow> owes 0 s \<Longrightarrow>
   \<exists>d' s' ms' rest' ts' used. sliced f ((t, ms) # rest) = (typeId d', ms') # rest' \<and>
     find_layout f slicing mostDerived d s = Some (Inr (layout_of kind ((typeId d', ms') # rest'), d', s')) \<and>
     concat (map (field_bytes enc OS) ms) @ slices_bytes enc OS ts rest = used @ concat (map (field_bytes enc OS) ms') @ slices_bytes enc OS ts' rest' \<and>
     consumed used s s' \<and> advance OS DD n X [] d d' \<and> read_ids_rel d' ts' \<and> length ts' \<le> i s' \<and> flags d' = (ObjectSlice, False) \<and>
     instances d' = instances d \<and> slices_types rest' ts' = slices_types rest ts"
proof (induction rest arbitrary: t ms d s ts)
  case Nil
  then have "newInstance f t = Inr (Some (layout_of kind [(t, ms)]))" "sliced f [(t, ms)] = [(t, ms)]" "t \<noteq> ice_staticId"
    by (auto simp: known_def sliced_def split: if_splits)
  then have "find_layout f slicing mostDerived d s = Some (Inr (layout_of kind [(t, ms)], d, s))"
    using Nil.prems(5) by (subst find_layout.simps) simp
  then show ?case using Nil.prems \<open>sliced f [(t, ms)] = [(t, ms)]\<close> advance_refl [OF Nil.prems(2)] consumed_Nil [OF Nil.prems(9)]
    by (intro exI [of _ d] exI [of _ s] exI [of _ ms] exI [of _ "[]"] exI [of _ ts]) simp
next
  case (Cons sl rest)
  obtain t1 ms1 where sl: "sl = (t1, ms1)" by force
  have id: "t \<noteq> ice_staticId" using Cons.prems(1) by (auto simp: known_def)
  let ?body = "concat (map (field_bytes enc OS) ms)" and ?body1 = "concat (map (field_bytes enc OS) ms1)"
  let ?rest = "slices_bytes enc OS (add_new t1 ts) rest"
  show ?case
  proof (cases "newInstance f t = Inr None")
    case False
    then have sd: "sliced f ((t, ms) # sl # rest) = (t, ms) # sl # rest" by (simp add: sliced_def)
    then have "newInstance f t = Inr (Some (layout_of kind ((t, ms) # sl # rest)))" using Cons.prems(1) by (simp add: known_def)
    then have "find_layout f slicing mostDerived d s = Some (Inr (layout_of kind ((t, ms) # sl # rest), d, s))"
      using Cons.prems(5) id by (subst find_layout.simps) simp
    then show ?thesis using Cons.prems sd advance_refl [OF Cons.prems(2)] consumed_Nil [OF Cons.prems(9)]
      by (intro exI [of _ d] exI [of _ s] exI [of _ ms] exI [of _ "sl # rest"] exI [of _ ts] exI [of _ "[]"]) simp
  next
    case True
    then have sd: "sliced f ((t, ms) # sl # rest) = sliced f (sl # rest)" by (simp add: sliced_def)
    moreover have "length (sliced f (sl # rest)) \<le> length (sl # rest)" unfolding sliced_def by (rule length_dropWhile_le)
    ultimately have "sliced f (sl # rest) \<noteq> (t, ms) # sl # rest" by auto
    then have sc: "slicing" and kn: "known f slicing kind ((t1, ms1) # rest)" using Cons.prems(1) sd by (auto simp: known_def sl)
    from skipSlice_consumes [OF Cons.prems(6,8,9)] obtain s1 where s1: "dec10_skipSlice d s = Inr (d, s1)" "consumed ?body s s1" by blast
    have a1: "ahead (type_bytes ts t1 @ sized ?body1 @ ?rest @ ys) post s1" using ahead_consumed [OF Cons.prems(8) s1(2)] by (simp add: sl)
    have l1: "length ts \<le> i s1" using Cons.prems(7) s1(2) by (simp add: consumed_def)
    from startSlice_step [OF Cons.prems(2-4) l1 a1 consumed_owes [OF s1(2)]] obtain d2 s2 where
      d2: "dec10_startSlice d s1 = Inr (d2, s2)" "consumed (type_bytes ts t1 @ nat_to_le 4 (4 + length ?body1)) s1 s2"
      "ahead (?body1 @ ?rest @ ys) post s2" "read_ids_rel d2 (add_new t1 ts)" "length (add_new t1 ts) \<le> i s2" "advance OS DD n X [] d d2"
      "flags d2 = flags d" "instances d2 = instances d" "typeId d2 = t1" "sliceSize d2 = 4 + int (length ?body1)" by blast
    have f: "flags d2 = (ObjectSlice, False)" using d2(7) Cons.prems(4) by simp
    from Cons.IH [OF kn advance_decodes [OF d2(6)] d2(4) f d2(9,10,5,3) consumed_owes [OF d2(2)]] obtain d' s' ms' rest' ts' used where
      *: "sliced f ((t1, ms1) # rest) = (typeId d', ms') # rest'"
      "find_layout f slicing mostDerived d2 s2 = Some (Inr (layout_of kind ((typeId d', ms') # rest'), d', s'))"
      "?body1 @ ?rest = used @ concat (map (field_bytes enc OS) ms') @ slices_bytes enc OS ts' rest'"
      "consumed used s2 s'" "advance OS DD n X [] d2 d'" "read_ids_rel d' ts'" "length ts' \<le> i s'" "flags d' = (ObjectSlice, False)"
      "instances d' = instances d2" "slices_types rest' ts' = slices_types rest (add_new t1 ts)" by blast
    have "find_layout f slicing mostDerived d s = find_layout f slicing mostDerived d2 s2"
      using Cons.prems(5) True id sc s1(1) d2(1) by (subst find_layout.simps) simp
    then show ?thesis using sd * d2(8) advance_trans [OF d2(6) *(5)] consumed_trans [OF consumed_trans [OF s1(2) d2(2)] *(4)]
      by (intro exI [of _ d'] exI [of _ s'] exI [of _ ms'] exI [of _ rest'] exI [of _ ts']
          exI [of _ "(?body @ type_bytes ts t1 @ nat_to_le 4 (4 + length ?body1)) @ used"]) (simp add: sl sized_def slices_types_def)
  qed
qed

end
