(* ===== verification/ClassRoundtrip10.thy ===== *)
theory ClassRoundtrip10
  imports ClassDecode10
begin

text \<open>
  A graph of class instances written with the 1.0 encoding and read back: the loops over the pending instances of both sides, and
  the whole exchange.
\<close>

section \<open>One instance\<close>

text \<open>\<open>n\<close> instances have been read; those for which \<^verbatim>\<open>ice_postUnmarshal\<close> has not been called are kept in \<open>objectList\<close>.\<close>

definition all_read :: "nat \<Rightarrow> ('v, 'z) decoder_scheme \<Rightarrow> bool" where
  "all_read n d \<longleftrightarrow> posted d @ objectList d = [0..<n] \<and> (patchMap d = [] \<longrightarrow> objectList d = [])"

lemma fold_patch: "fold (\<lambda>addr. patch addr v) l d = d\<lparr>patched := patched d @ map (\<lambda>addr. (addr, v)) l\<rparr>"
  by (induction l arbitrary: d) (simp_all add: patch_def)

lemma created_now:
  assumes "n < length DD" "distinct DD" "set DD = set OS"
  shows "DD ! n \<in> set OS" "DD ! n \<notin> set (take n DD)" "idx DD (DD ! n) = n" "OS ! idx OS (DD ! n) = DD ! n" "idx OS (DD ! n) < length OS"
proof -
  show in_OS: "DD ! n \<in> set OS" using assms nth_mem by blast
  show "DD ! n \<notin> set (take n DD)" using assms by (auto simp: in_set_conv_nth nth_eq_iff_index_eq)
  show "idx DD (DD ! n) = n" using idx_nth assms by blast
  show "OS ! idx OS (DD ! n) = DD ! n" "idx OS (DD ! n) < length OS" using idx_less [OF in_OS] by simp_all
qed

lemma unmarshal_start:
  fixes d :: "('v, 'z) decoder_scheme"
  assumes d: "decodes OS DD n {} d" and x: "n < length DD" "distinct DD" "set DD = set OS" and z: "z = int (idx OS (DD ! n)) + 1"
  defines "d1 \<equiv> d\<lparr>unmarshaledMap := (if smap_find (unmarshaledMap d) z = None then smap_put z n (unmarshaledMap d) else unmarshaledMap d)\<rparr>"
  shows "decodes OS DD (Suc n) {z} d1" "handles_of OS DD d1 = handles_of OS DD d"
proof -
  let ?x = "DD ! n"
  note x' = created_now [OF x]
  have "smap_find (unmarshaledMap d) z = None" using d x' z by (simp add: decodes_def)
  then have d1: "d1 = d\<lparr>unmarshaledMap := smap_put z n (unmarshaledMap d)\<rparr>" by (simp add: d1_def)
  have t: "set (take (Suc n) DD) = insert ?x (set (take n DD))" using x(1) by (simp add: take_Suc_conv_app_nth)
  have inj: "a = ?x" if "idx OS a = idx OS ?x" "a \<in> set OS" for a using idx_eq [OF that(2) that(1) x'(1)] .
  have "\<forall>z' l. smap_find (patchMap d) z' = Some l \<longrightarrow> l \<noteq> [] \<and> (z' \<in> {z} \<or> (\<exists>a \<in> set OS - set (take (Suc n) DD). z' = int (idx OS a) + 1))"
  proof (intro allI impI)
    fix z' l assume l: "smap_find (patchMap d) z' = Some l"
    have "l \<noteq> [] \<and> (\<exists>a \<in> set OS - set (take n DD). z' = int (idx OS a) + 1)" using d l by (simp add: decodes_def)
    then obtain a where "l \<noteq> []" "a \<in> set OS" "a \<notin> set (take n DD)" "z' = int (idx OS a) + 1" by blast
    then show "l \<noteq> [] \<and> (z' \<in> {z} \<or> (\<exists>a \<in> set OS - set (take (Suc n) DD). z' = int (idx OS a) + 1))"
      using t z by (cases "a = ?x") auto
  qed
  then show "decodes OS DD (Suc n) {z} d1" using d x' z t by (simp add: d1 decodes_def smap_put_inv smap_put_find) (use inj in blast)
  show "handles_of OS DD d1 = handles_of OS DD d" by (simp add: d1 handles_of_def)
qed

lemma unmarshal_done:
  assumes d: "decodes OS DD n {} d" "all_read n d" and x: "n < length DD" "distinct DD" "set DD = set OS" and z: "z = int (idx OS (DD ! n)) + 1"
    and read: "\<And>d1. d1 = d\<lparr>unmarshaledMap := (if smap_find (unmarshaledMap d) z = None then smap_put z n (unmarshaledMap d) else unmarshaledMap d)\<rparr> \<Longrightarrow>
      read d1 s = Inr (d2, s2) \<and> advance OS DD (Suc n) {z} Q d1 d2"
  shows "\<exists>d'. unmarshal read z n d s = Inr (d', s2) \<and> decodes OS DD (Suc n) {} d' \<and> all_read (Suc n) d' \<and>
    handles_of OS DD d' = handles_of OS DD d + mset (map (received_at DD) Q) \<and> instances d' = instances d2 \<and> (\<forall>ts. read_ids_rel d2 ts \<longrightarrow> read_ids_rel d' ts)"
proof -
  let ?x = "DD ! n"
  let ?d1 = "d\<lparr>unmarshaledMap := (if smap_find (unmarshaledMap d) z = None then smap_put z n (unmarshaledMap d) else unmarshaledMap d)\<rparr>"
  note start = unmarshal_start [OF d(1) x z]
  have r: "read ?d1 s = Inr (d2, s2)" "decodes OS DD (Suc n) {z} d2" "handles_of OS DD d2 = handles_of OS DD d + mset (map (received_at DD) Q)"
    "posted d2 = posted d" "objectList d2 = objectList d" "patchMap d2 = [] \<Longrightarrow> patchMap d = []"
    using read [OF refl] start(2) by (auto simp: advance_def keeps_posted_def)
  have nth: "OS ! nat (z - 1) = ?x" "idx DD ?x = n" using z created_now [OF x] by simp_all
  have pm: "smap_inv (patchMap d2)" using r(2) by (simp add: decodes_def)
  let ?l = "case smap_find (patchMap d2) z of None \<Rightarrow> [] | Some l \<Rightarrow> l"
  let ?d3 = "d2\<lparr>patched := patched d2 @ map (\<lambda>addr. (addr, Some n)) ?l, patchMap := smap_erase z (patchMap d2)\<rparr>"
  let ?d4 = "if objectList ?d3 = [] \<and> patchMap ?d3 = [] then ?d3\<lparr>posted := posted ?d3 @ [n]\<rparr>
    else if patchMap ?d3 = [] then ?d3\<lparr>posted := posted ?d3 @ objectList ?d3 @ [n], objectList := []\<rparr>
    else ?d3\<lparr>objectList := objectList ?d3 @ [n]\<rparr>"
  have none: "smap_erase z (patchMap d2) = patchMap d2" if "smap_find (patchMap d2) z = None"
    using that by (force simp: smap_erase_def filter_id_conv map_of_eq_None_iff)
  have u: "unmarshal read z n d s = Inr (?d4, s2)"
  proof (cases "smap_find (patchMap d2) z")
    case None
    have eq: "?d3 = d2" using none [OF None] None by simp
    show ?thesis unfolding eq using r(1) None by (simp add: unmarshal_def Let_def)
  next
    case (Some l)
    then have "l \<noteq> []" using r(2) by (auto simp: decodes_def)
    then obtain y ys where "l = y # ys" by (cases l) auto
    then show ?thesis using r(1) Some by (simp add: unmarshal_def Let_def fold_patch patch_def)
  qed
  have dec: "decodes OS DD (Suc n) {} ?d3" using r(2) by (auto simp: decodes_def smap_erase_inv smap_erase_find split: if_splits)
  have acc: "handles_of OS DD ?d3 = handles_of OS DD d2"
  proof (cases "smap_find (patchMap d2) z")
    case (Some l)
    show ?thesis using waiting_erase [OF pm Some, of OS DD] nth Some by (simp add: handles_of_def)
  qed (simp add: none handles_of_def)
  have "decodes OS DD (Suc n) {} ?d4" "handles_of OS DD ?d4 = handles_of OS DD ?d3" using dec by (simp_all add: decodes_def handles_of_def)
  moreover have "all_read (Suc n) ?d4" using d(2) r(4,5) by (auto simp: all_read_def)
  ultimately show ?thesis using u acc r(3) by (intro exI [of _ ?d4]) (simp add: read_ids_rel_def)
qed

lemma all_read_keeps: "all_read n d \<Longrightarrow> keeps_posted d d' \<Longrightarrow> all_read n d'"
  by (simp add: all_read_def keeps_posted_def)

lemma sliced_parts: "set (object_handles (sliced f obj)) \<subseteq> set (object_handles obj)" "object_ok ok obj \<Longrightarrow> object_ok ok (sliced f obj)"
  by (auto simp: object_handles_def object_ok_def sliced_def list_all_iff dest: set_dropWhileD)

context plain_types
begin

lemma read_instance:
  assumes d: "decodes OS DD n {} d" "all_read n d" "read_ids_rel d ts" "length (instances d) = n"
    and x: "n < length DD" "distinct DD" "set DD = set OS"
    and obj: "known f slicing kind (heap (DD ! n))" "object_ok ok (heap (DD ! n))" "set (object_handles (heap (DD ! n))) \<subseteq> set OS"
    and l: "length OS < 2 ^ 31" "length ts \<le> i s"
    and a: "ahead (nat_to_le 4 (idx OS (DD ! n) + 1) @ slices_bytes enc OS ts (heap (DD ! n)) @ ys) post s" and o: "owes 0 s"
  shows "\<exists>d' s'. readInstance10 rd f slicing d s = Some (Inr (d', s')) \<and>
    consumed (nat_to_le 4 (idx OS (DD ! n) + 1) @ slices_bytes enc OS ts (heap (DD ! n))) s s' \<and>
    decodes OS DD (Suc n) {} d' \<and> all_read (Suc n) d' \<and> read_ids_rel d' (slices_types (heap (DD ! n)) ts) \<and>
    length (slices_types (heap (DD ! n)) ts) \<le> i s' \<and> instances d' = instances d @ [received f (heap (DD ! n))] \<and>
    handles_of OS DD d' = handles_of OS DD d + mset (map (received_at DD) (slice_requests n 0 (sliced f (heap (DD ! n)))))"
proof -
  let ?obj = "heap (DD ! n)" and ?k = "idx OS (DD ! n) + 1" let ?z = "int (idx OS (DD ! n)) + 1"
  obtain t ms rest where hd: "?obj = (t, ms) # rest" using obj(1) by (cases ?obj) (auto simp: known_def sliced_def)
  let ?body = "concat (map (field_bytes enc OS) ms)" let ?rest = "slices_bytes enc OS (add_new t ts) rest"
  have k: "?k < 2 ^ 31" using created_now(5) [OF x] l(1) ahead_length [OF a] a by (simp add: ahead_def)
  have w: "unat (of_nat ?k :: int32) = ?k" "sint (of_nat ?k :: int32) = ?z" using unat_of_nat32 [OF k] sint_of_nat32 [OF k] by simp_all
  have "ahead (nat_to_le 4 (unat (of_nat ?k :: int32)) @ slices_bytes enc OS ts ?obj @ ys) post s" using a w(1) by simp
  from int_consumes [OF this o] w(1) obtain s1 where s1: "readInt s = Inr (of_nat ?k, s1)" "consumed (nat_to_le 4 ?k) s s1" by auto
  let ?d = "d\<lparr>d_sliceType := ObjectSlice, skipFirstSlice := False\<rparr>"
  have d0: "decodes OS DD n {} ?d" "read_ids_rel ?d ts" "flags ?d = (ObjectSlice, False)" "advance OS DD n {} [] d ?d"
    using d by (simp_all add: decodes_def read_ids_rel_def flags_def advance_def keeps_posted_def handles_of_def)
  have a1: "ahead (type_bytes ts t @ sized ?body @ ?rest @ ys) post s1" using ahead_consumed [OF a s1(2)] hd by simp
  have l1: "length ts \<le> i s1" using l(2) s1(2) by (simp add: consumed_def)
  from startSlice_step [OF d0(1-3) l1 a1 consumed_owes [OF s1(2)]] obtain d1 s2 where
    d1: "dec10_startSlice ?d s1 = Inr (d1, s2)" "consumed (type_bytes ts t @ nat_to_le 4 (4 + length ?body)) s1 s2"
    "ahead (?body @ ?rest @ ys) post s2" "read_ids_rel d1 (add_new t ts)" "length (add_new t ts) \<le> i s2" "advance OS DD n {} [] ?d d1"
    "flags d1 = flags ?d" "instances d1 = instances ?d" "typeId d1 = t" "sliceSize d1 = 4 + int (length ?body)" by blast
  have f: "flags d1 = (ObjectSlice, False)" using d1(7) d0(3) by simp
  from find_layout_known [where mostDerived = "typeId d1", OF obj(1) [unfolded hd] advance_decodes [OF d1(6)] d1(4) f d1(9,10,5,3) consumed_owes [OF d1(2)]]
  obtain d2 s3 ms' rest' ts' used where d2: "sliced f ((t, ms) # rest) = (typeId d2, ms') # rest'"
    "find_layout f slicing (typeId d1) d1 s2 = Some (Inr (layout_of kind ((typeId d2, ms') # rest'), d2, s3))"
    "?body @ ?rest = used @ concat (map (field_bytes enc OS) ms') @ slices_bytes enc OS ts' rest'"
    "consumed used s2 s3" "advance OS DD n {} [] d1 d2" "read_ids_rel d2 ts'" "length ts' \<le> i s3" "flags d2 = (ObjectSlice, False)"
    "instances d2 = instances d1" "slices_types rest' ts' = slices_types rest (add_new t ts)" by blast
  let ?d3 = "d2\<lparr>instances := instances d2 @ [(typeId d2, [])]\<rparr>"
  let ?d4 = "?d3\<lparr>unmarshaledMap := (if smap_find (unmarshaledMap ?d3) ?z = None then smap_put ?z n (unmarshaledMap ?d3) else unmarshaledMap ?d3)\<rparr>"
  have pr: "advance OS DD n {} [] d d2" using advance_trans [OF advance_trans [OF d0(4) d1(6)] d2(5)] by simp
  then have d3: "decodes OS DD n {} ?d3" "all_read n ?d3" "handles_of OS DD ?d3 = handles_of OS DD d"
    using all_read_keeps [OF d(2)] by (simp_all add: advance_def decodes_def handles_of_def all_read_def)
  have d4: "read_ids_rel ?d4 ts'" "d_sliceType ?d4 = ObjectSlice" "instances ?d4 = instances d2 @ [(typeId d2, [])]" "length (instances d2) = n"
    using d2(6,8,9) d1(8) d(4) by (simp_all add: read_ids_rel_def flags_def)
  have parts: "object_ok ok ((typeId d2, ms') # rest')" "set (object_handles ((typeId d2, ms') # rest')) \<subseteq> set OS"
    using sliced_parts [where f = f and obj = ?obj] obj(2,3) d2(1) hd by auto
  have a3: "ahead (concat (map (field_bytes enc OS) ms') @ slices_bytes enc OS ts' rest' @ ys) post s3"
    using ahead_consumed [OF _ d2(4)] d1(3) d2(3) by (metis append.assoc)
  from object_read [OF unmarshal_start(1) [OF d3(1) x refl] d4 parts l(1) d2(7) a3 consumed_owes [OF d2(4)]] obtain d5 s5 where
    d5: "object_read10 rd n (layout_of kind ((typeId d2, ms') # rest')) ?d4 s3 = Inr (d5, s5)"
    "consumed (concat (map (field_bytes enc OS) ms') @ slices_bytes enc OS ts' rest') s3 s5"
    "advance OS DD (Suc n) {?z} (slice_requests n 0 ((typeId d2, ms') # rest')) ?d4 d5" "read_ids_rel d5 (slices_types rest' ts')"
    "length (slices_types rest' ts') \<le> i s5" "instances d5 = instances d2 @ [(typeId d2, map (\<lambda>sl. plains (snd sl)) ((typeId d2, ms') # rest'))]"
    by blast
  from unmarshal_done [OF d3(1,2) x refl, of "object_read10 rd n (layout_of kind ((typeId d2, ms') # rest'))" s3 d5 s5
      "slice_requests n 0 ((typeId d2, ms') # rest')"] d5(1,3) obtain d' where
    d': "unmarshal (object_read10 rd n (layout_of kind ((typeId d2, ms') # rest'))) ?z n ?d3 s3 = Inr (d', s5)"
    "decodes OS DD (Suc n) {} d'" "all_read (Suc n) d'"
    "handles_of OS DD d' = handles_of OS DD d + mset (map (received_at DD) (slice_requests n 0 ((typeId d2, ms') # rest')))"
    "instances d' = instances d5" "\<forall>ts. read_ids_rel d5 ts \<longrightarrow> read_ids_rel d' ts" unfolding d3(3) by blast
  have st: "slices_types ?obj ts = slices_types rest' ts'" using d2(10) hd by (simp add: slices_types_def)
  have "readInstance10 rd f slicing d s = Some (Inr (d', s5))"
    using s1(1) w(2) d1(1) d2(2) d'(1) d4(4) by (simp add: readInstance10_def lift_error_def Let_def)
  moreover have "consumed (nat_to_le 4 ?k @ slices_bytes enc OS ts ?obj) s s5"
    using consumed_trans [OF s1(2) consumed_trans [OF d1(2) consumed_trans [OF d2(4) d5(2)]]] d2(3) hd by (simp add: sized_def)
  ultimately show ?thesis using d'(2-6) d5(4-6) st d2(1,9) d1(8) hd by (simp add: received_def)
qed

end

section \<open>The loops of the receiver\<close>

fun graph_requests :: "'t factories \<Rightarrow> (nat \<Rightarrow> 'v object) \<Rightarrow> nat \<Rightarrow> nat list \<Rightarrow> (location \<times> nat option) list" where
  "graph_requests f heap n [] = []"
| "graph_requests f heap n (a # as) = slice_requests n 0 (sliced f (heap a)) @ graph_requests f heap (Suc n) as"

lemma graph_requests_append: "graph_requests f heap n (xs @ ys) = graph_requests f heap n xs @ graph_requests f heap (n + length xs) ys"
  by (induction xs arbitrary: n) simp_all

text \<open>The receiver after it has read the instances \<open>ds\<close>; \<open>before\<close> are the handles that are accounted for before the first of them.\<close>

definition has_read :: "'t factories \<Rightarrow> (nat \<Rightarrow> 'v object) \<Rightarrow> nat list \<Rightarrow> nat list \<Rightarrow> (location \<times> nat option) list \<Rightarrow> nat list \<Rightarrow> string list \<Rightarrow>
    'v decoder10 \<Rightarrow> stream \<Rightarrow> bool" where
  "has_read f heap OS DD before ds ts d s \<longleftrightarrow> decodes OS DD (length ds) {} d \<and> all_read (length ds) d \<and> read_ids_rel d ts \<and> length ts \<le> i s \<and>
     owes 0 s \<and> instances d = map (\<lambda>a. received f (heap a)) ds \<and>
     handles_of OS DD d = mset (map (received_at DD) (before @ graph_requests f heap 0 ds))"

definition sendable :: "('v \<Rightarrow> bool) \<Rightarrow> ('v \<Rightarrow> 't) \<Rightarrow> 't factories \<Rightarrow> bool \<Rightarrow> (nat \<Rightarrow> 'v object) \<Rightarrow> nat list \<Rightarrow> bool" where
  "sendable ok kind f slicing heap OS \<longleftrightarrow> length OS < 2 ^ 31 \<and>
     (\<forall>a \<in> set OS. known f slicing kind (heap a) \<and> object_ok ok (heap a) \<and> set (object_handles (heap a)) \<subseteq> set OS)"

context plain_types
begin

lemma read_instances:
  "has_read f heap OS DD before ds ts d s \<Longrightarrow> DD = ds @ as @ zs \<Longrightarrow> distinct DD \<Longrightarrow> set DD = set OS \<Longrightarrow> sendable ok kind f slicing heap OS \<Longrightarrow>
   ahead (pending_bytes enc OS heap ts as @ ys) post s \<Longrightarrow>
   \<exists>d' s'. read_instances10 rd f slicing (length as) d s = Some (Inr (d', s')) \<and> consumed (pending_bytes enc OS heap ts as) s s' \<and>
     has_read f heap OS DD before (ds @ as) (pending_types heap as ts) d' s'"
proof (induction as arbitrary: d s ts ds)
  case Nil
  then show ?case by (simp add: pending_types_def consumed_Nil has_read_def)
next
  case (Cons a as)
  let ?n = "length ds" let ?rest = "pending_bytes enc OS heap (slices_types (heap a) ts) as"
  have x: "?n < length DD" "distinct DD" "set DD = set OS" and a: "DD ! ?n = a" using Cons.prems(2-4) by simp_all
  have "a \<in> set OS" using Cons.prems(2,4) by auto
  then have obj: "known f slicing kind (heap (DD ! ?n))" "object_ok ok (heap (DD ! ?n))" "set (object_handles (heap (DD ! ?n))) \<subseteq> set OS" "length OS < 2 ^ 31"
    using Cons.prems(5) a by (auto simp: sendable_def)
  have d: "decodes OS DD ?n {} d" "all_read ?n d" "read_ids_rel d ts" "length (instances d) = ?n" "length ts \<le> i s" "owes 0 s"
    using Cons.prems(1) by (simp_all add: has_read_def)
  have ah: "ahead (nat_to_le 4 (idx OS (DD ! ?n) + 1) @ slices_bytes enc OS ts (heap (DD ! ?n)) @ ?rest @ ys) post s"
    using Cons.prems(6) a by simp
  from read_instance [where heap = heap, OF d(1-4) x obj d(5) ah d(6)] obtain d1 s1 where
    1: "readInstance10 rd f slicing d s = Some (Inr (d1, s1))" "consumed (nat_to_le 4 (idx OS a + 1) @ slices_bytes enc OS ts (heap a)) s s1"
    "decodes OS DD (Suc ?n) {} d1" "all_read (Suc ?n) d1" "read_ids_rel d1 (slices_types (heap a) ts)" "length (slices_types (heap a) ts) \<le> i s1"
    "instances d1 = instances d @ [received f (heap a)]"
    "handles_of OS DD d1 = handles_of OS DD d + mset (map (received_at DD) (slice_requests ?n 0 (sliced f (heap a))))" unfolding a by blast
  have r1: "has_read f heap OS DD before (ds @ [a]) (slices_types (heap a) ts) d1 s1"
    using 1 Cons.prems(1) consumed_owes [OF 1(2)] by (simp add: has_read_def graph_requests_append)
  have "ahead ((nat_to_le 4 (idx OS a + 1) @ slices_bytes enc OS ts (heap a)) @ ?rest @ ys) post s" using ah a by simp
  from Cons.IH [OF r1 _ Cons.prems(3-5) ahead_consumed [OF this 1(2)]] Cons.prems(2) obtain d' s' where
    "read_instances10 rd f slicing (length as) d1 s1 = Some (Inr (d', s'))" "consumed ?rest s1 s'"
    "has_read f heap OS DD before ((ds @ [a]) @ as) (pending_types heap as (slices_types (heap a) ts)) d' s'" by auto
  then show ?case using 1(1) consumed_trans [OF 1(2)] by (fastforce simp: pending_types_def)
qed

lemma read_sequences:
  "has_read f heap OS DD before ds ts d s \<Longrightarrow> DD = ds @ concat rs \<Longrightarrow> [] \<notin> set rs \<Longrightarrow> distinct DD \<Longrightarrow> set DD = set OS \<Longrightarrow>
   sendable ok kind f slicing heap OS \<Longrightarrow> ahead (sequences_bytes enc OS heap ts rs @ 0 # ys) post s \<Longrightarrow>
   \<exists>ts' d' s'. read_sequences10 rd f slicing d s = Some (Inr (d', s')) \<and> consumed (sequences_bytes enc OS heap ts rs @ [0]) s s' \<and>
     has_read f heap OS DD before DD ts' d' s'"
proof (induction rs arbitrary: d s ts ds)
  case Nil
  have sb: "size_bytes 0 = [0]" by (simp add: size_bytes_def)
  from size_consumes [of 0 ys post s] Nil.prems(1,7) sb obtain s1 where s1: "readSize s = Inr (0, s1)" "consumed [0] s s1"
    by (auto simp: has_read_def)
  moreover have "has_read f heap OS DD before DD ts d s1" using Nil.prems(1,2) s1(2) by (simp add: has_read_def consumed_def)
  moreover have "read_sequences10 rd f slicing d s = Some (Inr (d, s1))" using s1(1) by (subst read_sequences10.simps) simp
  ultimately show ?case by auto
next
  case (Cons r rs)
  let ?rest = "sequences_bytes enc OS heap (pending_types heap r ts) rs"
  have "length DD \<le> length OS" using Cons.prems(4,5) by (metis card_length distinct_card)
  then have "length r \<le> length OS" using Cons.prems(2) by simp
  then have len: "length r < 2 ^ 31" using Cons.prems(6) by (simp add: sendable_def)
  have a: "ahead (size_bytes (length r) @ pending_bytes enc OS heap ts r @ ?rest @ 0 # ys) post s" using Cons.prems(7) by simp
  from size_consumes [OF len a] Cons.prems(1) obtain s1 where s1: "readSize s = Inr (length r, s1)" "consumed (size_bytes (length r)) s s1"
    by (auto simp: has_read_def)
  have r1: "has_read f heap OS DD before ds ts d s1" using Cons.prems(1) s1(2) by (simp add: has_read_def consumed_def)
  have "DD = ds @ r @ concat rs" using Cons.prems(2) by simp
  from read_instances [OF r1 this Cons.prems(4-6) ahead_consumed [OF a s1(2)]] obtain d2 s2 where
    2: "read_instances10 rd f slicing (length r) d s1 = Some (Inr (d2, s2))" "consumed (pending_bytes enc OS heap ts r) s1 s2"
    "has_read f heap OS DD before (ds @ r) (pending_types heap r ts) d2 s2" by blast
  note a2 = ahead_consumed [OF ahead_consumed [OF a s1(2)] 2(2)]
  have "DD = (ds @ r) @ concat rs" "[] \<notin> set rs" using Cons.prems(2,3) by simp_all
  from Cons.IH [OF 2(3) this Cons.prems(4-6) a2] obtain ts' d' s' where
    3: "read_sequences10 rd f slicing d2 s2 = Some (Inr (d', s'))" "consumed (?rest @ [0]) s2 s'" "has_read f heap OS DD before DD ts' d' s'" by blast
  have "r \<noteq> []" using Cons.prems(3) by auto
  then have "read_sequences10 rd f slicing d s = Some (Inr (d', s'))" using s1(1) 2(1) 3(1) by (subst read_sequences10.simps) simp
  then show ?case using 3(3) consumed_trans [OF s1(2) consumed_trans [OF 2(2) 3(2)]] by auto
qed

end

section \<open>The whole exchange\<close>

text \<open>The handles outside of instances: parameters, or members of structures.\<close>

definition root_requests :: "nat \<Rightarrow> nat option list \<Rightarrow> (location \<times> nat option) list" where
  "root_requests k vs = map (\<lambda>(k, v). (Root k, v)) (enumerate k vs)"

definition root_bytes :: "nat list \<Rightarrow> nat option list \<Rightarrow> byte list" where
  "root_bytes OS vs = concat (map (\<lambda>v. nat_to_le 4 (unat (of_int (- handle_index OS v) :: int32))) vs)"

definition graph_bytes :: "('v \<Rightarrow> byte list) \<Rightarrow> (nat \<Rightarrow> 'v object) \<Rightarrow> nat option list \<Rightarrow> nat list list \<Rightarrow> nat list \<Rightarrow> byte list" where
  "graph_bytes enc heap roots rs OS = root_bytes OS roots @ sequences_bytes enc OS heap [] rs @ [0]"

fun root_handles :: "nat option list \<Rightarrow> nat list" where
  "root_handles [] = []"
| "root_handles (None # vs) = root_handles vs"
| "root_handles (Some a # vs) = a # root_handles vs"

lemma handles_roots: "handles (map Handle vs) = root_handles vs"
  by (induction vs rule: root_handles.induct) simp_all

lemma set_root_handles: "set (root_handles (v # vs)) = set_option v \<union> set (root_handles vs)"
  by (cases v) auto

lemma pending_bytes_length: "length as \<le> length (pending_bytes enc OS heap ts as)"
proof (induction as arbitrary: ts)
  case (Cons a as)
  show ?case using Cons.IH [of "slices_types (heap a) ts"] by simp
qed simp

lemma sequences_bytes_length: "length (concat rs) \<le> length (sequences_bytes enc OS heap ts rs)"
proof (induction rs arbitrary: ts)
  case (Cons r rs)
  show ?case using Cons.IH [of "pending_types heap r ts"] pending_bytes_length [of r enc OS heap ts] by simp
qed simp

lemma each_map: "each f (map g xs) = each (\<lambda>x. f (g x)) xs"
proof (induction xs)
  case (Cons x xs)
  then show ?case by (intro ext) simp
qed (simp add: fun_eq_iff)

lemma read_roots:
  "decodes OS DD 0 {} d \<Longrightarrow> set (root_handles vs) \<subseteq> set OS \<Longrightarrow> length OS < 2 ^ 31 \<Longrightarrow> ahead (root_bytes OS vs @ ys) post s \<Longrightarrow> owes 0 s \<Longrightarrow>
   \<exists>d' s'. each (\<lambda>k. dec10_read (Root k)) [k..<k + length vs] d s = Inr (d', s') \<and> consumed (root_bytes OS vs) s s' \<and>
     decodes OS DD 0 {} d' \<and> handles_of OS DD d' = handles_of OS DD d + mset (map (received_at DD) (root_requests k vs)) \<and> keeps_posted d d' \<and>
     instances d' = instances d \<and> (\<forall>ts. read_ids_rel d ts \<longrightarrow> read_ids_rel d' ts)"
proof (induction vs arbitrary: d s k)
  case Nil
  then show ?case by (simp add: root_bytes_def root_requests_def consumed_Nil keeps_posted_def)
next
  case (Cons v vs)
  have v: "a \<in> set OS" if "v = Some a" for a using Cons.prems(2) that by simp
  have vs: "set (root_handles vs) \<subseteq> set OS" using Cons.prems(2) by (simp add: set_root_handles)
  have a: "ahead (nat_to_le 4 (unat (of_int (- handle_index OS v) :: int32)) @ root_bytes OS vs @ ys) post s"
    using Cons.prems(4) by (simp add: root_bytes_def)
  from dec10_read_handle [where loc = "Root k", OF Cons.prems(1) v Cons.prems(3) a Cons.prems(5)] obtain d1 s1 where
    1: "dec10_read (Root k) d s = Inr (d1, s1)" "consumed (nat_to_le 4 (unat (of_int (- handle_index OS v) :: int32))) s s1" "decodes OS DD 0 {} d1"
    "handles_of OS DD d1 = add_mset (received_at DD (Root k, v)) (handles_of OS DD d)" "keeps_posted d d1" "instances d1 = instances d"
    "\<forall>ts. read_ids_rel d ts \<longrightarrow> read_ids_rel d1 ts" by blast
  from Cons.IH [OF 1(3) vs Cons.prems(3) ahead_consumed [OF a 1(2)] consumed_owes [OF 1(2)], of "Suc k"] obtain d' s' where
    2: "each (\<lambda>k. dec10_read (Root k)) [Suc k..<Suc k + length vs] d1 s1 = Inr (d', s')" "consumed (root_bytes OS vs) s1 s'"
    "decodes OS DD 0 {} d'" "handles_of OS DD d' = handles_of OS DD d1 + mset (map (received_at DD) (root_requests (Suc k) vs))" "keeps_posted d1 d'"
    "instances d' = instances d1" "\<forall>ts. read_ids_rel d1 ts \<longrightarrow> read_ids_rel d' ts" by blast
  have "[k..<k + length (v # vs)] = k # [Suc k..<Suc k + length vs]" by (subst upt_conv_Cons) simp_all
  then have "each (\<lambda>k. dec10_read (Root k)) [k..<k + length (v # vs)] d s = Inr (d', s')" using 1(1) 2(1) by simp
  then show ?case using 1 2 consumed_trans [OF 1(2) 2(2)] keeps_posted_trans [OF 1(5) 2(5)] by (simp add: root_bytes_def root_requests_def)
qed

context plain_types
begin

lemma write_graph:
  assumes g: "sequences heap (fold add_new (root_handles roots) []) 0 rs OS" and ok: "\<And>a. a \<in> set OS \<Longrightarrow> object_ok ok (heap a)"
    and fits: "fits (graph_bytes enc heap roots rs OS) s" and c: "stringConverter s = None"
  shows "\<exists>e1 s1 e2. each enc10_write roots encoder10_new s = Inr (e1, s1) \<and>
    enc10_writePendingObjects wr heap e1 s1 = Some (Inr (e2, s\<lparr>b := b s @ graph_bytes enc heap roots rs OS\<rparr>))"
proof -
  let ?os = "fold add_new (root_handles roots) []" and ?ms = "map Handle roots :: 'v field list"
  have d: "distinct ?os" by (simp add: fold_add_new)
  have pre: "prefix ?os OS" using sequences_props [OF g d] by blast
  have rb: "concat (map (field_bytes enc OS) ?ms) = root_bytes OS roots" by (simp add: root_bytes_def field_bytes_def o_def)
  let ?s1 = "s\<lparr>b := b s @ root_bytes OS roots\<rparr>"
  have "encodes_at encoder10_new s [] [] 0" using encodes_new c by (simp add: encodes_at_def)
  moreover have "list_all (field_ok ok) ?ms" by (simp add: list_all_iff field_ok_def)
  moreover have "fits (concat (map (field_bytes enc OS) ?ms)) s" unfolding rb using fits by (auto simp: graph_bytes_def)
  ultimately obtain e1 where e1: "each (write_member10 wr) ?ms encoder10_new s = Inr (e1, ?s1)" "encodes_at e1 ?s1 [] ?os 0"
    using write_fields_bytes [of encoder10_new s "[]" "[]" 0 ?ms OS] pre rb by (auto simp: handles_roots)
  then have w: "each enc10_write roots encoder10_new s = Inr (e1, ?s1)" by (simp add: each_map write_member10_def)
  have "fits (sequences_bytes enc OS heap [] rs) ?s1" using fits by (auto simp: graph_bytes_def)
  from pending_loop_bytes [OF g e1(2) d ok this] obtain e2 where
    e2: "pending_loop wr heap e1 ?s1 = Some (Inr (e2, ?s1\<lparr>b := b ?s1 @ sequences_bytes enc OS heap [] rs\<rparr>))" by blast
  have "writeSize 0 t = Inr (t\<lparr>b := b t @ [0]\<rparr>)" for t by (simp add: writeSize_def writeByte_def)
  then have "enc10_writePendingObjects wr heap e1 ?s1 = Some (Inr (e2, s\<lparr>b := b s @ graph_bytes enc heap roots rs OS\<rparr>))"
    using e2 by (simp add: enc10_writePendingObjects_def on_stream_def graph_bytes_def)
  then show ?thesis using w by blast
qed

lemma read_graph:
  assumes x: "distinct (concat rs)" "set (concat rs) = set OS" "[] \<notin> set rs" and snd: "sendable ok kind f slicing heap OS"
    and r: "set (root_handles roots) \<subseteq> set OS" and a: "ahead (graph_bytes enc heap roots rs OS) post s" and o: "owes 0 s"
  shows "\<exists>d1 s1 d2 s2. each (\<lambda>k. dec10_read (Root k)) [0..<length roots] decoder10_new s = Inr (d1, s1) \<and>
    dec10_readPendingObjects rd f slicing d1 s1 = Some (Inr (d2, s2)) \<and> consumed (graph_bytes enc heap roots rs OS) s s2 \<and>
    instances d2 = map (\<lambda>a. received f (heap a)) (concat rs) \<and> posted d2 = [0..<length (concat rs)] \<and>
    mset (patched d2) = mset (map (received_at (concat rs)) (root_requests 0 roots @ graph_requests f heap 0 (concat rs)))"
proof -
  let ?DD = "concat rs" and ?new = "decoder10_new :: 'v decoder10" and ?seq = "sequences_bytes enc OS heap [] rs"
  have a0: "ahead (root_bytes OS roots @ ?seq @ [0]) post s" and l: "length OS < 2 ^ 31" using a snd by (simp_all add: graph_bytes_def sendable_def)
  have new: "decodes OS ?DD 0 {} ?new" "read_ids_rel ?new []"
    "handles_of OS ?DD ?new = {#}"
    by (rule decoder_new_decodes)+
  from read_roots [where k = 0, OF new(1) r l a0 o] obtain d1 s1 where
    1: "each (\<lambda>k. dec10_read (Root k)) [0..<0 + length roots] ?new s = Inr (d1, s1)" "consumed (root_bytes OS roots) s s1"
    "decodes OS ?DD 0 {} d1" "handles_of OS ?DD d1 = handles_of OS ?DD ?new + mset (map (received_at ?DD) (root_requests 0 roots))"
    "keeps_posted ?new d1" "instances d1 = instances ?new" "\<forall>ts. read_ids_rel ?new ts \<longrightarrow> read_ids_rel d1 ts" by blast
  have n: "all_read 0 ?new" "instances ?new = []" by (simp_all add: all_read_def decoder10_new_def decoder_new_def decoder.defs)
  have h: "has_read f heap OS ?DD (root_requests 0 roots) [] [] d1 s1"
    using 1 new(2,3) n all_read_keeps [OF n(1) 1(5)] consumed_owes [OF 1(2)] by (simp add: has_read_def)
  from read_sequences [OF h _ x(3,1,2) snd, of "[]" post] ahead_consumed [OF a0 1(2)] obtain ts' d2 s2 where
    2: "read_sequences10 rd f slicing d1 s1 = Some (Inr (d2, s2))" "consumed (?seq @ [0]) s1 s2"
    "has_read f heap OS ?DD (root_requests 0 roots) ?DD ts' d2 s2" by auto
  have "smap_find (patchMap d2) z = None" for z
    using 2(3) x(2) by (cases "smap_find (patchMap d2) z") (auto simp: has_read_def decodes_def)
  then have pm: "patchMap d2 = []" by (metis map_of_eq_empty_iff)
  then have "dec10_readPendingObjects rd f slicing d1 s1 = Some (Inr (d2, s2))" using 2(1) by (simp add: dec10_readPendingObjects_def)
  moreover have "posted d2 = [0..<length ?DD]" "handles_of OS ?DD d2 = mset (patched d2)"
    using 2(3) pm by (auto simp: has_read_def all_read_def handles_of_def waiting_def)
  moreover have "consumed (graph_bytes enc heap roots rs OS) s s2" using consumed_trans [OF 1(2) 2(2)] by (simp add: graph_bytes_def)
  ultimately show ?thesis using 1(1) 2(3) by (auto simp: has_read_def)
qed

end

section \<open>Members of type int and string\<close>

datatype basic_value = IntValue int32 | StringValue string

datatype plain_type = IntType | StringType

fun plain_kind :: "basic_value \<Rightarrow> plain_type" where
  "plain_kind (IntValue v) = IntType"
| "plain_kind (StringValue v) = StringType"

fun plain_ok :: "basic_value \<Rightarrow> bool" where
  "plain_ok (IntValue v) = True"
| "plain_ok (StringValue v) = (length v < 2 ^ 31)"

fun write_plain :: "basic_value \<Rightarrow> writer" where
  "write_plain (IntValue v) = writeInt v"
| "write_plain (StringValue v) = writeString True v"

fun read_plain :: "plain_type \<Rightarrow> basic_value reader" where
  "read_plain IntType s = bindS (readInt s) (\<lambda>v s1. Inr (IntValue v, s1))"
| "read_plain StringType s = bindS (readString True s) (\<lambda>v s1. Inr (StringValue v, s1))"

fun plain_bytes :: "basic_value \<Rightarrow> byte list" where
  "plain_bytes (IntValue v) = nat_to_le 4 (unat v)"
| "plain_bytes (StringValue v) = string_bytes v"

fun plain_min :: "plain_type \<Rightarrow> nat" where
  "plain_min IntType = 4"
| "plain_min StringType = 1"

interpretation int_and_string: plain_types plain_ok plain_kind write_plain read_plain plain_bytes plain_min
proof
  fix t v s post d
  assume v: "plain_ok v \<and> plain_kind v = t"
  show "plain_min t \<le> length (plain_bytes v)"
    using v string_codec.enc_min by (cases v) auto
  show "write_plain v s = appended (plain_bytes v) s" if "stringConverter s = None" "room (length (plain_bytes v)) s"
    using v that int_codec.wr_enc string_codec.wr_enc by (cases v) auto
  assume a: "ahead (plain_bytes v) post s" "owes (plain_min t + d) s" "d \<le> length post"
  show "\<exists>s'. read_plain t s = Inr (v, s') \<and> frame s s' \<and> i s' = i s + length (plain_bytes v) \<and> owes d s'"
  proof (cases v)
    case (IntValue n)
    then have "\<exists>s'. readInt s = Inr (n, s') \<and> frame s s' \<and> i s' = i s + length (nat_to_le 4 (unat n)) \<and> owes d s'"
      using int_codec.rd_enc [of n post s d] a v by auto
    then show ?thesis using v IntValue by auto
  next
    case (StringValue n)
    then have "\<exists>s'. readString True s = Inr (n, s') \<and> frame s s' \<and> i s' = i s + length (string_bytes n) \<and> owes d s'"
      using string_codec.rd_enc [of n post s d True] a v by auto
    then show ?thesis using v StringValue by auto
  qed
qed

section \<open>Properties\<close>

text \<open>
  C8. A graph of class instances, with sharing and cycles, survives the 1.0 encoding: when the handles \<open>roots\<close> have been written, the loop over the pending
  instances ends, and a receiver that knows the classes, or, with slicing, a base of each, reads the roots, ends its own loop at the end of the
  bytes, and has each instance once, with its plain members, and each handle of the roots and of the instances stored once, with the
  instance that stands for its target; \<^verbatim>\<open>ice_postUnmarshal\<close> has been called for each instance once. \<open>sequences\<close> holds for some \<open>rs\<close> and \<open>OS\<close>
  if the graph is finite (\<open>sequences_exist\<close>).
\<close>

theorem class_graph_roundtrip10:
  assumes types: "plain_types ok kind wr rd enc mw"
    and graph: "sequences heap (fold add_new (root_handles roots) []) 0 rs OS"
    and objects: "\<And>a. a \<in> set OS \<Longrightarrow> object_ok ok (heap a) \<and> known f slicing kind (heap a)"
    and room: "fits (graph_bytes enc heap roots rs OS) s" and s: "stringConverter s = None" "startSeq s = -1"
  shows "\<exists>e1 s1 e2 s2 d1 s3 d2 s4.
    each enc10_write roots encoder10_new s = Inr (e1, s1) \<and> enc10_writePendingObjects wr heap e1 s1 = Some (Inr (e2, s2)) \<and>
    each (\<lambda>k. dec10_read (Root k)) [0..<length roots] decoder10_new (s2\<lparr>i := length (b s)\<rparr>) = Inr (d1, s3) \<and>
    dec10_readPendingObjects rd f slicing d1 s3 = Some (Inr (d2, s4)) \<and> i s4 = length (b s4) \<and>
    distinct (concat rs) \<and> set (concat rs) = set OS \<and>
    instances d2 = map (\<lambda>a. received f (heap a)) (concat rs) \<and> posted d2 = [0..<length (concat rs)] \<and>
    mset (patched d2) = mset (map (received_at (concat rs)) (root_requests 0 roots @ graph_requests f heap 0 (concat rs)))"
proof -
  let ?os = "fold add_new (root_handles roots) []" and ?bs = "graph_bytes enc heap roots rs OS"
  have d: "distinct ?os" by (simp add: fold_add_new)
  note p = sequences_props [OF graph d]
  then have x: "distinct (concat rs)" "set (concat rs) = set OS" "[] \<notin> set rs" "prefix ?os OS" "distinct OS"
    and h: "\<forall>a \<in> set (concat rs). set (object_handles (heap a)) \<subseteq> set OS" by (simp_all del: set_concat)
  from plain_types.write_graph [OF types graph _ room s(1)] objects obtain e1 s1 e2 where
    w: "each enc10_write roots encoder10_new s = Inr (e1, s1)" "enc10_writePendingObjects wr heap e1 s1 = Some (Inr (e2, s\<lparr>b := b s @ ?bs\<rparr>))"
    by blast
  let ?s = "s\<lparr>b := b s @ ?bs\<rparr>\<lparr>i := length (b s)\<rparr>"
  have "length OS = length (concat rs)" using x(1,2,5) by (metis distinct_card)
  then have len: "length OS < 2 ^ 31" using sequences_bytes_length [of rs enc OS heap "[]"] room by (simp add: graph_bytes_def)
  have "sendable ok kind f slicing heap OS" using objects h x(2) len by (simp del: set_concat add: sendable_def)
  moreover have "set (root_handles roots) \<subseteq> set OS" using set_mono_prefix [OF x(4)] by (simp add: fold_add_new)
  moreover have "ahead ?bs [] ?s" "owes 0 ?s" using room s by (simp_all add: ahead_def owes_def)
  ultimately obtain d1 s3 d2 s4 where
    r: "each (\<lambda>k. dec10_read (Root k)) [0..<length roots] decoder10_new ?s = Inr (d1, s3)"
    "dec10_readPendingObjects rd f slicing d1 s3 = Some (Inr (d2, s4))" "consumed ?bs ?s s4"
    "instances d2 = map (\<lambda>a. received f (heap a)) (concat rs)" "posted d2 = [0..<length (concat rs)]"
    "mset (patched d2) = mset (map (received_at (concat rs)) (root_requests 0 roots @ graph_requests f heap 0 (concat rs)))"
    using plain_types.read_graph [OF types x(1-3)] by blast
  have "i s4 = length (b s4)" using r(3) by (auto simp: consumed_def dest: frameD)
  then show ?thesis using w r x(1,2) by blast
qed

text \<open>Two instances that refer to each other; the receiver knows the base of the first one only.\<close>

definition pair_heap :: "nat \<Rightarrow> basic_value object" where
  "pair_heap a = (if a = 0 then [(''::Named'', [Plain (StringValue ''ice'')]), (''::Node'', [Plain (IntValue 7), Handle (Some 1)])]
     else [(''::Node'', [Plain (IntValue 8), Handle (Some 0)])])"

definition node_factory :: "plain_type factories" where
  "node_factory = \<lparr>findFactory = (\<lambda>t. if t = ''::Node'' then Some (\<lambda>_. Some [[PlainKind IntType, HandleKind]]) else None), staticFactory = (\<lambda>_. None)\<rparr>"

theorem class_graph_roundtrip10_witness:
  "\<exists>e1 s1 e2 s2 d1 s3 d2 s4.
    each enc10_write [Some 0, None, Some 0] encoder10_new (BasicStream_new X86 1024 None no_wconv Encoding_1_0 False) = Inr (e1, s1) \<and>
    enc10_writePendingObjects write_plain pair_heap e1 s1 = Some (Inr (e2, s2)) \<and>
    each (\<lambda>k. dec10_read (Root k)) [0..<3] decoder10_new (s2\<lparr>i := 0\<rparr>) = Inr (d1, s3) \<and>
    dec10_readPendingObjects read_plain node_factory True d1 s3 = Some (Inr (d2, s4)) \<and>
    instances d2 = [(''::Node'', [[IntValue 7]]), (''::Node'', [[IntValue 8]])] \<and> posted d2 = [0, 1] \<and>
    mset (patched d2) = {#(Root 0, Some 0), (Root 1, None), (Root 2, Some 0), (Member 0 0 1, Some 1), (Member 1 0 1, Some 0)#}"
proof -
  let ?s = "BasicStream_new X86 1024 None no_wconv Encoding_1_0 False" and ?roots = "[Some 0, None, Some 0] :: nat option list"
  have g: "sequences pair_heap (fold add_new (root_handles ?roots) []) 0 [[0], [1]] [0, 1]"
    by (simp add: sequences_steps add_new_def object_handles_def pair_heap_def)
  have k: "object_ok plain_ok (pair_heap a) \<and> known node_factory True plain_kind (pair_heap a)" if "a \<in> set [0, 1 :: nat]" for a
    using that by (auto simp: pair_heap_def object_ok_def field_ok_def known_def sliced_def node_factory_def newInstance_def layout_of_def kind_of_def ice_staticId_def)
  have "length (graph_bytes plain_bytes pair_heap ?roots [[0], [1]] [0, 1]) < 200"
    by (simp add: graph_bytes_def root_bytes_def pair_heap_def slices_types_def type_bytes_def sized_def size_bytes_def string_bytes_def
        ice_staticId_def add_new_def idx_def pending_types_def field_bytes_def)
  then have f: "fits (graph_bytes plain_bytes pair_heap ?roots [[0], [1]] [0, 1]) ?s" by (simp add: BasicStream_new_def)
  have c: "stringConverter ?s = None" "startSeq ?s = -1" "b ?s = []" by (simp_all add: BasicStream_new_def)
  have r: "map (\<lambda>a. received node_factory (pair_heap a)) [0, 1] = [(''::Node'', [[IntValue 7]]), (''::Node'', [[IntValue 8]])]"
    "map (received_at [0, 1]) (root_requests 0 ?roots @ graph_requests node_factory pair_heap 0 [0, 1]) =
      [(Root 0, Some 0), (Root 1, None), (Root 2, Some 0), (Member 0 0 1, Some 1), (Member 1 0 1, Some 0)]"
    by (simp_all add: received_def received_at_def root_requests_def sliced_def pair_heap_def node_factory_def newInstance_def idx_def numeral_2_eq_2)
  from class_graph_roundtrip10 [OF int_and_string.plain_types_axioms g k f c(1,2)] obtain e1 s1 e2 s2 d1 s3 d2 s4 where
    q: "each enc10_write ?roots encoder10_new ?s = Inr (e1, s1)" "enc10_writePendingObjects write_plain pair_heap e1 s1 = Some (Inr (e2, s2))"
    "each (\<lambda>k. dec10_read (Root k)) [0..<length ?roots] decoder10_new (s2\<lparr>i := length (b ?s)\<rparr>) = Inr (d1, s3)"
    "dec10_readPendingObjects read_plain node_factory True d1 s3 = Some (Inr (d2, s4))"
    "instances d2 = map (\<lambda>a. received node_factory (pair_heap a)) (concat [[0], [1]])" "posted d2 = [0..<length (concat [[0 :: nat], [1]])]"
    "mset (patched d2) = mset (map (received_at (concat [[0], [1]])) (root_requests 0 ?roots @ graph_requests node_factory pair_heap 0 (concat [[0], [1]])))"
    by blast
  have e: "concat [[0], [1]] = [0, 1 :: nat]" "length ?roots = 3" "length (b ?s) = 0" "[0..<length [0 :: nat, 1]] = [0, 1]"
    using c(3) by (simp_all add: upt_rec)
  note q' = q [unfolded e, unfolded r]
  show ?thesis using q'(7)
    by (intro exI [of _ e1] exI [of _ s1] exI [of _ e2] exI [of _ s2] exI [of _ d1] exI [of _ s3] exI [of _ d2] exI [of _ s4] conjI q'(1-5) q'(6) [unfolded e]) simp
qed

text \<open>
  A handle on the wire is the negative index of its instance, and \<^verbatim>\<open>EncapsDecoder10::read\<close> negates it: for the smallest integer, which any peer
  can send, the negation overflows an \<^verbatim>\<open>Ice::Int\<close>.
\<close>

theorem dec10_read_overflow:
  "dec10_read loc d (BasicStream_view X86 1024 None no_wconv Encoding_1_0 [0, 0, 0, 0x80]) = Inl CxxUndefined"
  by (simp add: dec10_read_def BasicStream_view_def BasicStream_new_def read_num_eq int_ok_def)

end
