(* ===== verification/Endpoints.thy ===== *)
theory Endpoints
  imports Base64 StreamEncaps
begin

text \<open>
  Endpoints as text and on a stream: \<^verbatim>\<open>EndpointFactoryManager.cpp\<close>, which finds the factory of an endpoint, and
  \<^verbatim>\<open>OpaqueEndpointI.cpp\<close>, the endpoints of types that no factory knows. What the factories make of their endpoints
  is a parameter.
\<close>

section \<open>Opaque endpoints\<close>

text \<open>The messages of \<^verbatim>\<open>EndpointParseException\<close>, and what the code called from here can throw.\<close>

datatype endpoint_error =
    NoCharacters
  | ExpectedOption string
  | NoArgument char
  | InvalidType string
  | TypeOutOfRange string
  | MultipleOptions char
  | InvalidBase64 char
  | InvalidEncoding version_parse_error
  | InvalidOption string
  | MissingOption char
  | FactoryError string
  | EndpointStreamError stream_error

definition is_delim :: "char \<Rightarrow> bool" where
  "is_delim c \<longleftrightarrow> c = SPACE \<or> c = HTAB \<or> c = NEWLN \<or> c = CARRET"

record opaque =
  opaqueType :: int16
  rawEncoding :: version
  rawBytes :: "byte list"

text \<open>The constructor from a string, with the counters of its two mandatory options.\<close>

record opaque_options = opaque +
  topt :: nat
  vopt :: nat

definition opaque_option :: "char \<Rightarrow> string \<Rightarrow> string \<Rightarrow> opaque_options \<Rightarrow> endpoint_error + opaque_options" where
  "opaque_option opt option argument p =
     (if opt = CHR ''t'' then
        (if argument = [] then Inl (NoArgument opt)
         else
           (case istream_int argument of
              Some (t, True) \<Rightarrow>
                if t < 0 \<or> t > 65535 then Inl (TypeOutOfRange argument)
                else if topt p + 1 > 1 then Inl (MultipleOptions opt)
                else Inr (p\<lparr>opaqueType := of_int t, topt := topt p + 1\<rparr>)
            | _ \<Rightarrow> Inl (InvalidType argument)))
      else if opt = CHR ''v'' then
        (if argument = [] then Inl (NoArgument opt)
         else
           (case find_from (\<lambda>c. \<not> isBase64 c) argument 0 of
              Some k \<Rightarrow> Inl (InvalidBase64 (argument ! k))
            | None \<Rightarrow>
                if vopt p + 1 > 1 then Inl (MultipleOptions opt)
                else Inr (p\<lparr>rawBytes := decode argument, vopt := vopt p + 1\<rparr>)))
      else if opt = CHR ''e'' then
        (if argument = [] then Inl (NoArgument opt)
         else (case stringToVersion argument of Inl e \<Rightarrow> Inl (InvalidEncoding e) | Inr v \<Rightarrow> Inr (p\<lparr>rawEncoding := v\<rparr>)))
      else Inl (InvalidOption option))"

text \<open>The end of a word that starts at \<open>beg\<close>.\<close>

definition word_end :: "(char \<Rightarrow> bool) \<Rightarrow> string \<Rightarrow> nat \<Rightarrow> nat" where
  "word_end stop s beg = (case find_from stop s beg of None \<Rightarrow> length s | Some k \<Rightarrow> k)"

definition opaque_argument :: "string \<Rightarrow> nat \<Rightarrow> string \<times> nat" where
  "opaque_argument str end1 =
     (case find_from (\<lambda>c. \<not> is_delim c) str end1 of
        Some k \<Rightarrow> if str ! k \<noteq> CHR ''-'' then (substr str k (word_end is_delim str k - k), word_end is_delim str k) else ([], end1)
      | None \<Rightarrow> ([], end1))"

lemma word_end_ge: "beg \<le> length s \<Longrightarrow> beg \<le> word_end stop s beg \<and> word_end stop s beg \<le> length s"
  by (auto simp: word_end_def dest: find_from_Some split: option.splits)

lemma word_end_greater: "beg < length s \<Longrightarrow> \<not> stop (s ! beg) \<Longrightarrow> beg < word_end stop s beg"
  using find_from_Some [of stop s beg] by (auto simp: word_end_def split: option.splits) (metis le_neq_implies_less)

lemma opaque_argument_ge:
  assumes "end1 \<le> length str" shows "end1 \<le> snd (opaque_argument str end1) \<and> snd (opaque_argument str end1) \<le> length str"
proof (cases "find_from (\<lambda>c. \<not> is_delim c) str end1")
  case (Some k)
  then have "end1 \<le> k" "k < length str" using find_from_Some by blast+
  then show ?thesis using word_end_ge [of k str is_delim] Some assms by (simp add: opaque_argument_def)
qed (use assms in \<open>simp add: opaque_argument_def\<close>)

function opaque_loop :: "string \<Rightarrow> nat \<Rightarrow> opaque_options \<Rightarrow> endpoint_error + opaque_options" where
  "opaque_loop str end0 p =
     (case find_from (\<lambda>c. \<not> is_delim c) str end0 of
        None \<Rightarrow> Inr p
      | Some beg \<Rightarrow>
          (let end1 = word_end is_delim str beg;
               option = substr str beg (end1 - beg);
               arg = opaque_argument str end1
           in if length option \<noteq> 2 \<or> option ! 0 \<noteq> CHR ''-'' then Inl (ExpectedOption option)
              else
                (case opaque_option (option ! 1) option (fst arg) p of
                   Inl e \<Rightarrow> Inl e
                 | Inr p1 \<Rightarrow> opaque_loop str (snd arg) p1)))"
  by pat_completeness auto
termination
proof (relation "measure (\<lambda>(str, end0, p). length str - end0)", simp, clarsimp)
  fix str end0 beg
  assume "find_from (\<lambda>c. \<not> is_delim c) str end0 = Some beg"
  from find_from_Some [OF this] have b: "end0 \<le> beg" "beg < length str" "\<not> is_delim (str ! beg)" by auto
  then show "length str - snd (opaque_argument str (word_end is_delim str beg)) < length str - end0"
    using word_end_greater [of beg str is_delim] word_end_ge [of beg str is_delim] opaque_argument_ge [of "word_end is_delim str beg" str]
    by fastforce
qed

declare opaque_loop.simps [simp del]

definition opaque_new :: "string \<Rightarrow> endpoint_error + opaque" where
  "opaque_new str =
     bindE (opaque_loop str 0 \<lparr>opaqueType = 0, rawEncoding = Encoding_1_0, rawBytes = [], topt = 0, vopt = 0\<rparr>) (\<lambda>p.
     if topt p \<noteq> 1 then Inl (MissingOption CHR ''t'')
     else if vopt p \<noteq> 1 then Inl (MissingOption CHR ''v'')
     else Inr (opaque.truncate p))"

text \<open>Formatted output of a \<^verbatim>\<open>short\<close>.\<close>

definition short_string :: "int16 \<Rightarrow> string" where
  "short_string v = (if sint v < 0 then CHR ''-'' # dec_string (nat (- sint v)) else dec_string (nat (sint v)))"

definition opaque_toString :: "opaque \<Rightarrow> string" where
  "opaque_toString e =
     ''opaque -t '' @ short_string (opaqueType e) @ '' -e '' @ versionToString (rawEncoding e) @ '' -v '' @ encode (rawBytes e)"

definition opaque_streamWrite :: "opaque \<Rightarrow> writer" where
  "opaque_streamWrite e s =
     bindE (writeShort (opaqueType e) s) (\<lambda>s1.
     bindE (startWriteEncaps (rawEncoding e) DefaultFormat s1) (\<lambda>s2.
     bindE (writeBlob (rawBytes e) s2) endWriteEncaps))"

text \<open>The constructor from a stream; \<open>readClass\<close> is what \<open>endReadEncaps\<close> does with class instances among unread optional members.\<close>

definition opaque_read :: "writer \<Rightarrow> int16 \<Rightarrow> stream \<Rightarrow> (stream_error + opaque \<times> stream) option" where
  "opaque_read readClass t s =
     (case bindS (startReadEncaps s) (\<lambda>v s1. bindE (getReadEncapsSize s1) (\<lambda>sz. bindS (readBlob sz s1) (\<lambda>bytes s2. Inr ((v, bytes), s2)))) of
        Inl e \<Rightarrow> Some (Inl e)
      | Inr ((v, bytes), s2) \<Rightarrow>
          map_option (\<lambda>r. bindE r (\<lambda>s3. Inr (\<lparr>opaqueType = t, rawEncoding = v, rawBytes = bytes\<rparr>, s3))) (endReadEncaps readClass s2))"

section \<open>Factories\<close>

record 'e factory =
  ftype :: int16
  fprotocol :: string
  fcreate :: "string \<Rightarrow> bool \<Rightarrow> endpoint_error + 'e"
  fread :: "stream \<Rightarrow> (stream_error + 'e \<times> stream) option"

datatype 'e endpoint = Known 'e | Opaque opaque

definition efm_add :: "'e factory \<Rightarrow> 'e factory list \<Rightarrow> 'e factory list option" where
  "efm_add f fs = (if \<exists>g \<in> set fs. ftype g = ftype f then None else Some (fs @ [f]))"

definition efm_get :: "int16 \<Rightarrow> 'e factory list \<Rightarrow> 'e factory option" where
  "efm_get t fs = find (\<lambda>f. ftype f = t) fs"

text \<open>The search by protocol does not stop at the first match.\<close>

definition efm_find_protocol :: "string \<Rightarrow> 'e factory list \<Rightarrow> 'e factory option" where
  "efm_find_protocol p fs = fold (\<lambda>f r. if fprotocol f = p then Some f else r) fs None"

text \<open>The temporary stream of \<open>efm_create\<close> is \<open>tmp\<close>: new and empty.\<close>

definition efm_read_opaque :: "stream \<Rightarrow> 'e factory \<Rightarrow> opaque \<Rightarrow> (endpoint_error + 'e) option" where
  "efm_read_opaque tmp f ue =
     (case bindE (opaque_streamWrite ue tmp) (\<lambda>s. bindS (readShort (s\<lparr>i := 0\<rparr>)) (\<lambda>t s1. Inr s1)) of
        Inl e \<Rightarrow> Some (Inl (EndpointStreamError e))
      | Inr s1 \<Rightarrow> map_option (\<lambda>r. case r of Inl e \<Rightarrow> Inl (EndpointStreamError e) | Inr (e, s2) \<Rightarrow> Inr e) (fread f s1))"

definition efm_create :: "stream \<Rightarrow> string \<Rightarrow> 'e factory list \<Rightarrow> string \<Rightarrow> bool \<Rightarrow> (endpoint_error + 'e endpoint option) option" where
  "efm_create tmp defaultProtocol fs str oaEndpoint =
     (case find_from (\<lambda>c. \<not> is_delim c) str 0 of
        None \<Rightarrow> Some (Inl NoCharacters)
      | Some beg \<Rightarrow>
          (let end0 = word_end is_delim str beg;
               word = substr str beg (end0 - beg);
               protocol = (if word = ''default'' then defaultProtocol else word)
           in case efm_find_protocol protocol fs of
                Some f \<Rightarrow> Some (bindE (fcreate f (drop end0 str) oaEndpoint) (\<lambda>e. Inr (Some (Known e))))
              | None \<Rightarrow>
                  if protocol = ''opaque'' then
                    (case opaque_new (drop end0 str) of
                       Inl e \<Rightarrow> Some (Inl e)
                     | Inr ue \<Rightarrow>
                         (case efm_get (opaqueType ue) fs of
                            Some f \<Rightarrow> map_option (\<lambda>r. bindE r (\<lambda>e. Inr (Some (Known e)))) (efm_read_opaque tmp f ue)
                          | None \<Rightarrow> Some (Inr (Some (Opaque ue)))))
                  else Some (Inr None)))"

definition efm_read :: "writer \<Rightarrow> 'e factory list \<Rightarrow> stream \<Rightarrow> (stream_error + 'e endpoint \<times> stream) option" where
  "efm_read readClass fs s =
     (case readShort s of
        Inl e \<Rightarrow> Some (Inl e)
      | Inr (t, s1) \<Rightarrow>
          (case efm_get t fs of
             Some f \<Rightarrow> map_option (\<lambda>r. bindS r (\<lambda>e s2. Inr (Known e, s2))) (fread f s1)
           | None \<Rightarrow> map_option (\<lambda>r. bindS r (\<lambda>e s2. Inr (Opaque e, s2))) (opaque_read readClass t s1)))"

section \<open>Words in a string\<close>

lemma find_at:
  assumes "\<forall>c \<in> set xs. \<not> P c" "P y" shows "find_from P (pre @ xs @ y # rest) (length pre) = Some (length pre + length xs)"
proof (rule find_from_eqI)
  fix j assume "length pre \<le> j" "j < length pre + length xs"
  then obtain k where k: "j = length pre + k" "k < length xs" using le_Suc_ex by fastforce
  then have "(pre @ xs @ y # rest) ! j = xs ! k" by (simp add: nth_append)
  moreover have "xs ! k \<in> set xs" using k by simp
  ultimately show "\<not> P ((pre @ xs @ y # rest) ! j)" using assms(1) by simp
qed (use assms(2) in \<open>simp_all add: nth_append\<close>)

lemma find_nowhere: "\<forall>c \<in> set xs. \<not> P c \<Longrightarrow> find_from P (pre @ xs) (length pre) = None"
  by (auto simp: find_from_None nth_append)

text \<open>What follows a word is the end or a stop character.\<close>

definition stops :: "(char \<Rightarrow> bool) \<Rightarrow> string \<Rightarrow> bool" where
  "stops stop rest \<longleftrightarrow> rest = [] \<or> stop (hd rest)"

lemma word_end_at: "\<forall>c \<in> set w. \<not> stop c \<Longrightarrow> stops stop rest \<Longrightarrow> word_end stop (pre @ w @ rest) (length pre) = length pre + length w"
  using find_at [of w stop _ pre] find_nowhere [of w stop pre] by (cases rest) (auto simp: word_end_def stops_def)

lemma substr_at: "length w = n \<Longrightarrow> substr (pre @ w @ rest) (length pre) n = w"
  by (simp add: substr_def)

text \<open>An option with an argument, and one without.\<close>

lemma opaque_loop_option:
  assumes o: "\<not> is_delim opt" and arg: "arg \<noteq> []" "\<forall>c \<in> set arg. \<not> is_delim c" "hd arg \<noteq> CHR ''-''" and rest: "stops is_delim rest"
  shows "opaque_loop (pre @ [SPACE, CHR ''-'', opt, SPACE] @ arg @ rest) (length pre) p =
    (case opaque_option opt [CHR ''-'', opt] arg p of
       Inl e \<Rightarrow> Inl e
     | Inr p1 \<Rightarrow> opaque_loop ((pre @ [SPACE, CHR ''-'', opt, SPACE] @ arg) @ rest) (length (pre @ [SPACE, CHR ''-'', opt, SPACE] @ arg)) p1)"
proof -
  let ?s = "pre @ [SPACE, CHR ''-'', opt, SPACE] @ arg @ rest"
  have d: "is_delim SPACE" "\<not> is_delim CHR ''-''" by (simp_all add: is_delim_def)
  have 1: "find_from (\<lambda>c. \<not> is_delim c) ?s (length pre) = Some (length pre + 1)"
    using find_at [of "[SPACE]" "\<lambda>c. \<not> is_delim c" "CHR ''-''" pre "opt # SPACE # arg @ rest"] d by simp
  have 2: "word_end is_delim ?s (length pre + 1) = length pre + 3"
    using word_end_at [of "[CHR ''-'', opt]" is_delim "SPACE # arg @ rest" "pre @ [SPACE]"] d o by (simp add: stops_def eval_nat_numeral)
  have 3: "substr ?s (length pre + 1) 2 = [CHR ''-'', opt]" using substr_at [of "[CHR ''-'', opt]" 2 "pre @ [SPACE]" "SPACE # arg @ rest"] by simp
  obtain a as where a: "arg = a # as" using arg(1) by (cases arg) auto
  have 4: "find_from (\<lambda>c. \<not> is_delim c) ?s (length pre + 3) = Some (length pre + 4)"
    using find_at [of "[SPACE]" "\<lambda>c. \<not> is_delim c" a "pre @ [SPACE, CHR ''-'', opt]" "as @ rest"] d arg(2) a by (simp add: eval_nat_numeral)
  have 5: "word_end is_delim ?s (length pre + 4) = length pre + 4 + length arg"
    using word_end_at [of arg is_delim rest "pre @ [SPACE, CHR ''-'', opt, SPACE]"] arg(2) rest by (simp add: eval_nat_numeral)
  have "?s ! (length pre + 4) = a" using a by (simp add: nth_append eval_nat_numeral)
  then have 6: "opaque_argument ?s (length pre + 3) = (arg, length pre + 4 + length arg)"
    using 4 5 a arg(3) substr_at [of arg "length arg" "pre @ [SPACE, CHR ''-'', opt, SPACE]" rest] by (simp add: opaque_argument_def eval_nat_numeral)
  show ?thesis using 1 2 3 6 by (subst opaque_loop.simps) (simp add: Let_def eval_nat_numeral split: sum.split)
qed


lemma dec_string_word: "\<forall>c \<in> set (dec_string n). isDigit c" "dec_string n \<noteq> []"
  using dec_string_digits [of n] by (simp_all add: list_all_iff)

lemma isDigit_not_delim: "isDigit c \<Longrightarrow> \<not> is_delim c \<and> c \<noteq> CHR ''-''"
  by (auto simp: isDigit_def is_delim_def)

lemma versionToString_word:
  "versionToString v \<noteq> []" "\<forall>c \<in> set (versionToString v). isDigit c \<or> c = CHR ''.''" "isDigit (hd (versionToString v))"
  using dec_string_word [of "unat (major v)"] dec_string_word [of "unat (minor v)"] by (auto simp: versionToString_def)

lemma isBase64_not_delim: "isBase64 c \<Longrightarrow> \<not> is_delim c \<and> c \<noteq> CHR ''-'' \<and> c \<noteq> CHR '':''"
  by (auto simp: isBase64_def is_delim_def)

section \<open>Properties\<close>

lemma short_string_word:
  assumes "0 \<le> sint t"
  shows "\<forall>c \<in> set (short_string t). isDigit c" "short_string t \<noteq> []" "istream_int (short_string t) = Some (sint t, True)" "sint t < 2 ^ 15"
proof -
  have "short_string t = dec_string (nat (sint t))" using assms by (simp add: short_string_def)
  moreover show less: "sint t < 2 ^ 15" using sint_lt [of t] by simp
  ultimately show "\<forall>c \<in> set (short_string t). isDigit c" "short_string t \<noteq> []" "istream_int (short_string t) = Some (sint t, True)"
    using dec_string_word istream_int_dec_string [of "nat (sint t)"] assms by simp_all
qed


text \<open>What the constructor gets of the text: the options.\<close>

definition opaque_text :: "opaque \<Rightarrow> string" where
  "opaque_text e = '' -t '' @ short_string (opaqueType e) @ '' -e '' @ versionToString (rawEncoding e) @ '' -v '' @ encode (rawBytes e)"

lemma opaque_toString_eq: "opaque_toString e = ''opaque'' @ opaque_text e"
  by (simp add: opaque_toString_def opaque_text_def)

text \<open>The loop over the first two options, and over the last one up to the first blank.\<close>

definition opaque_zero :: opaque_options where
  "opaque_zero = \<lparr>opaqueType = 0, rawEncoding = Encoding_1_0, rawBytes = [], topt = 0, vopt = 0\<rparr>"

lemma opaque_loop_text:
  assumes e: "0 \<le> sint (opaqueType e)" "major (rawEncoding e) \<noteq> 0" and d: "d \<noteq> []" "\<forall>c \<in> set d. isBase64 c" and r: "stops is_delim r"
  shows "opaque_loop ('' -t '' @ short_string (opaqueType e) @ '' -e '' @ versionToString (rawEncoding e) @ '' -v '' @ d @ r) 0 opaque_zero =
    opaque_loop (('' -t '' @ short_string (opaqueType e) @ '' -e '' @ versionToString (rawEncoding e) @ '' -v '' @ d) @ r)
      (length ('' -t '' @ short_string (opaqueType e) @ '' -e '' @ versionToString (rawEncoding e) @ '' -v '' @ d))
      \<lparr>opaqueType = opaqueType e, rawEncoding = rawEncoding e, rawBytes = decode d, topt = 1, vopt = 1\<rparr>"
proof -
  let ?t = "short_string (opaqueType e)" and ?v = "versionToString (rawEncoding e)"
  let ?p1 = "opaque_zero\<lparr>opaqueType := opaqueType e, topt := 1\<rparr>" let ?p2 = "?p1\<lparr>rawEncoding := rawEncoding e\<rparr>"
  let ?p3 = "\<lparr>opaqueType = opaqueType e, rawEncoding = rawEncoding e, rawBytes = decode d, topt = 1, vopt = 1\<rparr>"
  have chars: "\<not> is_delim CHR ''t''" "\<not> is_delim CHR ''e''" "\<not> is_delim CHR ''v''" "stops is_delim ('' -e '' @ x)" "stops is_delim ('' -v '' @ x)" for x
    by (simp_all add: is_delim_def stops_def)
  note t = short_string_word [OF e(1)] and v = versionToString_word [of "rawEncoding e"]
  have t': "\<forall>c \<in> set ?t. \<not> is_delim c" "hd ?t \<noteq> CHR ''-''" using t(1,2) isDigit_not_delim hd_in_set by blast+
  have v': "\<forall>c \<in> set ?v. \<not> is_delim c" "hd ?v \<noteq> CHR ''-''" using v isDigit_not_delim by (auto simp: is_delim_def)
  have d': "\<forall>c \<in> set d. \<not> is_delim c" "hd d \<noteq> CHR ''-''" using d isBase64_not_delim hd_in_set by blast+
  have o1: "opaque_option CHR ''t'' [CHR ''-'', CHR ''t''] ?t opaque_zero = Inr ?p1" using t e(1) by (simp add: opaque_option_def opaque_zero_def)
  have o2: "opaque_option CHR ''e'' [CHR ''-'', CHR ''e''] ?v ?p1 = Inr ?p2"
    using v(1) e(2) stringToVersion_versionToString [of "rawEncoding e"] by (simp add: opaque_option_def opaque_zero_def)
  have "find_from (\<lambda>c. \<not> isBase64 c) d 0 = None" using find_nowhere [of d "\<lambda>c. \<not> isBase64 c" "[]"] d(2) by simp
  then have o3: "opaque_option CHR ''v'' [CHR ''-'', CHR ''v''] d ?p2 = Inr ?p3" using d(1) by (simp add: opaque_option_def opaque_zero_def)
  note l1 = opaque_loop_option [OF chars(1) t(2) t' chars(4), of "[]" "?v @ '' -v '' @ d @ r" opaque_zero]
  note l2 = opaque_loop_option [OF chars(2) v(1) v' chars(5), of "'' -t '' @ ?t" "d @ r" ?p1]
  note l3 = opaque_loop_option [OF chars(3) d(1) d' r, of "'' -t '' @ ?t @ '' -e '' @ ?v" ?p2]
  show ?thesis using l1 l2 l3 o1 o2 o3 by simp
qed


text \<open>A word that is no option, and a minus sign in place of an argument.\<close>

lemma opaque_loop_word:
  assumes "\<forall>c \<in> set ds. is_delim c" "\<not> is_delim c" "c \<noteq> CHR ''-''"
  shows "\<exists>w. opaque_loop (pre @ ds @ c # rest) (length pre) p = Inl (ExpectedOption w)"
proof -
  let ?s = "pre @ ds @ c # rest" let ?k = "length pre + length ds"
  let ?w = "substr ?s ?k (word_end is_delim ?s ?k - ?k)"
  have 1: "find_from (\<lambda>c. \<not> is_delim c) ?s (length pre) = Some ?k" using find_at [of ds "\<lambda>c. \<not> is_delim c" c pre rest] assms by simp
  have "?k < word_end is_delim ?s ?k" using word_end_greater [of ?k ?s is_delim] assms(2) by (simp add: nth_append)
  then have "?w ! 0 = c" by (simp add: substr_def)
  then show ?thesis using 1 assms(3) by (subst opaque_loop.simps) (simp add: Let_def)
qed

lemma opaque_loop_minus:
  assumes "\<not> is_delim opt"
  shows "opaque_loop (pre @ [SPACE, CHR ''-'', opt, SPACE, CHR ''-''] @ rest) (length pre) p =
    (case opaque_option opt [CHR ''-'', opt] [] p of
       Inl e \<Rightarrow> Inl e
     | Inr p1 \<Rightarrow> opaque_loop (pre @ [SPACE, CHR ''-'', opt, SPACE, CHR ''-''] @ rest) (length pre + 3) p1)"
proof -
  let ?s = "pre @ [SPACE, CHR ''-'', opt, SPACE, CHR ''-''] @ rest"
  have d: "is_delim SPACE" "\<not> is_delim CHR ''-''" by (simp_all add: is_delim_def)
  have 1: "find_from (\<lambda>c. \<not> is_delim c) ?s (length pre) = Some (length pre + 1)"
    using find_at [of "[SPACE]" "\<lambda>c. \<not> is_delim c" "CHR ''-''" pre "opt # SPACE # CHR ''-'' # rest"] d by simp
  have 2: "word_end is_delim ?s (length pre + 1) = length pre + 3"
    using word_end_at [of "[CHR ''-'', opt]" is_delim "SPACE # CHR ''-'' # rest" "pre @ [SPACE]"] d assms by (simp add: stops_def eval_nat_numeral)
  have 3: "substr ?s (length pre + 1) 2 = [CHR ''-'', opt]" using substr_at [of "[CHR ''-'', opt]" 2 "pre @ [SPACE]" "SPACE # CHR ''-'' # rest"] by simp
  have 4: "find_from (\<lambda>c. \<not> is_delim c) ?s (length pre + 3) = Some (length pre + 4)"
    using find_at [of "[SPACE]" "\<lambda>c. \<not> is_delim c" "CHR ''-''" "pre @ [SPACE, CHR ''-'', opt]" rest] d by (simp add: eval_nat_numeral)
  have "?s ! (length pre + 4) = CHR ''-''" by (simp add: nth_append eval_nat_numeral)
  then have 5: "opaque_argument ?s (length pre + 3) = ([], length pre + 3)" using 4 by (simp add: opaque_argument_def)
  show ?thesis using 1 2 3 5 by (subst opaque_loop.simps) (simp add: Let_def eval_nat_numeral split: sum.split)
qed

lemma opaque_new_negative: "sint (opaqueType e) < 0 \<Longrightarrow> opaque_new (opaque_text e) = Inl (NoArgument CHR ''t'')"
  using opaque_loop_minus [of "CHR ''t''" "[]" _ opaque_zero]
  by (simp add: opaque_new_def opaque_text_def short_string_def is_delim_def opaque_option_def opaque_zero_def)

lemma opaque_new_lines:
  assumes "0 \<le> sint (opaqueType e)" "major (rawEncoding e) \<noteq> 0" "57 < length (rawBytes e)"
  shows "\<exists>w. opaque_new (opaque_text e) = Inl (ExpectedOption w)"
proof -
  let ?bs = "rawBytes e"
  obtain ls l where e: "encode ?bs = concat (map (\<lambda>x. x @ [CARRET, NEWLN]) ls) @ l"
    and w: "list_all (\<lambda>x. length x = 76) ls" "length l \<le> 76" and c: "concat ls @ l = enc ?bs" using encode_enc by blast
  have "4 * length bs \<le> 3 * length (enc bs)" for bs by (induction bs rule: enc.induct) auto
  from this [of ?bs] have long: "76 < length (enc ?bs)" using assms(3) by linarith
  then obtain x xs where ls: "ls = x # xs" using c w(2) by (cases ls) auto
  have al: "\<forall>c \<in> set (x @ concat xs @ l). isBase64 c" using c ls enc_alphabet [of ?bs] by (simp add: list_all_iff)
  have x: "x \<noteq> []" "\<forall>c \<in> set x. isBase64 c" using ls w(1) al by auto
  let ?more = "concat (map (\<lambda>x. x @ [CARRET, NEWLN]) xs) @ l"
  have "?more \<noteq> []" "isBase64 (hd ?more)"
  proof -
    have "length (enc ?bs) = 76 + length (concat xs @ l)" using arg_cong [OF c, of length] ls w(1) by simp
    then have "concat xs @ l \<noteq> []" using long by (metis add_0_right less_irrefl list.size(3))
    then have y: "(\<exists>y ys. xs = y # ys \<and> y \<noteq> []) \<or> xs = [] \<and> l \<noteq> []" using w(1) ls by (cases xs) auto
    show "?more \<noteq> []" "isBase64 (hd ?more)" using y al by (auto simp: neq_Nil_conv)
  qed
  then obtain m ms where m: "?more = m # ms" "\<not> is_delim m" "m \<noteq> CHR ''-''" using isBase64_not_delim by (cases ?more) auto
  have r: "stops is_delim ([CARRET, NEWLN] @ m # ms)" "\<forall>c \<in> set [CARRET, NEWLN]. is_delim c" by (simp_all add: stops_def is_delim_def)
  have "encode ?bs = x @ [CARRET, NEWLN] @ m # ms" using e ls m(1) by simp
  then obtain w' where "opaque_loop (opaque_text e) 0 opaque_zero = Inl (ExpectedOption w')"
    using opaque_loop_text [OF assms(1,2) x r(1)] opaque_loop_word [OF r(2) m(2,3)] unfolding opaque_text_def by metis
  then show ?thesis by (simp add: opaque_new_def opaque_zero_def)
qed

lemma efm_create_opaque:
  assumes "efm_find_protocol ''opaque'' fs = None" "stops is_delim t"
  shows "efm_create tmp dp fs (''opaque'' @ t) oaEndpoint =
    (case opaque_new t of
       Inl e \<Rightarrow> Some (Inl e)
     | Inr ue \<Rightarrow>
         (case efm_get (opaqueType ue) fs of
            Some f \<Rightarrow> map_option (\<lambda>r. bindE r (\<lambda>e. Inr (Some (Known e)))) (efm_read_opaque tmp f ue)
          | None \<Rightarrow> Some (Inr (Some (Opaque ue)))))"
proof -
  have "find_from (\<lambda>c. \<not> is_delim c) (''opaque'' @ t) 0 = Some 0" by (rule find_from_eqI) (simp_all add: is_delim_def)
  moreover have "word_end is_delim (''opaque'' @ t) 0 = 6" using word_end_at [of "''opaque''" is_delim t "[]"] assms(2) by (simp add: is_delim_def)
  moreover have "substr (''opaque'' @ t) 0 6 = ''opaque''" by (simp add: substr_def)
  ultimately show ?thesis using assms(1) by (simp add: efm_create_def Let_def split: option.split sum.split)
qed



text \<open>
  C30. Outside of these limits the text is refused: the type is printed as a negative number, which is taken for the next option, although
  types up to 65535 are accepted; Base64 text of more than 57 bytes has line breaks, which end the argument of the option.
\<close>

theorem opaque_text_refused:
  assumes "efm_find_protocol ''opaque'' fs = None"
  shows "(sint (opaqueType e) < 0 \<longrightarrow> efm_create tmp dp fs (opaque_toString e) oaEndpoint = Some (Inl (NoArgument CHR ''t''))) \<and>
    (0 \<le> sint (opaqueType e) \<and> major (rawEncoding e) \<noteq> 0 \<and> 57 < length (rawBytes e) \<longrightarrow>
      (\<exists>w. efm_create tmp dp fs (opaque_toString e) oaEndpoint = Some (Inl (ExpectedOption w))))"
proof -
  have c: "efm_create tmp dp fs (opaque_toString e) oaEndpoint = Some (Inl err)" if "opaque_new (opaque_text e) = Inl err" for err
    using efm_create_opaque [OF assms, of "opaque_text e" tmp dp oaEndpoint] that by (simp add: opaque_toString_eq opaque_text_def stops_def is_delim_def)
  show ?thesis using c opaque_new_negative [of e] opaque_new_lines [of e] by blast
qed

theorem opaque_text_refused_witness:
  "efm_create (BasicStream_new X86 1024 None no_wconv Encoding_1_0 False) ''tcp'' ([] :: unit factory list)
     (opaque_toString \<lparr>opaqueType = 0x8000, rawEncoding = Encoding_1_0, rawBytes = [1]\<rparr>) False = Some (Inl (NoArgument CHR ''t'')) \<and>
   (\<exists>w. efm_create (BasicStream_new X86 1024 None no_wconv Encoding_1_0 False) ''tcp'' ([] :: unit factory list)
     (opaque_toString \<lparr>opaqueType = 99, rawEncoding = Encoding_1_0, rawBytes = replicate 58 0\<rparr>) False = Some (Inl (ExpectedOption w)))"
  using opaque_text_refused [of "[] :: unit factory list" "\<lparr>opaqueType = 0x8000, rawEncoding = Encoding_1_0, rawBytes = [1]\<rparr>"]
    opaque_text_refused [of "[] :: unit factory list" "\<lparr>opaqueType = 99, rawEncoding = Encoding_1_0, rawBytes = replicate 58 0\<rparr>"]
  by (simp add: efm_find_protocol_def Encoding_1_0_def)

section \<open>On a stream\<close>

lemma endReadEncaps_at_end:
  assumes "readEncapsStack s = e # es" "int (i s) = int (rstart e) + rsz e" "i s \<le> length (b s)"
  shows "endReadEncaps readClass s = Some (Inr (s\<lparr>readEncapsStack := es\<rparr>))"
proof -
  have "encaps_end s = Some (int (i s))" using assms by (simp add: encaps_end_def)
  then have "skipOpts readClass s = Some (Inr s)"
    using skipOpts_members [of "[]" "drop (i s) (b s)" s] assms(3) by (simp add: upcoming_def)
  then show ?thesis using assms by (simp add: endReadEncaps_def Let_def)
qed

lemma writeBlob_appended: "room (length v) s \<Longrightarrow> writeBlob v s = appended v s"
  using append_store [of v "length v" s] by (auto simp: writeBlob_def Let_def)

lemma opaque_streamWrite_eq:
  assumes "supported (rawEncoding e)" "6 + length (rawBytes e) < 2 ^ 31" "room (8 + length (rawBytes e)) s"
  shows "opaque_streamWrite e s = appended (nat_to_le 2 (unat (opaqueType e)) @ encaps_bytes (rawEncoding e) (rawBytes e)) s"
proof -
  let ?s1 = "s\<lparr>b := b s @ nat_to_le 2 (unat (opaqueType e))\<rparr>"
  have w: "writeShort (opaqueType e) s = Inr ?s1" using assms(3) by (auto simp: write_num_eq)
  have "room 6 ?s1" using assms(3) by auto
  from write_encaps_eq [OF assms(1,2) this] obtain s2 where
    s2: "startWriteEncaps (rawEncoding e) DefaultFormat ?s1 = Inr s2" "endWriteEncaps (s2\<lparr>b := b s2 @ rawBytes e\<rparr>) = appended (encaps_bytes (rawEncoding e) (rawBytes e)) ?s1"
    by blast
  have "unlimited s2 = unlimited s" "messageSizeMax s2 = messageSizeMax s" "length (b s2) = length (b s) + 8"
    using s2(1) assms(1,3) by (auto simp: startWriteEncaps_def write_num_eq writeVersion_def writeByte_def Let_def split: if_splits)
  then have "writeBlob (rawBytes e) s2 = appended (rawBytes e) s2" using assms(3) by (intro writeBlob_appended) auto
  then show ?thesis using w s2 by (simp add: opaque_streamWrite_def)
qed

lemma opaque_read_eq:
  assumes "supported (rawEncoding e)" "6 + length (rawBytes e) < 2 ^ 31" "upcoming (encaps_bytes (rawEncoding e) (rawBytes e)) post s"
  shows "opaque_read readClass (opaqueType e) s = Some (Inr (e, forward (6 + length (rawBytes e)) s))"
proof -
  let ?n = "length (rawBytes e)"
  let ?s1 = "(forward 6 s)\<lparr>readEncapsStack := \<lparr>rstart = i s, rsz = int (6 + ?n), rencoding = rawEncoding e\<rparr> # readEncapsStack s\<rparr>"
  have 1: "startReadEncaps s = Inr (rawEncoding e, ?s1)" using startReadEncaps_eq [OF assms] by simp
  have 2: "getReadEncapsSize ?s1 = Inr (int ?n)" by (simp add: getReadEncapsSize_def)
  have up: "upcoming (rawBytes e) post (forward 6 s)" and len: "length (b s) = i s + 6 + ?n + length post"
    using read_encaps_start(4,5) [OF assms(2,3)] by simp_all
  have 3: "readBlob (int ?n) ?s1 = Inr (rawBytes e, forward ?n ?s1)"
    using up len by (auto simp: readBlob_def fetch_def upcoming_def)
  have "endReadEncaps readClass (forward ?n ?s1) = Some (Inr ((forward ?n ?s1)\<lparr>readEncapsStack := readEncapsStack s\<rparr>))"
    using len endReadEncaps_at_end [of "forward ?n ?s1" "\<lparr>rstart = i s, rsz = int (6 + ?n), rencoding = rawEncoding e\<rparr>" "readEncapsStack s" readClass] by simp
  moreover have "(forward ?n ?s1)\<lparr>readEncapsStack := readEncapsStack s\<rparr> = forward (6 + ?n) s" by (simp add: add.assoc)
  ultimately show ?thesis using 1 2 3 by (cases e) (simp add: opaque_read_def)
qed

lemma readShort_upcoming:
  assumes "upcoming (nat_to_le 2 (unat v) @ bs) post s" shows "readShort s = Inr (v, forward 2 s)"
proof -
  have "i s + 2 \<le> length (b s)" using upcoming_length [OF assms] by simp
  moreover have "take 2 (drop (i s) (b s)) = nat_to_le 2 (unat v)" using assms by (simp add: upcoming_def)
  moreover have "le_to_nat (nat_to_le 2 (unat v)) = unat v" using unsigned_less [of v, where ?'a = nat] by (simp add: le_to_nat_to_le)
  ultimately show ?thesis by (simp add: read_num_eq)
qed

text \<open>
  An endpoint of a type without a factory is passed on unchanged: what \<open>opaque_streamWrite\<close> writes is read back by \<open>EndpointFactoryManager::read\<close>,
  which stops behind it, for every type and all data.
\<close>

theorem opaque_stream_roundtrip:
  assumes "supported (rawEncoding e)" "6 + length (rawBytes e) < 2 ^ 31" "room (8 + length (rawBytes e)) s" "efm_get (opaqueType e) fs = None"
  shows "\<exists>s1. opaque_streamWrite e s = Inr s1 \<and>
    efm_read readClass fs (s1\<lparr>i := length (b s)\<rparr>) = Some (Inr (Opaque e, s1\<lparr>i := length (b s1)\<rparr>))"
proof -
  let ?bs = "encaps_bytes (rawEncoding e) (rawBytes e)" let ?s1 = "s\<lparr>b := b s @ nat_to_le 2 (unat (opaqueType e)) @ ?bs\<rparr>"
  let ?r = "?s1\<lparr>i := length (b s)\<rparr>"
  have up: "upcoming (nat_to_le 2 (unat (opaqueType e)) @ ?bs) [] ?r" by (simp add: upcoming_def)
  have 1: "readShort ?r = Inr (opaqueType e, forward 2 ?r)" using readShort_upcoming [OF up] .
  have "upcoming ?bs [] (forward 2 ?r)" using upcoming_advance [OF up] by simp
  from opaque_read_eq [OF assms(1,2) this, of readClass]
  have "efm_read readClass fs ?r = Some (Inr (Opaque e, forward (6 + length (rawBytes e)) (forward 2 ?r)))"
    using 1 assms(4) by (simp add: efm_read_def)
  moreover have "length ?bs = 6 + length (rawBytes e)" by (simp add: encaps_bytes_def)
  ultimately show ?thesis using opaque_streamWrite_eq [OF assms(1-3)] by (simp add: add.assoc add.commute)
qed

theorem opaque_stream_roundtrip_witness:
  "\<exists>s1. opaque_streamWrite \<lparr>opaqueType = 0x8001, rawEncoding = Encoding_1_0, rawBytes = replicate 60 7\<rparr> (BasicStream_new X86 1024 None no_wconv Encoding_1_0 False) = Inr s1 \<and>
     efm_read (\<lambda>s. Inr s) ([] :: unit factory list) (s1\<lparr>i := 0\<rparr>)
     = Some (Inr (Opaque \<lparr>opaqueType = 0x8001, rawEncoding = Encoding_1_0, rawBytes = replicate 60 7\<rparr>, s1\<lparr>i := length (b s1)\<rparr>))"
  using opaque_stream_roundtrip [of "\<lparr>opaqueType = 0x8001, rawEncoding = Encoding_1_0, rawBytes = replicate 60 7\<rparr>"
      "BasicStream_new X86 1024 None no_wconv Encoding_1_0 False" "[] :: unit factory list" "\<lambda>s. Inr s"]
  by (simp add: BasicStream_new_def efm_get_def supported_def isSupported_def Encoding_1_0_def currentEncoding_def encodingMajor_def encodingMinor_def)

end
