(* ===== verification/ProxyText.thy ===== *)
theory ProxyText
  imports Endpoints Identity
begin

text \<open>
  Proxies as text: \<^verbatim>\<open>ReferenceFactory::create\<close> of \<^verbatim>\<open>ReferenceFactory.cpp\<close>, which parses a stringified proxy, and the two
  \<^verbatim>\<open>toString\<close> of \<^verbatim>\<open>Reference.cpp\<close>. The endpoint factory manager is the argument \<open>create\<close>, and the text of an endpoint the
  argument \<open>toText\<close>; the locale \<open>endpoint_text\<close> is what a proxy relies on, and \<open>Endpoints\<close> provides it.
\<close>

section \<open>Definitions\<close>

datatype mode = ModeTwoway | ModeOneway | ModeBatchOneway | ModeDatagram | ModeBatchDatagram

text \<open>What a proxy string says of a reference; the cache and locator settings come from properties.\<close>

record 'e reference =
  r_identity :: identity
  r_facet :: string
  r_mode :: mode
  r_secure :: bool
  r_protocol :: version
  r_encoding :: version
  r_endpoints :: "'e list"
  r_adapterId :: string

datatype proxy_error =
    NoProxyCharacters
  | MismatchedQuotes string
  | NoIdentity
  | BadIdentity identity_error
  | IllegalIdentity identity
  | TrailingAfterIdentity
  | ExpectedProxyOption string
  | NoProxyArgument char
  | UnexpectedArgument char string
  | InvalidFacet string_error
  | BadConversion conv_error
  | InvalidProxyVersion char string version_parse_error
  | UnknownOption string
  | BadEndpoint endpoint_error
  | InvalidEndpoint string
  | ProxyAssert
  | MissingAdapterId
  | TrailingAfterAdapterId
  | InvalidAdapterId string_error
  | EmptyAdapterId
  | MalformedProxy

definition is_sep :: "char \<Rightarrow> bool" where
  "is_sep c \<longleftrightarrow> is_delim c \<or> c = CHR '':'' \<or> c = CHR ''@''"

text \<open>
  A word that starts at \<open>beg\<close> and may be enclosed in quotes: the word, where it begins, and the position behind it.
  \<open>None\<close> is a mismatched quote.
\<close>

definition quoted_word :: "(char \<Rightarrow> bool) \<Rightarrow> string \<Rightarrow> nat \<Rightarrow> (string \<times> nat \<times> nat) option" where
  "quoted_word stop s beg =
     (case checkQuote s beg of
        None \<Rightarrow> None
      | Some k \<Rightarrow>
          if k = 0 then Some (substr s beg (word_end stop s beg - beg), beg, word_end stop s beg)
          else Some (substr s (beg + 1) (k - (beg + 1)), beg + 1, k + 1))"

text \<open>The switch over the options.\<close>

definition flag_option :: "char \<Rightarrow> string \<Rightarrow> 'a \<Rightarrow> proxy_error + 'a" where
  "flag_option opt argument r = (if argument \<noteq> [] then Inl (UnexpectedArgument opt argument) else Inr r)"

definition proxy_option :: "char converter option \<Rightarrow> char \<Rightarrow> string \<Rightarrow> string \<Rightarrow> 'e reference \<Rightarrow> proxy_error + 'e reference" where
  "proxy_option conv opt option argument r =
     (if opt = CHR ''f'' then
        (if argument = [] then Inl (NoProxyArgument opt)
         else
           bindE (mapError InvalidFacet (unescapeString argument 0 (length argument))) (\<lambda>facet.
           bindE (mapError BadConversion (UTF8ToNative conv facet)) (\<lambda>facet.
           Inr (r\<lparr>r_facet := facet\<rparr>))))
      else if opt = CHR ''t'' then flag_option opt argument (r\<lparr>r_mode := ModeTwoway\<rparr>)
      else if opt = CHR ''o'' then flag_option opt argument (r\<lparr>r_mode := ModeOneway\<rparr>)
      else if opt = CHR ''O'' then flag_option opt argument (r\<lparr>r_mode := ModeBatchOneway\<rparr>)
      else if opt = CHR ''d'' then flag_option opt argument (r\<lparr>r_mode := ModeDatagram\<rparr>)
      else if opt = CHR ''D'' then flag_option opt argument (r\<lparr>r_mode := ModeBatchDatagram\<rparr>)
      else if opt = CHR ''s'' then flag_option opt argument (r\<lparr>r_secure := True\<rparr>)
      else if opt = CHR ''e'' then
        (if argument = [] then Inl (NoProxyArgument opt)
         else bindE (mapError (InvalidProxyVersion opt argument) (stringToVersion argument)) (\<lambda>v. Inr (r\<lparr>r_encoding := v\<rparr>)))
      else if opt = CHR ''p'' then
        (if argument = [] then Inl (NoProxyArgument opt)
         else bindE (mapError (InvalidProxyVersion opt argument) (stringToVersion argument)) (\<lambda>v. Inr (r\<lparr>r_protocol := v\<rparr>)))
      else Inl (UnknownOption option))"

definition proxy_argument :: "string \<Rightarrow> nat \<Rightarrow> (string \<times> nat) option" where
  "proxy_argument s end1 =
     (case find_from (\<lambda>c. \<not> is_delim c) s end1 of
        Some k \<Rightarrow>
          if s ! k \<noteq> CHR ''@'' \<and> s ! k \<noteq> CHR '':'' \<and> s ! k \<noteq> CHR ''-''
          then map_option (\<lambda>(w, beg2, end2). (w, end2)) (quoted_word is_sep s k)
          else Some ([], end1)
      | None \<Rightarrow> Some ([], end1))"

lemma quoted_word_end:
  assumes "quoted_word stop s beg = Some (w, beg2, end2)" "beg < length s" shows "beg \<le> end2 \<and> end2 \<le> length s"
proof (cases "checkQuote s beg")
  case (Some k)
  then have "k \<noteq> 0 \<Longrightarrow> beg < k \<and> k < length s"
    using checkQuote_loop_Some [of s "s ! beg" "beg + 1" k] assms(2) by (auto simp: checkQuote_def Let_def split: if_splits)
  then show ?thesis using assms word_end_ge [of beg s stop] Some by (auto simp: quoted_word_def split: if_splits)
qed (use assms in \<open>simp add: quoted_word_def\<close>)

lemma proxy_argument_end:
  assumes "proxy_argument s end1 = Some (arg, end2)" "end1 \<le> length s" shows "end1 \<le> end2 \<and> end2 \<le> length s"
proof (cases "find_from (\<lambda>c. \<not> is_delim c) s end1")
  case (Some k)
  then have "end1 \<le> k" "k < length s" using find_from_Some by blast+
  then show ?thesis using assms Some quoted_word_end [of is_sep s k] by (fastforce simp: proxy_argument_def split: if_splits)
qed (use assms in \<open>simp add: proxy_argument_def\<close>)

text \<open>The loop over the options: the reference so far, and where the loop was left, with \<open>None\<close> for the end of the text.\<close>

function proxy_loop :: "char converter option \<Rightarrow> string \<Rightarrow> nat \<Rightarrow> 'e reference \<Rightarrow> proxy_error + 'e reference \<times> nat option" where
  "proxy_loop conv s end0 r =
     (case find_from (\<lambda>c. \<not> is_delim c) s end0 of
        None \<Rightarrow> Inr (r, None)
      | Some beg \<Rightarrow>
          if s ! beg = CHR '':'' \<or> s ! beg = CHR ''@'' then Inr (r, Some beg)
          else
            (let end1 = word_end is_sep s beg;
                 option = substr s beg (end1 - beg)
             in if beg = end1 then Inr (r, Some beg)
                else if length option \<noteq> 2 \<or> option ! 0 \<noteq> CHR ''-'' then Inl (ExpectedProxyOption option)
                else
                  (case proxy_argument s end1 of
                     None \<Rightarrow> Inl (MismatchedQuotes option)
                   | Some (argument, end2) \<Rightarrow>
                       (case proxy_option conv (option ! 1) option argument r of
                          Inl e \<Rightarrow> Inl e
                        | Inr r1 \<Rightarrow> proxy_loop conv s end2 r1))))"
  by pat_completeness auto
termination
proof (relation "measure (\<lambda>(conv, s, end0, r). length s - end0)", simp, clarsimp)
  fix s end0 beg argument end2
  assume *: "find_from (\<lambda>c. \<not> is_delim c) s end0 = Some beg" "proxy_argument s (word_end is_sep s beg) = Some (argument, end2)"
    "beg \<noteq> word_end is_sep s beg"
  from find_from_Some [OF *(1)] have b: "end0 \<le> beg" "beg < length s" by auto
  then have "beg < word_end is_sep s beg" "word_end is_sep s beg \<le> length s" using word_end_ge [of beg s is_sep] *(3) by auto
  then show "length s - end2 < length s - end0" using b proxy_argument_end [OF *(2)] by linarith
qed

declare proxy_loop.simps [simp del]

text \<open>The end of an endpoint: the next colon that is not between two double quotes. The quotes are counted in pairs from \<open>beg\<close>.\<close>

function quoted_colon :: "string \<Rightarrow> nat \<Rightarrow> nat \<Rightarrow> bool" where
  "quoted_colon s end0 quote =
     (case find_char DQUOTE s quote of
        None \<Rightarrow> False
      | Some q \<Rightarrow>
          if end0 < q then False
          else
            (case find_char DQUOTE s (q + 1) of
               None \<Rightarrow> False
             | Some q2 \<Rightarrow> if end0 < q2 then True else quoted_colon s end0 (q2 + 1)))"
  by pat_completeness auto
termination
  by (relation "measure (\<lambda>(s, end0, quote). length s - quote)") (auto dest!: find_from_Some)

declare quoted_colon.simps [simp del]

function endpoint_end :: "string \<Rightarrow> nat \<Rightarrow> nat \<Rightarrow> nat" where
  "endpoint_end s beg end0 =
     (case find_char CHR '':'' s end0 of
        None \<Rightarrow> length s
      | Some k \<Rightarrow> if quoted_colon s k beg then endpoint_end s beg (k + 1) else k)"
  by pat_completeness auto
termination
  by (relation "measure (\<lambda>(s, beg, end0). length s - end0)") (auto dest!: find_from_Some)

declare endpoint_end.simps [simp del]

lemma endpoint_end_ge: "end0 \<le> length s \<Longrightarrow> end0 \<le> endpoint_end s beg end0 \<and> endpoint_end s beg end0 \<le> length s"
proof (induction s beg end0 rule: endpoint_end.induct)
  case (1 s beg end0)
  show ?case
  proof (cases "find_char CHR '':'' s end0")
    case (Some k)
    then show ?thesis using "1.IH" [OF Some] find_from_Some [OF Some] by (subst (1 2) endpoint_end.simps) auto
  qed (use 1 in \<open>simp add: endpoint_end.simps\<close>)
qed

text \<open>The loop over the endpoints: those that were created, and the texts that the factory manager does not know.\<close>

function endpoints_loop ::
    "(string \<Rightarrow> (endpoint_error + 'e option) option) \<Rightarrow> string \<Rightarrow> nat \<Rightarrow> 'e list \<Rightarrow> string list \<Rightarrow> (endpoint_error + 'e list \<times> string list) option" where
  "endpoints_loop create s end0 endpoints unknown =
     (if end0 < length s \<and> s ! end0 = CHR '':'' then
        (let beg = end0 + 1;
             end1 = endpoint_end s beg beg;
             es = substr s beg (end1 - beg)
         in case create es of
              None \<Rightarrow> None
            | Some (Inl e) \<Rightarrow> Some (Inl e)
            | Some (Inr (Some endp)) \<Rightarrow> endpoints_loop create s end1 (endpoints @ [endp]) unknown
            | Some (Inr None) \<Rightarrow> endpoints_loop create s end1 endpoints (unknown @ [es]))
      else Some (Inr (endpoints, unknown)))"
  by pat_completeness auto
termination
proof -
  have "length s - endpoint_end s (end0 + 1) (end0 + 1) < length s - end0" if "end0 < length s" for s end0
    using endpoint_end_ge [of "end0 + 1" s "end0 + 1"] that by auto
  then show ?thesis by (relation "measure (\<lambda>(create, s, end0, endpoints, unknown). length s - end0)") auto
qed

declare endpoints_loop.simps [simp del]

text \<open>What follows the options; the constructor of the reference gets all fields. The warning about unknown endpoints is left out.\<close>

definition proxy_endpoints ::
    "(string \<Rightarrow> (endpoint_error + 'e option) option) \<Rightarrow> string \<Rightarrow> nat \<Rightarrow> 'e reference \<Rightarrow> (proxy_error + 'e reference) option" where
  "proxy_endpoints create s beg r =
     (case endpoints_loop create s beg [] [] of
        None \<Rightarrow> None
      | Some (Inl e) \<Rightarrow> Some (Inl (BadEndpoint e))
      | Some (Inr (endpoints, unknown)) \<Rightarrow>
          Some (if endpoints = [] then (case unknown of [] \<Rightarrow> Inl ProxyAssert | u # us \<Rightarrow> Inl (InvalidEndpoint u))
                else Inr (r\<lparr>r_endpoints := endpoints\<rparr>)))"

definition proxy_adapter :: "char converter option \<Rightarrow> string \<Rightarrow> nat \<Rightarrow> 'e reference \<Rightarrow> proxy_error + 'e reference" where
  "proxy_adapter conv s beg0 r =
     (case find_from (\<lambda>c. \<not> is_delim c) s (beg0 + 1) of
        None \<Rightarrow> Inl MissingAdapterId
      | Some beg \<Rightarrow>
          (case quoted_word is_delim s beg of
             None \<Rightarrow> Inl (MismatchedQuotes ''adapter id'')
           | Some (adapterstr, beg2, end2) \<Rightarrow>
               if find_from (\<lambda>c. \<not> is_delim c) s end2 \<noteq> None then Inl TrailingAfterAdapterId
               else
                 bindE (mapError InvalidAdapterId (unescapeString adapterstr 0 (length adapterstr))) (\<lambda>adapter.
                 if adapter = [] then Inl EmptyAdapterId
                 else bindE (mapError BadConversion (UTF8ToNative conv adapter)) (\<lambda>adapter. Inr (r\<lparr>r_adapterId := adapter\<rparr>)))))"

text \<open>
  The whole function. The inner \<open>None\<close> is the null proxy; the outer one that the creation of an endpoint does not return,
  which \<open>create\<close> alone decides. A character that ends the loop over the options is a colon or an at sign.
\<close>

definition proxy_finish ::
    "char converter option \<Rightarrow> (string \<Rightarrow> (endpoint_error + 'e option) option) \<Rightarrow> string \<Rightarrow> proxy_error + 'e reference \<times> nat option \<Rightarrow>
     (proxy_error + 'e reference option) option" where
  "proxy_finish conv create s x =
     (case x of
        Inl e \<Rightarrow> Some (Inl e)
      | Inr (r, None) \<Rightarrow> Some (Inr (Some r))
      | Inr (r, Some beg) \<Rightarrow>
          if s ! beg = CHR '':'' then map_option (\<lambda>x. bindE x (\<lambda>r. Inr (Some r))) (proxy_endpoints create s beg r)
          else if s ! beg = CHR ''@'' then Some (bindE (proxy_adapter conv s beg r) (\<lambda>r. Inr (Some r)))
          else Some (Inl MalformedProxy))"

definition proxy_tail ::
    "char converter option \<Rightarrow> version \<Rightarrow> (string \<Rightarrow> (endpoint_error + 'e option) option) \<Rightarrow> string \<Rightarrow> nat \<Rightarrow> identity \<Rightarrow>
     (proxy_error + 'e reference option) option" where
  "proxy_tail conv defaultEncoding create s end1 ident =
     proxy_finish conv create s
       (proxy_loop conv s end1
          \<lparr>r_identity = ident, r_facet = [], r_mode = ModeTwoway, r_secure = False, r_protocol = Protocol_1_0,
           r_encoding = defaultEncoding, r_endpoints = [], r_adapterId = []\<rparr>)"

definition parse_proxy ::
    "char converter option \<Rightarrow> version \<Rightarrow> (string \<Rightarrow> (endpoint_error + 'e option) option) \<Rightarrow> string \<Rightarrow>
     (proxy_error + 'e reference option) option" where
  "parse_proxy conv defaultEncoding create s =
     (if s = [] then Some (Inr None)
      else
        (case find_from (\<lambda>c. \<not> is_delim c) s 0 of
           None \<Rightarrow> Some (Inl NoProxyCharacters)
         | Some beg0 \<Rightarrow>
             (case quoted_word is_sep s beg0 of
                None \<Rightarrow> Some (Inl (MismatchedQuotes ''identity''))
              | Some (idstr, beg, end1) \<Rightarrow>
                  if beg = end1 then Some (Inl NoIdentity)
                  else
                    (case stringToIdentity conv idstr of
                       Inl e \<Rightarrow> Some (Inl (BadIdentity e))
                     | Inr ident \<Rightarrow>
                         if iname ident = [] then
                           Some (if icategory ident \<noteq> [] then Inl (IllegalIdentity ident)
                                 else if find_from (\<lambda>c. \<not> is_delim c) s end1 \<noteq> None then Inl TrailingAfterIdentity
                                 else Inr None)
                         else proxy_tail conv defaultEncoding create s end1 ident))))"

section \<open>The text of a reference\<close>

definition quote_if :: "string \<Rightarrow> string" where
  "quote_if w = (if find_from (\<lambda>c. c = SPACE \<or> c = CHR '':'' \<or> c = CHR ''@'') w 0 \<noteq> None then [DQUOTE] @ w @ [DQUOTE] else w)"

fun mode_text :: "mode \<Rightarrow> string" where
  "mode_text ModeTwoway = '' -t''"
| "mode_text ModeOneway = '' -o''"
| "mode_text ModeBatchOneway = '' -O''"
| "mode_text ModeDatagram = '' -d''"
| "mode_text ModeBatchDatagram = '' -D''"

definition escaped_text :: "char converter option \<Rightarrow> string \<Rightarrow> identity_error + string" where
  "escaped_text conv s =
     bindE (mapError ConversionFailed (nativeToUTF8 conv s)) (\<lambda>u.
     bindE (mapError EscapeFailed (escapeString u [])) (\<lambda>fs. Inr (quote_if fs)))"

definition reference_toString :: "char converter option \<Rightarrow> 'e reference \<Rightarrow> identity_error + string" where
  "reference_toString conv r =
     bindE (identityToString conv (r_identity r)) (\<lambda>id.
     bindE (if r_facet r \<noteq> [] then bindE (escaped_text conv (r_facet r)) (\<lambda>fs. Inr ('' -f '' @ fs)) else Inr []) (\<lambda>facet.
     Inr (quote_if id @ facet @ mode_text (r_mode r) @ (if r_secure r then '' -s'' else []) @
       (if r_protocol r \<noteq> Protocol_1_0 then '' -p '' @ versionToString (r_protocol r) else []) @
       '' -e '' @ versionToString (r_encoding r))))"

definition endpoints_text :: "('e \<Rightarrow> string) \<Rightarrow> 'e list \<Rightarrow> string" where
  "endpoints_text toText es = concat (map (\<lambda>p. if toText p \<noteq> [] then '':'' @ toText p else []) es)"

definition routable_toString :: "char converter option \<Rightarrow> ('e \<Rightarrow> string) \<Rightarrow> 'e reference \<Rightarrow> identity_error + string" where
  "routable_toString conv toText r =
     bindE (reference_toString conv r) (\<lambda>result.
     if r_endpoints r \<noteq> [] then Inr (result @ endpoints_text toText (r_endpoints r))
     else if r_adapterId r \<noteq> [] then bindE (escaped_text conv (r_adapterId r)) (\<lambda>a. Inr (result @ '' @ '' @ a))
     else Inr result)"

end
