(* ===== verification/ProxyRoundtrip.thy ===== *)
theory ProxyRoundtrip
  imports ProxyText
begin

text \<open>
  What the parser of proxy strings makes of the text of a reference: the words with their quotes, the options one after the
  other, the endpoints behind their colons.
\<close>

section \<open>Words\<close>


















section \<open>Options\<close>

text \<open>What may follow an option without an argument, so that it is not taken for one.\<close>

definition no_argument :: "string \<Rightarrow> bool" where
  "no_argument rest \<longleftrightarrow> rest = [] \<or> hd rest = CHR '':'' \<or> (\<exists>c cs. rest = SPACE # c # cs \<and> (c = CHR ''-'' \<or> c = CHR ''@''))"





text \<open>A text that the loop reads as options with the effect \<open>f\<close>.\<close>

definition parses_as :: "char converter option \<Rightarrow> string \<Rightarrow> ('e reference \<Rightarrow> 'e reference) \<Rightarrow> bool" where
  "parses_as conv t f \<longleftrightarrow> (\<forall>pre rest r. no_argument rest \<longrightarrow>
     proxy_loop conv (pre @ t @ rest) (length pre) r = proxy_loop conv ((pre @ t) @ rest) (length (pre @ t)) (f r))"


lemma parses_as_Nil [simp]: "parses_as conv [] (\<lambda>r. r)"
  by (simp add: parses_as_def)




section \<open>Endpoints between colons\<close>








section \<open>The text of a whole reference\<close>




















section \<open>The contract of endpoints\<close>


section \<open>The endpoints of the factory manager\<close>







section \<open>Properties\<close>









section \<open>What a parsed reference looks like\<close>

definition reference_ok :: "'e reference \<Rightarrow> bool" where
  "reference_ok r \<longleftrightarrow> iname (r_identity r) \<noteq> [] \<and> (r_endpoints r = [] \<or> r_adapterId r = []) \<and> major (r_protocol r) \<noteq> 0 \<and> major (r_encoding r) \<noteq> 0"

lemma stringToVersion_major: "stringToVersion s = Inr v \<Longrightarrow> major v \<noteq> 0"
proof -
  have "(of_int k :: byte) \<noteq> 0" if "1 \<le> k" "k \<le> 255" for k
  proof
    assume "(of_int k :: byte) = 0"
    then have "uint (of_int k :: byte) = 0" by simp
    then show False using that by (simp add: uint_word_of_int)
  qed
  then show "stringToVersion s = Inr v \<Longrightarrow> ?thesis"
    by (auto simp: stringToVersion_def stringToMajorMinor_def bindE_Inr_conv split: option.splits bool.splits if_splits)
qed

definition options_only :: "'e reference \<Rightarrow> 'e reference \<Rightarrow> bool" where
  "options_only r r1 \<longleftrightarrow> r_identity r1 = r_identity r \<and> r_endpoints r1 = r_endpoints r \<and> r_adapterId r1 = r_adapterId r \<and>
     (major (r_protocol r) \<noteq> 0 \<longrightarrow> major (r_protocol r1) \<noteq> 0) \<and> (major (r_encoding r) \<noteq> 0 \<longrightarrow> major (r_encoding r1) \<noteq> 0)"

lemma proxy_option_only: "proxy_option conv opt option argument r = Inr r1 \<Longrightarrow> options_only r r1"
  by (auto simp: proxy_option_def flag_option_def options_only_def bindE_Inr_conv mapError_Inr stringToVersion_major split: if_splits)

lemma proxy_loop_only: "proxy_loop conv s end0 r = Inr (r1, beg) \<Longrightarrow> options_only r r1"
proof (induction conv s end0 r rule: proxy_loop.induct)
  case (1 conv s end0 r)
  show ?case
  proof (cases "find_from (\<lambda>c. \<not> is_delim c) s end0")
    case None
    then show ?thesis using "1.prems" by (subst (asm) proxy_loop.simps) (simp add: options_only_def)
  next
    case (Some b)
    let ?e = "word_end is_sep s b" let ?o = "substr s b (?e - b)"
    show ?thesis
    proof (cases "s ! b = CHR '':'' \<or> s ! b = CHR ''@'' \<or> b = ?e")
      case True
      then have "proxy_loop conv s end0 r = Inr (r, Some b)" using Some by (subst proxy_loop.simps) (simp add: Let_def, blast)
      then show ?thesis using "1.prems" by (simp add: options_only_def)
    next
      case False
      then obtain argument end2 r2 where a: "length ?o = 2" "?o ! 0 = CHR ''-''" "proxy_argument s ?e = Some (argument, end2)"
        "proxy_option conv (?o ! 1) ?o argument r = Inr r2" "proxy_loop conv s end2 r2 = Inr (r1, beg)"
        using "1.prems" Some by (subst (asm) proxy_loop.simps) (auto simp: Let_def split: if_splits option.splits sum.splits)
      have "options_only r2 r1" using "1.IH" [OF Some _ refl refl _ _ a(3) refl a(4,5)] False a(1,2) by simp
      then show ?thesis using proxy_option_only [OF a(4)] by (simp add: options_only_def)
    qed
  qed
qed

text \<open>
  C27. A parsed reference is well formed: it has a name, versions that can be printed and read again, and endpoints or an adapter id but not
  both, as \<open>RoutableReference::streamWrite\<close> asserts.
\<close>

theorem parse_proxy_well_formed:
  assumes "parse_proxy conv v create s = Some (Inr (Some r))" "major v \<noteq> 0" shows "reference_ok r"
proof -
  obtain ident end1 where i: "iname ident \<noteq> []" "proxy_tail conv v create s end1 ident = Some (Inr (Some r))"
    using assms(1) by (auto simp: parse_proxy_def split: if_splits option.splits prod.splits sum.splits)
  let ?r0 = "\<lparr>r_identity = ident, r_facet = [], r_mode = ModeTwoway, r_secure = False, r_protocol = Protocol_1_0,
       r_encoding = v, r_endpoints = [], r_adapterId = []\<rparr> :: 'a reference"
  obtain r1 beg where l: "proxy_loop conv s end1 ?r0 = Inr (r1, beg)" "proxy_finish conv create s (Inr (r1, beg)) = Some (Inr (Some r))"
    using i(2) by (auto simp: proxy_tail_def proxy_finish_def split: sum.splits)
  have o: "r_identity r1 = ident" "r_endpoints r1 = []" "r_adapterId r1 = []" "major (r_protocol r1) \<noteq> 0" "major (r_encoding r1) \<noteq> 0"
    using proxy_loop_only [OF l(1)] assms(2) by (simp_all add: options_only_def Protocol_1_0_def)
  have "r = r1 \<or> (\<exists>es. r = r1\<lparr>r_endpoints := es\<rparr>) \<or> (\<exists>a. r = r1\<lparr>r_adapterId := a\<rparr>)"
    using l(2) by (auto simp: proxy_finish_def proxy_endpoints_def proxy_adapter_def bindE_Inr_conv split: option.splits if_splits sum.splits list.splits prod.splits)
  then show ?thesis using o i(1) by (auto simp: reference_ok_def)
qed

theorem parse_proxy_well_formed_witness:
  "reference_ok \<lparr>r_identity = Identity ''x'' [], r_facet = [], r_mode = ModeOneway, r_secure = False, r_protocol = Protocol_1_0, r_encoding = Version 1 7,
     r_endpoints = [] :: string list, r_adapterId = ''a''\<rparr>"
proof (rule parse_proxy_well_formed)
  show "parse_proxy None Encoding_1_0 (\<lambda>s. Some (Inr (Some s))) ''x -o -e 1.7 @ a'' = Some (Inr (Some
    \<lparr>r_identity = Identity ''x'' [], r_facet = [], r_mode = ModeOneway, r_secure = False, r_protocol = Protocol_1_0, r_encoding = Version 1 7,
     r_endpoints = [] :: string list, r_adapterId = ''a''\<rparr>))" by code_simp
qed (simp add: Encoding_1_0_def)

end
