(* ===== verification/ProxyStream.thy ===== *)
theory ProxyStream
  imports ProxyText StreamString
begin

text \<open>
  Proxies on a stream: \<^verbatim>\<open>ProxyFactory.cpp\<close>, the two \<^verbatim>\<open>streamWrite\<close> of \<^verbatim>\<open>Reference.cpp\<close>, and \<^verbatim>\<open>ReferenceFactory::create\<close> from a stream.
  How endpoints are written and read is an argument, described by the locale \<open>endpoint_wire\<close>.
\<close>

section \<open>Definitions\<close>

text \<open>The members of the structure \<^verbatim>\<open>Ice::Identity\<close>, in their order.\<close>

definition writeIdentity :: "identity \<Rightarrow> writer" where
  "writeIdentity ident s = bindE (writeString True (iname ident) s) (writeString True (icategory ident))"

definition readIdentity :: "identity reader" where
  "readIdentity s = bindS (readString True s) (\<lambda>n s1. bindS (readString True s1) (\<lambda>c s2. Inr (Identity n c, s2)))"

fun mode_code :: "mode \<Rightarrow> byte" where
  "mode_code ModeTwoway = 0"
| "mode_code ModeOneway = 1"
| "mode_code ModeBatchOneway = 2"
| "mode_code ModeDatagram = 3"
| "mode_code ModeBatchDatagram = 4"

definition mode_of :: "byte \<Rightarrow> mode option" where
  "mode_of m = (if unat m > 4 then None else Some ([ModeTwoway, ModeOneway, ModeBatchOneway, ModeDatagram, ModeBatchDatagram] ! unat m))"

definition reference_streamWrite :: "'e reference \<Rightarrow> writer" where
  "reference_streamWrite r s =
     bindE (writeStringSeq True (if r_facet r = [] then [] else [r_facet r]) s) (\<lambda>s1.
     bindE (writeByte (mode_code (r_mode r)) s1) (\<lambda>s2.
     bindE (writeBool (r_secure r) s2) (\<lambda>s3.
     if getWriteEncoding s3 \<noteq> Encoding_1_0 then bindE (writeVersion (r_protocol r) s3) (writeVersion (r_encoding r))
     else Inr s3)))"

definition routable_streamWrite :: "('e \<Rightarrow> writer) \<Rightarrow> 'e reference \<Rightarrow> writer" where
  "routable_streamWrite wr r s =
     bindE (reference_streamWrite r s) (\<lambda>s1.
     bindE (writeSize (of_nat (length (r_endpoints r))) s1) (\<lambda>s2.
     if (of_nat (length (r_endpoints r)) :: int32) \<noteq> 0 then
       (if r_adapterId r \<noteq> [] then Inl AssertFailed else write_each wr (r_endpoints r) s2)
     else writeString True (r_adapterId r) s2))"

definition proxyToStream :: "('e \<Rightarrow> writer) \<Rightarrow> 'e reference option \<Rightarrow> writer" where
  "proxyToStream wr proxy s =
     (case proxy of
        Some r \<Rightarrow> bindE (writeIdentity (r_identity r) s) (routable_streamWrite wr r)
      | None \<Rightarrow> writeIdentity (Identity [] []) s)"

text \<open>Reading: the exceptions of the stream, and \<^verbatim>\<open>ProxyUnmarshalException\<close>. A reader of endpoints may not return (\<open>None\<close>).\<close>

datatype proxy_stream_error = ProxyUnmarshal | ProxyStream stream_error

definition read_versions :: "stream \<Rightarrow> proxy_stream_error + (version \<times> version) \<times> stream" where
  "read_versions s =
     (if getReadEncoding s \<noteq> Encoding_1_0 then
        mapError ProxyStream (bindS (readVersion s) (\<lambda>p s4. bindS (readVersion s4) (\<lambda>e s5. Inr ((p, e), s5))))
      else Inr ((Protocol_1_0, Encoding_1_0), s))"

definition read_header :: "identity \<Rightarrow> stream \<Rightarrow> proxy_stream_error + 'e reference \<times> stream" where
  "read_header ident s =
     bindS (mapError ProxyStream (readStringSeq True s)) (\<lambda>facetPath s1.
     if length facetPath > 1 then Inl ProxyUnmarshal
     else
       bindS (mapError ProxyStream (readByte s1)) (\<lambda>modeAsByte s2.
       case mode_of modeAsByte of
         None \<Rightarrow> Inl ProxyUnmarshal
       | Some m \<Rightarrow>
           bindS (mapError ProxyStream (readBool s2)) (\<lambda>sec s3.
           bindS (read_versions s3) (\<lambda>(p, e) s4.
           Inr (\<lparr>r_identity = ident, r_facet = (if facetPath = [] then [] else hd facetPath), r_mode = m, r_secure = sec,
                 r_protocol = p, r_encoding = e, r_endpoints = [], r_adapterId = []\<rparr>, s4)))))"

fun read_endpoints :: "(stream \<Rightarrow> (stream_error + 'e \<times> stream) option) \<Rightarrow> nat \<Rightarrow> stream \<Rightarrow> (stream_error + 'e list \<times> stream) option" where
  "read_endpoints rd 0 s = Some (Inr ([], s))"
| "read_endpoints rd (Suc n) s =
     (case rd s of
        None \<Rightarrow> None
      | Some (Inl e) \<Rightarrow> Some (Inl e)
      | Some (Inr (e, s1)) \<Rightarrow> map_option (\<lambda>x. bindS x (\<lambda>es s2. Inr (e # es, s2))) (read_endpoints rd n s1))"

definition read_targets ::
    "(stream \<Rightarrow> (stream_error + 'e \<times> stream) option) \<Rightarrow> 'e reference \<Rightarrow> stream \<Rightarrow> (stream_error + 'e reference \<times> stream) option" where
  "read_targets rd r s =
     (case readSize s of
        Inl e \<Rightarrow> Some (Inl e)
      | Inr (sz, s1) \<Rightarrow>
          if sz > 0 then map_option (\<lambda>x. bindS x (\<lambda>es s2. Inr (r\<lparr>r_endpoints := es\<rparr>, s2))) (read_endpoints rd sz s1)
          else Some (bindS (readString True s1) (\<lambda>a s2. Inr (r\<lparr>r_adapterId := a\<rparr>, s2))))"

definition reference_read ::
    "(stream \<Rightarrow> (stream_error + 'e \<times> stream) option) \<Rightarrow> identity \<Rightarrow> stream \<Rightarrow> (proxy_stream_error + 'e reference option \<times> stream) option" where
  "reference_read rd ident s =
     (if iname ident = [] \<and> icategory ident = [] then Some (Inr (None, s))
      else
        (case read_header ident s of
           Inl e \<Rightarrow> Some (Inl e)
         | Inr (r, s1) \<Rightarrow> map_option (\<lambda>x. bindS (mapError ProxyStream x) (\<lambda>r1 s2. Inr (Some r1, s2))) (read_targets rd r s1)))"

definition streamToProxy ::
    "(stream \<Rightarrow> (stream_error + 'e \<times> stream) option) \<Rightarrow> stream \<Rightarrow> (proxy_stream_error + 'e reference option \<times> stream) option" where
  "streamToProxy rd s =
     (case readIdentity s of Inl e \<Rightarrow> Some (Inl (ProxyStream e)) | Inr (ident, s1) \<Rightarrow> reference_read rd ident s1)"

section \<open>The bytes of a proxy\<close>

lemma size_0 [simp]: "size_bytes 0 = [0]"
  by (simp add: size_bytes_def)

lemma writeStringSeq_eq: "length v < 2 ^ 31 \<Longrightarrow> writeStringSeq convert v s = seq_write (writeString convert) v s"
  by (cases "v = []") (auto simp: writeStringSeq_def seq_write_def bindE_def sint_of_nat32 split: sum.split)

lemma readStringSeq_eq: "readStringSeq convert s = seq_read 1 (readString convert) s"
  by (auto simp: readStringSeq_def seq_read_def bindS_def split: sum.split)

lemmas stringSeq_codec = string_codec.seq_codec

lemma mode_of_code [simp]: "mode_of (mode_code m) = Some m"
  by (cases m) (simp_all add: mode_of_def)

definition identity_bytes :: "identity \<Rightarrow> byte list" where
  "identity_bytes ident = string_bytes (iname ident) @ string_bytes (icategory ident)"

definition version_bytes :: "version \<Rightarrow> byte list" where
  "version_bytes v = [major v, minor v]"

definition header_bytes :: "bool \<Rightarrow> 'e reference \<Rightarrow> byte list" where
  "header_bytes old r = seq_bytes string_bytes (if r_facet r = [] then [] else [r_facet r]) @ [mode_code (r_mode r)] @ [if r_secure r then 1 else 0] @
     (if old then [] else version_bytes (r_protocol r) @ version_bytes (r_encoding r))"

definition target_bytes :: "('e \<Rightarrow> byte list) \<Rightarrow> 'e reference \<Rightarrow> byte list" where
  "target_bytes wire r = size_bytes (length (r_endpoints r)) @
     (if r_endpoints r = [] then string_bytes (r_adapterId r) else concat (map wire (r_endpoints r)))"

definition proxy_bytes :: "bool \<Rightarrow> ('e \<Rightarrow> byte list) \<Rightarrow> 'e reference option \<Rightarrow> byte list" where
  "proxy_bytes old wire proxy =
     (case proxy of None \<Rightarrow> identity_bytes (Identity [] []) | Some r \<Rightarrow> identity_bytes (r_identity r) @ header_bytes old r @ target_bytes wire r)"

section \<open>Writing and reading in sequence\<close>

text \<open>
  On a stream without a string converter, whose encoding is 1.0 (\<open>old\<close>) or not: an operation that appends \<open>bs\<close>, and one that
  finds them ahead and gives \<open>v\<close>.
\<close>

definition writes :: "bool \<Rightarrow> writer \<Rightarrow> byte list \<Rightarrow> bool" where
  "writes old w bs \<longleftrightarrow> (\<forall>s. stringConverter s = None \<longrightarrow> (getWriteEncoding s = Encoding_1_0) = old \<longrightarrow> room (length bs) s \<longrightarrow> w s = appended bs s)"

definition reads :: "bool \<Rightarrow> (stream \<Rightarrow> 'x + 'a \<times> stream) \<Rightarrow> 'a \<Rightarrow> byte list \<Rightarrow> bool" where
  "reads old rd v bs \<longleftrightarrow> (\<forall>s ys post. ahead (bs @ ys) post s \<longrightarrow> owes 0 s \<longrightarrow> (getReadEncoding s = Encoding_1_0) = old \<longrightarrow>
     (\<exists>s'. rd s = Inr (v, s') \<and> consumed bs s s'))"

lemma getWriteEncoding_b [simp]: "getWriteEncoding (s\<lparr>b := x\<rparr>) = getWriteEncoding s"
  by (simp add: getWriteEncoding_def split: list.split)

lemma getReadEncoding_b_i [simp]: "getReadEncoding (s\<lparr>b := x, i := k\<rparr>) = getReadEncoding s"
  by (simp add: getReadEncoding_def split: list.split)

lemma writes_bind: "writes old w1 xs \<Longrightarrow> writes old w2 ys \<Longrightarrow> writes old (\<lambda>s. bindE (w1 s) w2) (xs @ ys)"
  unfolding writes_def
proof (intro allI impI)
  fix s assume w: "\<forall>s. stringConverter s = None \<longrightarrow> (getWriteEncoding s = Encoding_1_0) = old \<longrightarrow> room (length xs) s \<longrightarrow> w1 s = appended xs s"
    "\<forall>s. stringConverter s = None \<longrightarrow> (getWriteEncoding s = Encoding_1_0) = old \<longrightarrow> room (length ys) s \<longrightarrow> w2 s = appended ys s"
    and s: "stringConverter s = None" "(getWriteEncoding s = Encoding_1_0) = old" "room (length (xs @ ys)) s"
  have "w1 s = appended xs s" using w(1) s by auto
  moreover have "w2 (s\<lparr>b := b s @ xs\<rparr>) = appended ys (s\<lparr>b := b s @ xs\<rparr>)"
    by (rule w(2) [rule_format]) (use s in auto)
  ultimately show "bindE (w1 s) w2 = appended (xs @ ys) s" by simp
qed

lemma codec_writes: assumes "codec ok wr rd wire mw" "ok v" shows "writes old (wr v) (wire v)"
  unfolding writes_def by (intro allI impI codec.wr_enc [OF assms])

lemma codec_reads: assumes "codec ok wr rd wire mw" "ok v" shows "reads old rd v (wire v)"
  unfolding reads_def by (intro allI impI codec_consumes [OF assms])

lemma frame_encoding: "frame s s' \<Longrightarrow> getReadEncoding s' = getReadEncoding s"
  by (auto simp: getReadEncoding_def dest: frameD split: list.split)

lemma reads_bind:
  assumes "reads old rd v xs" "reads old (f v) w ys" shows "reads old (\<lambda>s. bindS (rd s) f) w (xs @ ys)"
  unfolding reads_def
proof (intro allI impI)
  fix s zs post
  assume a: "ahead ((xs @ ys) @ zs) post s" and o: "owes 0 s" and e: "(getReadEncoding s = Encoding_1_0) = old"
  from a have a': "ahead (xs @ ys @ zs) post s" by simp
  from assms(1) a' o e obtain s1 where s1: "rd s = Inr (v, s1)" "consumed xs s s1" unfolding reads_def by blast
  have "ahead (ys @ zs) post s1" using ahead_consumed [OF a' s1(2)] .
  moreover have "getReadEncoding s1 = getReadEncoding s" using s1(2) frame_encoding by (simp add: consumed_def)
  ultimately obtain s2 where "f v s1 = Inr (w, s2)" "consumed ys s1 s2"
    using assms(2) consumed_owes [OF s1(2)] e unfolding reads_def by metis
  then show "\<exists>s'. bindS (rd s) f = Inr (w, s') \<and> consumed (xs @ ys) s s'" using s1 consumed_trans by auto
qed

lemma reads_return: "reads old (\<lambda>s. Inr (v, s)) v []"
  by (simp add: reads_def consumed_Nil)

lemma reads_mapError: "reads old rd v bs \<Longrightarrow> reads old (\<lambda>s. mapError f (rd s)) v bs"
  unfolding reads_def by (fastforce simp: mapError_Inr)

lemma writes_version: "writes old (writeVersion v) (version_bytes v)"
  by (simp add: writes_def writeVersion_def writeByte_def version_bytes_def)

lemma reads_version: "reads old readVersion v (version_bytes v)"
proof -
  note byte = codec_reads [OF byte_codec.codec_axioms TrueI]
  have "reads old (\<lambda>s. bindS (readByte s) (\<lambda>ma s1. bindS (readByte s1) (\<lambda>mi s2. Inr (Version ma mi, s2))))
      (Version (major v) (minor v)) ([major v] @ [minor v] @ [])"
    by (rule reads_bind [OF byte], rule reads_bind [OF byte], rule reads_return)
  then show ?thesis by (cases v) (simp add: readVersion_def [abs_def] version_bytes_def)
qed

section \<open>Identities and headers\<close>

definition strings_fit :: "'e reference \<Rightarrow> bool" where
  "strings_fit r \<longleftrightarrow> length (iname (r_identity r)) < 2 ^ 31 \<and> length (icategory (r_identity r)) < 2 ^ 31 \<and> length (r_facet r) < 2 ^ 31 \<and>
     length (r_adapterId r) < 2 ^ 31 \<and> length (r_endpoints r) < 2 ^ 31"

lemmas string_writes = codec_writes [OF string_codec.codec_axioms]
lemmas string_reads = codec_reads [OF string_codec.codec_axioms]

lemma writes_identity:
  assumes "length (iname ident) < 2 ^ 31" "length (icategory ident) < 2 ^ 31" shows "writes old (writeIdentity ident) (identity_bytes ident)"
  unfolding writeIdentity_def [abs_def] identity_bytes_def by (intro writes_bind string_writes assms)

lemma reads_identity:
  assumes "length (iname ident) < 2 ^ 31" "length (icategory ident) < 2 ^ 31" shows "reads old readIdentity ident (identity_bytes ident)"
proof -
  have "reads old (\<lambda>s. bindS (readString True s) (\<lambda>n s1. bindS (readString True s1) (\<lambda>c s2. Inr (Identity n c, s2))))
      (Identity (iname ident) (icategory ident)) (string_bytes (iname ident) @ string_bytes (icategory ident) @ [])"
    by (rule reads_bind [OF string_reads [OF assms(1)]], rule reads_bind [OF string_reads [OF assms(2)]], rule reads_return)
  then show ?thesis by (simp add: readIdentity_def [abs_def] identity_bytes_def)
qed

lemma writes_header: "length (r_facet r) < 2 ^ 31 \<Longrightarrow> writes old (reference_streamWrite r) (header_bytes old r)"
proof -
  assume f: "length (r_facet r) < 2 ^ 31"
  let ?fs = "if r_facet r = [] then [] else [r_facet r]"
  have 1: "writes old (writeStringSeq True ?fs) (seq_bytes string_bytes ?fs)"
  proof -
    have "writeStringSeq True ?fs = seq_write (writeString True) ?fs" by (rule ext) (simp add: writeStringSeq_eq)
    then show ?thesis using codec_writes [OF stringSeq_codec, of ?fs old True] f by auto
  qed
  have 2: "writes old (\<lambda>s. if getWriteEncoding s \<noteq> Encoding_1_0 then bindE (writeVersion (r_protocol r) s) (writeVersion (r_encoding r)) else Inr s)
      (if old then [] else version_bytes (r_protocol r) @ version_bytes (r_encoding r))"
    using writes_bind [OF writes_version writes_version] by (auto simp: writes_def)
  show ?thesis unfolding reference_streamWrite_def [abs_def] header_bytes_def
    by (intro writes_bind 1 2 codec_writes [OF byte_codec.codec_axioms TrueI] codec_writes [OF bool_codec.codec_axioms TrueI])
qed

text \<open>With the 1.0 encoding the versions are not sent.\<close>

definition sent :: "bool \<Rightarrow> 'e reference \<Rightarrow> 'e reference" where
  "sent old r = (if old then r\<lparr>r_protocol := Protocol_1_0, r_encoding := Encoding_1_0\<rparr> else r)"

lemma reads_header:
  assumes "length (r_facet r) < 2 ^ 31"
  shows "reads old (read_header (r_identity r)) ((sent old r)\<lparr>r_endpoints := [], r_adapterId := []\<rparr>) (header_bytes old r)"
proof -
  let ?fs = "if r_facet r = [] then [] else [r_facet r]"
  let ?v = "if old then (Protocol_1_0, Encoding_1_0) else (r_protocol r, r_encoding r)"
  have 1: "reads old (readStringSeq True) ?fs (seq_bytes string_bytes ?fs)"
  proof -
    have "readStringSeq True = seq_read 1 (readString True)" by (rule ext) (simp add: readStringSeq_eq)
    then show ?thesis using codec_reads [OF stringSeq_codec, of ?fs old True] assms by auto
  qed
  have "reads old (\<lambda>s3. bindS (readVersion s3) (\<lambda>p s4. bindS (readVersion s4) (\<lambda>e s5. Inr ((p, e), s5)))) (r_protocol r, r_encoding r)
      (version_bytes (r_protocol r) @ version_bytes (r_encoding r) @ [])"
    by (rule reads_bind [OF reads_version], rule reads_bind [OF reads_version], rule reads_return)
  from reads_mapError [OF this, of ProxyStream]
  have v: "reads old read_versions ?v (if old then [] else version_bytes (r_protocol r) @ version_bytes (r_encoding r))"
    by (auto simp: reads_def read_versions_def consumed_Nil)
  let ?r = "\<lambda>m sec p e. \<lparr>r_identity = r_identity r, r_facet = r_facet r, r_mode = m, r_secure = sec, r_protocol = p, r_encoding = e,
    r_endpoints = [], r_adapterId = []\<rparr> :: 'a reference"
  have r: "?r (r_mode r) (r_secure r) (fst ?v) (snd ?v) = (sent old r)\<lparr>r_endpoints := [], r_adapterId := []\<rparr>" by (simp add: sent_def)
  have 2: "reads old (\<lambda>s3. bindS (read_versions s3) (\<lambda>(p, e) s4. Inr (?r (r_mode r) (r_secure r) p e, s4)))
      ((sent old r)\<lparr>r_endpoints := [], r_adapterId := []\<rparr>) ((if old then [] else version_bytes (r_protocol r) @ version_bytes (r_encoding r)) @ [])"
    by (rule reads_bind [OF v]) (use r in \<open>simp add: split_beta reads_return\<close>)
  have 3: "reads old (\<lambda>s2. bindS (mapError ProxyStream (readBool s2)) (\<lambda>sec s3. bindS (read_versions s3) (\<lambda>(p, e) s4. Inr (?r (r_mode r) sec p e, s4))))
      ((sent old r)\<lparr>r_endpoints := [], r_adapterId := []\<rparr>)
      ([if r_secure r then 1 else 0] @ (if old then [] else version_bytes (r_protocol r) @ version_bytes (r_encoding r)) @ [])"
    by (rule reads_bind [OF reads_mapError [OF codec_reads [OF bool_codec.codec_axioms TrueI]]]) (rule 2)
  have 4: "reads old (\<lambda>s1. bindS (mapError ProxyStream (readByte s1)) (\<lambda>modeAsByte s2.
         case mode_of modeAsByte of
           None \<Rightarrow> Inl ProxyUnmarshal
         | Some m \<Rightarrow> bindS (mapError ProxyStream (readBool s2)) (\<lambda>sec s3. bindS (read_versions s3) (\<lambda>(p, e) s4. Inr (?r m sec p e, s4)))))
      ((sent old r)\<lparr>r_endpoints := [], r_adapterId := []\<rparr>)
      ([mode_code (r_mode r)] @ [if r_secure r then 1 else 0] @ (if old then [] else version_bytes (r_protocol r) @ version_bytes (r_encoding r)) @ [])"
    by (rule reads_bind [OF reads_mapError [OF codec_reads [OF byte_codec.codec_axioms TrueI]]]) (use 3 in simp)
  have f: "(if ?fs = [] then [] else hd ?fs) = r_facet r" "\<not> 1 < length ?fs" by auto
  have "reads old (read_header (r_identity r)) ((sent old r)\<lparr>r_endpoints := [], r_adapterId := []\<rparr>)
      (seq_bytes string_bytes ?fs @ [mode_code (r_mode r)] @ [if r_secure r then 1 else 0] @
       (if old then [] else version_bytes (r_protocol r) @ version_bytes (r_encoding r)) @ [])"
    unfolding read_header_def [abs_def]
    by (rule reads_bind [OF reads_mapError [OF 1]]) (use 4 in \<open>simp only: f if_False\<close>)
  then show ?thesis by (simp add: header_bytes_def)
qed

text \<open>References and proxies that can be sent: one with an identity, whose endpoints are valid.\<close>

definition reference_fits :: "('e \<Rightarrow> bool) \<Rightarrow> 'e reference \<Rightarrow> bool" where
  "reference_fits valid r \<longleftrightarrow> strings_fit r \<and> (iname (r_identity r) \<noteq> [] \<or> icategory (r_identity r) \<noteq> []) \<and>
     (\<forall>e \<in> set (r_endpoints r). valid e) \<and> (r_endpoints r = [] \<or> r_adapterId r = [])"

definition proxy_fits :: "('e \<Rightarrow> bool) \<Rightarrow> 'e reference option \<Rightarrow> bool" where
  "proxy_fits valid p \<longleftrightarrow> (case p of None \<Rightarrow> True | Some r \<Rightarrow> reference_fits valid r)"

section \<open>The contract of endpoints\<close>

text \<open>A valid endpoint is written as its bytes, and read back from them.\<close>

locale endpoint_wire =
  fixes wr :: "'e \<Rightarrow> writer" and rd :: "stream \<Rightarrow> (stream_error + 'e \<times> stream) option" and wire :: "'e \<Rightarrow> byte list" and valid :: "'e \<Rightarrow> bool"
  assumes wr_wire: "valid e \<Longrightarrow> writes old (wr e) (wire e)"
    and rd_wire: "valid e \<Longrightarrow> ahead (wire e @ ys) post s \<Longrightarrow> owes 0 s \<Longrightarrow> \<exists>s'. rd s = Some (Inr (e, s')) \<and> consumed (wire e) s s'"
begin

lemma write_each_wire: "\<forall>e \<in> set es. valid e \<Longrightarrow> writes old (write_each wr es) (concat (map wire es))"
proof (induction es)
  case Nil
  then show ?case by (simp add: writes_def)
next
  case (Cons e es)
  have "write_each wr (e # es) = (\<lambda>s. bindE (wr e s) (write_each wr es))" by (simp add: fun_eq_iff)
  then show ?case using writes_bind [OF wr_wire Cons.IH] Cons.prems by simp
qed

lemma read_endpoints_wire:
  "\<forall>e \<in> set es. valid e \<Longrightarrow> ahead (concat (map wire es) @ ys) post s \<Longrightarrow> owes 0 s \<Longrightarrow>
   \<exists>s'. read_endpoints rd (length es) s = Some (Inr (es, s')) \<and> consumed (concat (map wire es)) s s'"
proof (induction es arbitrary: s)
  case Nil
  then show ?case by (simp add: consumed_Nil)
next
  case (Cons e es)
  from Cons.prems have a: "ahead (wire e @ concat (map wire es) @ ys) post s" by simp
  from rd_wire [OF _ a Cons.prems(3)] Cons.prems(1) obtain s1 where s1: "rd s = Some (Inr (e, s1))" "consumed (wire e) s s1" by auto
  from Cons.IH [OF _ ahead_consumed [OF a s1(2)] consumed_owes [OF s1(2)]] Cons.prems(1) obtain s2 where
    "read_endpoints rd (length es) s1 = Some (Inr (es, s2))" "consumed (concat (map wire es)) s1 s2" by auto
  then show ?case using s1 consumed_trans by auto
qed

lemma writes_targets:
  assumes "reference_fits valid r"
  shows "writes old (\<lambda>s. bindE (writeSize (of_nat (length (r_endpoints r))) s) (\<lambda>s2.
      if (of_nat (length (r_endpoints r)) :: int32) \<noteq> 0 then
        (if r_adapterId r \<noteq> [] then Inl AssertFailed else write_each wr (r_endpoints r) s2)
      else writeString True (r_adapterId r) s2)) (target_bytes wire r)"
proof -
  let ?n = "length (r_endpoints r)"
  have n: "?n < 2 ^ 31" and a: "length (r_adapterId r) < 2 ^ 31" and e: "\<forall>e \<in> set (r_endpoints r). valid e" "r_endpoints r = [] \<or> r_adapterId r = []"
    using assms by (simp_all add: reference_fits_def strings_fit_def)
  have "unat (of_nat ?n :: int32) = 0 \<longleftrightarrow> r_endpoints r = []" using unat_of_nat32 [OF n] by simp
  then have z: "(of_nat ?n :: int32) \<noteq> 0 \<longleftrightarrow> r_endpoints r \<noteq> []" by (simp only: unat_eq_0)
  show ?thesis unfolding target_bytes_def
  proof (rule writes_bind)
    show "writes old (writeSize (of_nat ?n)) (size_bytes ?n)" using n by (auto simp: writes_def intro: writeSize_eq)
    show "writes old (\<lambda>s2. if (of_nat ?n :: int32) \<noteq> 0 then (if r_adapterId r \<noteq> [] then Inl AssertFailed else write_each wr (r_endpoints r) s2)
        else writeString True (r_adapterId r) s2) (if r_endpoints r = [] then string_bytes (r_adapterId r) else concat (map wire (r_endpoints r)))"
    proof (cases "r_endpoints r = []")
      case True
      then show ?thesis using string_writes [OF a] by simp
    next
      case False
      then show ?thesis using write_each_wire [OF e(1)] e(2) z by simp
    qed
  qed
qed

lemma reads_targets:
  assumes r: "reference_fits valid r" and a: "ahead (target_bytes wire r @ ys) post s" and o: "owes 0 s"
  shows "\<exists>s'. read_targets rd ((sent old r)\<lparr>r_endpoints := [], r_adapterId := []\<rparr>) s = Some (Inr (sent old r, s')) \<and> consumed (target_bytes wire r) s s'"
proof -
  let ?n = "length (r_endpoints r)"
  have n: "?n < 2 ^ 31" and ad: "length (r_adapterId r) < 2 ^ 31" and e: "\<forall>e \<in> set (r_endpoints r). valid e" "r_endpoints r = [] \<or> r_adapterId r = []"
    using r by (simp_all add: reference_fits_def strings_fit_def)
  let ?rest = "if r_endpoints r = [] then string_bytes (r_adapterId r) else concat (map wire (r_endpoints r))"
  have a': "ahead (size_bytes ?n @ ?rest @ ys) post s" using a by (simp only: target_bytes_def append_assoc)
  from size_consumes [OF n a' o] obtain s1 where s1: "readSize s = Inr (?n, s1)" "consumed (size_bytes ?n) s s1" by blast
  note a1 = ahead_consumed [OF a' s1(2)] and o1 = consumed_owes [OF s1(2)]
  have "\<exists>s2. read_targets rd ((sent old r)\<lparr>r_endpoints := [], r_adapterId := []\<rparr>) s = Some (Inr (sent old r, s2)) \<and> consumed ?rest s1 s2"
  proof (cases "r_endpoints r = []")
    case True
    with a1 have "ahead (string_bytes (r_adapterId r) @ ys) post s1" by simp
    from string_consumes [OF ad this o1, of True] obtain s2 where "readString True s1 = Inr (r_adapterId r, s2)" "consumed (string_bytes (r_adapterId r)) s1 s2" by blast
    then show ?thesis using True s1(1) by (simp add: read_targets_def sent_def)
  next
    case False
    with a1 have "ahead (concat (map wire (r_endpoints r)) @ ys) post s1" by simp
    from read_endpoints_wire [OF e(1) this o1] obtain s2 where "read_endpoints rd ?n s1 = Some (Inr (r_endpoints r, s2))"
      "consumed (concat (map wire (r_endpoints r))) s1 s2" by blast
    then show ?thesis using False e(2) s1(1) by (simp add: read_targets_def sent_def)
  qed
  then show ?thesis using consumed_trans [OF s1(2)] by (auto simp: target_bytes_def)
qed

lemma writes_proxy: "proxy_fits valid p \<Longrightarrow> writes old (proxyToStream wr p) (proxy_bytes old wire p)"
proof (cases p)
  case None
  have "proxyToStream wr None = writeIdentity (Identity [] [])" by (rule ext) (simp add: proxyToStream_def)
  then show ?thesis using None writes_identity [of "Identity [] []" old] by (simp add: proxy_bytes_def)
next
  case (Some r)
  assume "proxy_fits valid p"
  then have r: "reference_fits valid r" and f: "length (iname (r_identity r)) < 2 ^ 31" "length (icategory (r_identity r)) < 2 ^ 31" "length (r_facet r) < 2 ^ 31"
    using Some by (simp_all add: proxy_fits_def reference_fits_def strings_fit_def)
  have "proxyToStream wr (Some r) = (\<lambda>s. bindE (writeIdentity (r_identity r) s) (\<lambda>s. bindE (reference_streamWrite r s) (\<lambda>s.
      bindE (writeSize (of_nat (length (r_endpoints r))) s) (\<lambda>s2.
      if (of_nat (length (r_endpoints r)) :: int32) \<noteq> 0 then
        (if r_adapterId r \<noteq> [] then Inl AssertFailed else write_each wr (r_endpoints r) s2)
      else writeString True (r_adapterId r) s2))))"
    by (rule ext) (simp add: proxyToStream_def routable_streamWrite_def [abs_def])
  then show ?thesis using writes_bind [OF writes_identity [OF f(1,2)] writes_bind [OF writes_header [OF f(3)] writes_targets [OF r]]] Some
    by (simp add: proxy_bytes_def)
qed

lemma reads_proxy:
  assumes "proxy_fits valid p" "ahead (proxy_bytes old wire p @ ys) post s" "owes 0 s" "(getReadEncoding s = Encoding_1_0) = old"
  shows "\<exists>s'. streamToProxy rd s = Some (Inr (map_option (sent old) p, s')) \<and> consumed (proxy_bytes old wire p) s s'"
proof (cases p)
  case None
  then have "ahead (identity_bytes (Identity [] []) @ ys) post s" using assms(2) by (simp add: proxy_bytes_def)
  moreover have "reads old readIdentity (Identity [] []) (identity_bytes (Identity [] []))" by (rule reads_identity) simp_all
  ultimately obtain s1 where "readIdentity s = Inr (Identity [] [], s1)" "consumed (identity_bytes (Identity [] [])) s s1"
    using assms(3,4) unfolding reads_def by blast
  then show ?thesis using None by (simp add: streamToProxy_def reference_read_def proxy_bytes_def)
next
  case (Some r)
  then have r: "reference_fits valid r" and f: "length (iname (r_identity r)) < 2 ^ 31" "length (icategory (r_identity r)) < 2 ^ 31" "length (r_facet r) < 2 ^ 31"
    and n: "\<not> (iname (r_identity r) = [] \<and> icategory (r_identity r) = [])"
    using assms(1) by (auto simp: proxy_fits_def reference_fits_def strings_fit_def)
  have a: "ahead (identity_bytes (r_identity r) @ header_bytes old r @ target_bytes wire r @ ys) post s" using assms(2) Some by (simp add: proxy_bytes_def)
  from reads_identity [OF f(1,2), of old] a assms(3,4) obtain s1 where s1: "readIdentity s = Inr (r_identity r, s1)" "consumed (identity_bytes (r_identity r)) s s1"
    unfolding reads_def by blast
  note a1 = ahead_consumed [OF a s1(2)]
  have "(getReadEncoding s1 = Encoding_1_0) = old" using assms(4) s1(2) frame_encoding [of s s1] by (simp add: consumed_def)
  from reads_header [OF f(3), of old] a1 consumed_owes [OF s1(2)] this obtain s2 where
    s2: "read_header (r_identity r) s1 = Inr ((sent old r)\<lparr>r_endpoints := [], r_adapterId := []\<rparr>, s2)" "consumed (header_bytes old r) s1 s2"
    unfolding reads_def by blast
  from reads_targets [OF r ahead_consumed [OF a1 s2(2)] consumed_owes [OF s2(2)], of old] obtain s3 where
    s3: "read_targets rd ((sent old r)\<lparr>r_endpoints := [], r_adapterId := []\<rparr>) s2 = Some (Inr (sent old r, s3))" "consumed (target_bytes wire r) s2 s3"
    by blast
  have "streamToProxy rd s = Some (Inr (Some (sent old r), s3))" using s1(1) s2(1) s3(1) n by (simp add: streamToProxy_def reference_read_def)
  moreover have "consumed (proxy_bytes old wire p) s s3" using consumed_trans [OF s1(2) consumed_trans [OF s2(2) s3(2)]] Some by (simp add: proxy_bytes_def)
  ultimately show ?thesis using Some by simp
qed

end

section \<open>The endpoints of the factory manager\<close>

fun endpoint_streamWrite :: "('e \<Rightarrow> writer) \<Rightarrow> 'e endpoint \<Rightarrow> writer" where
  "endpoint_streamWrite wr (Known k) = wr k"
| "endpoint_streamWrite wr (Opaque o1) = opaque_streamWrite o1"

text \<open>The bytes of a known endpoint are its type and what the argument \<open>known\<close> says.\<close>

fun endpoint_bytes :: "('e \<Rightarrow> int16 \<times> byte list) \<Rightarrow> 'e endpoint \<Rightarrow> byte list" where
  "endpoint_bytes known (Known k) = nat_to_le 2 (unat (fst (known k))) @ snd (known k)"
| "endpoint_bytes known (Opaque o1) = nat_to_le 2 (unat (opaqueType o1)) @ encaps_bytes (rawEncoding o1) (rawBytes o1)"

text \<open>What is asked of a factory and its endpoint: the endpoint is written with the type of the factory, which reads it back.\<close>

definition factory_contract :: "'e factory list \<Rightarrow> ('e \<Rightarrow> writer) \<Rightarrow> ('e \<Rightarrow> int16 \<times> byte list) \<Rightarrow> 'e \<Rightarrow> bool" where
  "factory_contract fs wr known k \<longleftrightarrow>
     (case efm_get (fst (known k)) fs of
        None \<Rightarrow> False
      | Some f \<Rightarrow>
          (\<forall>old. writes old (wr k) (nat_to_le 2 (unat (fst (known k))) @ snd (known k))) \<and>
          (\<forall>ys post s. ahead (snd (known k) @ ys) post s \<longrightarrow> owes 0 s \<longrightarrow> (\<exists>s'. fread f s = Some (Inr (k, s')) \<and> consumed (snd (known k)) s s')))"

fun endpoint_sendable :: "'e factory list \<Rightarrow> ('e \<Rightarrow> writer) \<Rightarrow> ('e \<Rightarrow> int16 \<times> byte list) \<Rightarrow> 'e endpoint \<Rightarrow> bool" where
  "endpoint_sendable fs wr known (Known k) \<longleftrightarrow> factory_contract fs wr known k"
| "endpoint_sendable fs wr known (Opaque o1) \<longleftrightarrow> supported (rawEncoding o1) \<and> 6 + length (rawBytes o1) < 2 ^ 31 \<and> efm_get (opaqueType o1) fs = None"

lemma consumed_forward: "owes 0 s \<Longrightarrow> consumed bs s (forward (length bs) s)"
  by (auto simp: consumed_def owes_def)

lemma readShort_ahead:
  assumes "ahead (nat_to_le 2 (unat v) @ ys) post s" "owes 0 s"
  shows "\<exists>s1. readShort s = Inr (v, s1) \<and> consumed (nat_to_le 2 (unat v)) s s1 \<and> ahead ys post s1 \<and> owes 0 s1"
  using codec_consumes [OF short_codec.codec_axioms TrueI assms] ahead_consumed [OF assms(1)] consumed_owes by blast

interpretation endpoints: endpoint_wire "endpoint_streamWrite wr" "efm_read readClass fs" "endpoint_bytes known" "endpoint_sendable fs wr known"
  for wr readClass fs known
proof
  fix e old ys post s
  assume v: "endpoint_sendable fs wr known e"
  show "writes old (endpoint_streamWrite wr e) (endpoint_bytes known e)"
  proof (cases e)
    case (Known k)
    then show ?thesis using v by (auto simp: factory_contract_def split: option.splits)
  next
    case (Opaque o1)
    then show ?thesis using v opaque_streamWrite_eq [of o1] by (auto simp: writes_def encaps_bytes_def)
  qed
  assume a: "ahead (endpoint_bytes known e @ ys) post s" and o: "owes 0 s"
  show "\<exists>s'. efm_read readClass fs s = Some (Inr (e, s')) \<and> consumed (endpoint_bytes known e) s s'"
  proof (cases e)
    case (Known k)
    obtain f where f: "efm_get (fst (known k)) fs = Some f" "\<And>ys post s. ahead (snd (known k) @ ys) post s \<Longrightarrow> owes 0 s \<Longrightarrow>
        \<exists>s'. fread f s = Some (Inr (k, s')) \<and> consumed (snd (known k)) s s'"
      using v Known by (auto simp: factory_contract_def split: option.splits)
    from a Known have "ahead (nat_to_le 2 (unat (fst (known k))) @ snd (known k) @ ys) post s" by simp
    from readShort_ahead [OF this o] obtain s1 where s1: "readShort s = Inr (fst (known k), s1)" "consumed (nat_to_le 2 (unat (fst (known k)))) s s1"
      "ahead (snd (known k) @ ys) post s1" "owes 0 s1" by blast
    from f(2) [OF s1(3,4)] obtain s2 where "fread f s1 = Some (Inr (k, s2))" "consumed (snd (known k)) s1 s2" by blast
    then show ?thesis using s1(1,2) f(1) Known consumed_trans by (fastforce simp: efm_read_def)
  next
    case (Opaque o1)
    let ?bs = "encaps_bytes (rawEncoding o1) (rawBytes o1)"
    from a Opaque have "ahead (nat_to_le 2 (unat (opaqueType o1)) @ ?bs @ ys) post s" by simp
    from readShort_ahead [OF this o] obtain s1 where s1: "readShort s = Inr (opaqueType o1, s1)" "consumed (nat_to_le 2 (unat (opaqueType o1))) s s1"
      "ahead (?bs @ ys) post s1" "owes 0 s1" by blast
    have "upcoming ?bs (ys @ post) s1" using s1(3) by (simp add: upcoming_def ahead_def)
    from opaque_read_eq [OF _ _ this] v Opaque have "opaque_read readClass (opaqueType o1) s1 = Some (Inr (o1, forward (length ?bs) s1))"
      by (simp add: encaps_bytes_def)
    then show ?thesis using s1(1) v Opaque consumed_trans [OF s1(2) consumed_forward [OF s1(4)]] by (fastforce simp: efm_read_def)
  qed
qed

section \<open>Properties\<close>

text \<open>
  C26. A proxy sent over a stream is received unchanged, the null proxy included, with the stream behind it; with the 1.0 encoding its versions become 1.0. Endpoints
  without a factory are passed on as opaque ones.
\<close>

theorem proxy_stream_roundtrip:
  assumes "proxy_fits (endpoint_sendable fs wr known) p" "stringConverter s = None" "startSeq s = -1"
    "(getReadEncoding s = Encoding_1_0) = old" "(getWriteEncoding s = Encoding_1_0) = old"
    "room (length (proxy_bytes old (endpoint_bytes known) p)) s" "length (b s) + length (proxy_bytes old (endpoint_bytes known) p) < 2 ^ 31"
  shows "\<exists>s1 s2. proxyToStream (endpoint_streamWrite wr) p s = Inr s1 \<and>
    streamToProxy (efm_read readClass fs) (s1\<lparr>i := length (b s)\<rparr>) = Some (Inr (map_option (sent old) p, s2)) \<and> i s2 = length (b s1)"
proof -
  let ?bs = "proxy_bytes old (endpoint_bytes known) p" let ?s1 = "s\<lparr>b := b s @ ?bs\<rparr>"
  have 1: "proxyToStream (endpoint_streamWrite wr) p s = Inr ?s1"
    using endpoints.writes_proxy [OF assms(1), of old] assms(2,5,6) unfolding writes_def by blast
  have "ahead (?bs @ []) [] (?s1\<lparr>i := length (b s)\<rparr>)" "owes 0 (?s1\<lparr>i := length (b s)\<rparr>)" "(getReadEncoding (?s1\<lparr>i := length (b s)\<rparr>) = Encoding_1_0) = old"
    using assms(2-4,7) by (simp_all add: ahead_def owes_def)
  from endpoints.reads_proxy [OF assms(1) this, of readClass] obtain s2 where
    "streamToProxy (efm_read readClass fs) (?s1\<lparr>i := length (b s)\<rparr>) = Some (Inr (map_option (sent old) p, s2))" "consumed ?bs (?s1\<lparr>i := length (b s)\<rparr>) s2"
    by blast
  then show ?thesis using 1 by (auto simp: consumed_def)
qed

theorem proxy_stream_roundtrip_witness:
  "\<exists>s1 s2. proxyToStream (endpoint_streamWrite (\<lambda>k. writeShort 1))
       (Some \<lparr>r_identity = Identity ''a'' ''c'', r_facet = ''f'', r_mode = ModeOneway, r_secure = True, r_protocol = Protocol_1_0, r_encoding = Encoding_1_1,
          r_endpoints = [Known (), Opaque \<lparr>opaqueType = 99, rawEncoding = Encoding_1_0, rawBytes = [1, 2]\<rparr>], r_adapterId = []\<rparr>)
       (BasicStream_new X86 1024 None no_wconv Encoding_1_1 False) = Inr s1 \<and>
     streamToProxy (efm_read (\<lambda>s. Inr s) [\<lparr>ftype = 1, fprotocol = ''loop'', fcreate = (\<lambda>s oa. Inr ()), fread = (\<lambda>s. Some (Inr ((), s)))\<rparr>]) (s1\<lparr>i := 0\<rparr>) =
       Some (Inr (Some \<lparr>r_identity = Identity ''a'' ''c'', r_facet = ''f'', r_mode = ModeOneway, r_secure = True, r_protocol = Protocol_1_0, r_encoding = Encoding_1_1,
          r_endpoints = [Known (), Opaque \<lparr>opaqueType = 99, rawEncoding = Encoding_1_0, rawBytes = [1, 2]\<rparr>], r_adapterId = []\<rparr>, s2)) \<and> i s2 = length (b s1)"
proof -
  let ?fs = "[\<lparr>ftype = 1, fprotocol = ''loop'', fcreate = (\<lambda>s oa. Inr ()), fread = (\<lambda>s. Some (Inr ((), s)))\<rparr>] :: unit factory list"
  let ?k = "\<lambda>k :: unit. (1 :: int16, [] :: byte list)" let ?s = "BasicStream_new X86 1024 None no_wconv Encoding_1_1 False"
  let ?r = "\<lparr>r_identity = Identity ''a'' ''c'', r_facet = ''f'', r_mode = ModeOneway, r_secure = True, r_protocol = Protocol_1_0, r_encoding = Encoding_1_1,
          r_endpoints = [Known (), Opaque \<lparr>opaqueType = 99, rawEncoding = Encoding_1_0, rawBytes = [1, 2]\<rparr>], r_adapterId = []\<rparr> :: unit endpoint reference"
  have "factory_contract ?fs (\<lambda>k. writeShort 1) ?k ()"
    using codec_writes [OF short_codec.codec_axioms TrueI, of _ 1] by (auto simp: factory_contract_def efm_get_def consumed_Nil)
  then have fits: "proxy_fits (endpoint_sendable ?fs (\<lambda>k. writeShort 1) ?k) (Some ?r)"
    by (simp add: proxy_fits_def reference_fits_def strings_fit_def efm_get_def supported_def isSupported_def Encoding_1_0_def currentEncoding_def
        encodingMajor_def encodingMinor_def)
  have e: "(getReadEncoding ?s = Encoding_1_0) = False" "(getWriteEncoding ?s = Encoding_1_0) = False"
    by (simp_all add: BasicStream_new_def getReadEncoding_def getWriteEncoding_def Encoding_1_0_def Encoding_1_1_def)
  have l: "length (proxy_bytes False (endpoint_bytes ?k) (Some ?r)) < 100"
    by (simp add: proxy_bytes_def identity_bytes_def header_bytes_def target_bytes_def string_bytes_def seq_bytes_def size_bytes_def version_bytes_def
        bytes_of_chars_def encaps_bytes_def)
  show ?thesis
    using proxy_stream_roundtrip [OF fits _ _ e] l by (auto simp: BasicStream_new_def sent_def)
qed

end
