(* ===== verification/Locator.thy ===== *)
theory Locator
  imports ProxyText Simulation "HOL-Library.Multiset"
begin

text \<open>
  The resolution of indirect proxies, \<^verbatim>\<open>LocatorInfo.cpp\<close>: the cache of endpoints and references, the requests that are sent to
  the locator, and the callers that wait for them, as callbacks or as blocked threads. The locator is outside: what it
  answers, and when, are events. A failed assertion is \<open>None\<close>. Finding a request and joining it are one step.
\<close>

section \<open>State\<close>

definition isIndirect :: "'e reference \<Rightarrow> bool" where
  "isIndirect r \<longleftrightarrow> r_endpoints r = []"

definition isWellKnown :: "'e reference \<Rightarrow> bool" where
  "isWellKnown r \<longleftrightarrow> r_endpoints r = [] \<and> r_adapterId r = []"

text \<open>What the locator can throw, and what a caller is told.\<close>

datatype locator_exception = AdapterNotFound | ObjectNotFound | OtherException string

datatype 'e answer = Found "'e list" bool | AdapterNotRegistered string | ObjectNotRegistered identity | LocalFailure string

text \<open>
  A request to the locator: the callbacks, each with its reference, time to live and caller (none for an update in the
  background), and the result, an exception or a proxy that may be null.
\<close>

record 'e lrequest =
  lr_ref :: "'e reference"
  lr_callbacks :: "('e reference \<times> int \<times> nat option) list"
  lr_wellKnownRefs :: "'e reference list"
  lr_sent :: bool
  lr_result :: "(locator_exception + 'e reference option) option"

text \<open>
  The locator table, the two maps of requests, and all requests there have been; a request is denoted by its position. The
  answers that were given, and the threads that wait: the thread, the request, and its arguments.
\<close>

record 'e locator =
  adapterEndpointsMap :: "string \<rightharpoonup> int \<times> 'e list"
  objectMap :: "identity \<rightharpoonup> int \<times> 'e reference"
  adapterRequests :: "string \<rightharpoonup> nat"
  objectRequests :: "identity \<rightharpoonup> nat"
  lrequests :: "'e lrequest list"
  answers :: "(nat \<times> 'e answer) list"
  blocked :: "(nat \<times> nat \<times> 'e reference \<times> int) list"

section \<open>The locator table\<close>

text \<open>Times are microseconds of the monotonic clock.\<close>

definition checkTTL :: "int \<Rightarrow> int \<Rightarrow> int \<Rightarrow> bool" where
  "checkTTL now time ttl \<longleftrightarrow> (if ttl < 0 then True else now - time \<le> ttl * 1000000)"

text \<open>The result, and the endpoints or the reference that the output parameter gets, fresh or not.\<close>

definition getAdapterEndpoints :: "int \<Rightarrow> string \<Rightarrow> int \<Rightarrow> 'e locator \<Rightarrow> bool \<times> 'e list" where
  "getAdapterEndpoints now adapter ttl s =
     (if ttl = 0 then (False, [])
      else (case adapterEndpointsMap s adapter of None \<Rightarrow> (False, []) | Some (time, endpoints) \<Rightarrow> (checkTTL now time ttl, endpoints)))"

definition addAdapterEndpoints :: "int \<Rightarrow> string \<Rightarrow> 'e list \<Rightarrow> 'e locator \<Rightarrow> 'e locator" where
  "addAdapterEndpoints now adapter endpoints s = s\<lparr>adapterEndpointsMap := (adapterEndpointsMap s)(adapter \<mapsto> (now, endpoints))\<rparr>"

definition removeAdapterEndpoints :: "string \<Rightarrow> 'e locator \<Rightarrow> 'e locator" where
  "removeAdapterEndpoints adapter s = s\<lparr>adapterEndpointsMap := (adapterEndpointsMap s)(adapter := None)\<rparr>"

definition getObjectReference :: "int \<Rightarrow> identity \<Rightarrow> int \<Rightarrow> 'e locator \<Rightarrow> bool \<times> 'e reference option" where
  "getObjectReference now ident ttl s =
     (if ttl = 0 then (False, None)
      else (case objectMap s ident of None \<Rightarrow> (False, None) | Some (time, r) \<Rightarrow> (checkTTL now time ttl, Some r)))"

definition addObjectReference :: "int \<Rightarrow> identity \<Rightarrow> 'e reference \<Rightarrow> 'e locator \<Rightarrow> 'e locator" where
  "addObjectReference now ident r s = s\<lparr>objectMap := (objectMap s)(ident \<mapsto> (now, r))\<rparr>"

definition removeObjectReference :: "identity \<Rightarrow> 'e locator \<Rightarrow> 'e locator" where
  "removeObjectReference ident s = s\<lparr>objectMap := (objectMap s)(ident := None)\<rparr>"

section \<open>Requests\<close>

definition new_request :: "'e reference \<Rightarrow> 'e lrequest" where
  "new_request ref = \<lparr>lr_ref = ref, lr_callbacks = [], lr_wellKnownRefs = [], lr_sent = False, lr_result = None\<rparr>"

definition getAdapterRequest :: "'e reference \<Rightarrow> 'e locator \<Rightarrow> (nat \<times> 'e locator) option" where
  "getAdapterRequest ref s =
     (case adapterRequests s (r_adapterId ref) of
        Some k \<Rightarrow> Some (k, s)
      | None \<Rightarrow>
          if isIndirect ref \<and> \<not> isWellKnown ref then
            Some (length (lrequests s), s\<lparr>lrequests := lrequests s @ [new_request ref],
              adapterRequests := (adapterRequests s)(r_adapterId ref \<mapsto> length (lrequests s))\<rparr>)
          else None)"

definition getObjectRequest :: "'e reference \<Rightarrow> 'e locator \<Rightarrow> (nat \<times> 'e locator) option" where
  "getObjectRequest ref s =
     (case objectRequests s (r_identity ref) of
        Some k \<Rightarrow> Some (k, s)
      | None \<Rightarrow>
          if isWellKnown ref then
            Some (length (lrequests s), s\<lparr>lrequests := lrequests s @ [new_request ref],
              objectRequests := (objectRequests s)(r_identity ref \<mapsto> length (lrequests s))\<rparr>)
          else None)"

definition give_answer :: "nat option \<Rightarrow> 'e answer \<Rightarrow> 'e locator \<Rightarrow> 'e locator" where
  "give_answer cb a s = (case cb of None \<Rightarrow> s | Some c \<Rightarrow> s\<lparr>answers := answers s @ [(c, a)]\<rparr>)"

fun getEndpointsException :: "'e reference \<Rightarrow> locator_exception \<Rightarrow> 'e answer" where
  "getEndpointsException ref AdapterNotFound = AdapterNotRegistered (r_adapterId ref)"
| "getEndpointsException ref ObjectNotFound = ObjectNotRegistered (r_identity ref)"
| "getEndpointsException ref (OtherException e) = LocalFailure e"

text \<open>\<^verbatim>\<open>RequestCallback::exception\<close>.\<close>

definition callback_exception :: "locator_exception \<Rightarrow> 'e reference \<times> int \<times> nat option \<Rightarrow> 'e locator \<Rightarrow> 'e locator option" where
  "callback_exception e c s = (case c of (ref, ttl, cb) \<Rightarrow> if isIndirect ref then Some (give_answer cb (getEndpointsException ref e) s) else None)"

text \<open>
  \<^verbatim>\<open>Request::addCallback\<close>; \<open>respond\<close> is what the callback does with the proxy of a request that has been answered. Sending
  the request is the flag; its outcome is an event.
\<close>

definition addCallback ::
    "('e reference \<times> int \<times> nat option \<Rightarrow> 'e reference option \<Rightarrow> 'e locator \<Rightarrow> 'e locator option) \<Rightarrow> nat \<Rightarrow> 'e reference \<Rightarrow> 'e reference option \<Rightarrow>
     int \<Rightarrow> nat option \<Rightarrow> 'e locator \<Rightarrow> 'e locator option" where
  "addCallback respond k ref wellKnownRef ttl cb s =
     (let q = lrequests s ! k
      in case lr_result q of
           Some (Inr proxy) \<Rightarrow> respond (ref, ttl, cb) proxy s
         | Some (Inl e) \<Rightarrow> callback_exception e (ref, ttl, cb) s
         | None \<Rightarrow>
             Some (s\<lparr>lrequests := (lrequests s)[k := q\<lparr>lr_callbacks := lr_callbacks q @ [(ref, ttl, cb)],
               lr_wellKnownRefs := (case wellKnownRef of None \<Rightarrow> lr_wellKnownRefs q | Some r \<Rightarrow> lr_wellKnownRefs q @ [r]), lr_sent := True\<rparr>]\<rparr>))"

text \<open>\<^verbatim>\<open>RequestCallback::response\<close>, where no endpoints have to be resolved further.\<close>

definition response_endpoints :: "'e reference \<Rightarrow> 'e reference option \<Rightarrow> 'e list" where
  "response_endpoints ref proxy =
     (case proxy of
        None \<Rightarrow> []
      | Some r \<Rightarrow> if isWellKnown ref \<and> \<not> isSupported (r_encoding ref) (r_encoding r) then [] else if \<not> isIndirect r then r_endpoints r else [])"

definition adapter_response :: "'e reference \<times> int \<times> nat option \<Rightarrow> 'e reference option \<Rightarrow> 'e locator \<Rightarrow> 'e locator option" where
  "adapter_response c proxy s = (case c of (ref, ttl, cb) \<Rightarrow> Some (give_answer cb (Found (response_endpoints ref proxy) False) s))"

section \<open>Resolving a reference\<close>

text \<open>The end of \<^verbatim>\<open>getEndpoints\<close>, with its assertion.\<close>

definition cached_answer :: "nat option \<Rightarrow> 'e list \<Rightarrow> 'e locator \<Rightarrow> 'e locator option" where
  "cached_answer cb endpoints s = (if endpoints = [] then None else Some (give_answer cb (Found endpoints True) s))"

text \<open>\<^verbatim>\<open>Request::getEndpoints\<close> up to where the thread \<open>w\<close> waits for the outcome.\<close>

definition wait_request :: "nat \<Rightarrow> 'e reference \<Rightarrow> 'e reference option \<Rightarrow> int \<Rightarrow> nat \<Rightarrow> 'e locator \<Rightarrow> 'e locator" where
  "wait_request k ref wellKnownRef ttl w s =
     (let q = lrequests s ! k
      in s\<lparr>lrequests := (case lr_result q of
             Some (Inr proxy) \<Rightarrow> lrequests s
           | _ \<Rightarrow> (lrequests s)[k := q\<lparr>lr_wellKnownRefs := (case wellKnownRef of None \<Rightarrow> lr_wellKnownRefs q | Some r \<Rightarrow> lr_wellKnownRefs q @ [r]),
               lr_sent := True\<rparr>]),
           blocked := blocked s @ [(w, k, ref, ttl)]\<rparr>)"

text \<open>
  The two \<^verbatim>\<open>LocatorInfo::getEndpoints\<close>, for a reference with an adapter id. They differ in how a request is joined: the caller
  \<open>Waits w\<close> as a thread, or leaves a callback.
\<close>

datatype caller = Waits nat | Callback "nat option"

fun caller_id :: "caller \<Rightarrow> nat option" where
  "caller_id (Waits w) = Some w"
| "caller_id (Callback cb) = cb"

definition join_request ::
    "('e reference \<times> int \<times> nat option \<Rightarrow> 'e reference option \<Rightarrow> 'e locator \<Rightarrow> 'e locator option) \<Rightarrow> nat \<Rightarrow> 'e reference \<Rightarrow> 'e reference option \<Rightarrow>
     int \<Rightarrow> caller \<Rightarrow> 'e locator \<Rightarrow> 'e locator option" where
  "join_request respond k ref wellKnownRef ttl who s =
     (case who of Waits w \<Rightarrow> Some (wait_request k ref wellKnownRef ttl w s) | Callback cb \<Rightarrow> addCallback respond k ref wellKnownRef ttl cb s)"

definition resolve_adapter :: "bool \<Rightarrow> int \<Rightarrow> 'e reference \<Rightarrow> 'e reference option \<Rightarrow> int \<Rightarrow> caller \<Rightarrow> 'e locator \<Rightarrow> 'e locator option" where
  "resolve_adapter background now ref wellKnownRef ttl who s =
     (case getAdapterEndpoints now (r_adapterId ref) ttl s of
        (hit, endpoints) \<Rightarrow>
          if hit then cached_answer (caller_id who) endpoints s
          else
            (case getAdapterRequest ref s of
               None \<Rightarrow> None
             | Some (k, s1) \<Rightarrow>
                 if background \<and> endpoints \<noteq> [] then
                   (case addCallback adapter_response k ref wellKnownRef ttl None s1 of
                      None \<Rightarrow> None
                    | Some s2 \<Rightarrow> cached_answer (caller_id who) endpoints s2)
                 else join_request adapter_response k ref wellKnownRef ttl who s1))"

text \<open>\<^verbatim>\<open>RequestCallback::response\<close> in full: the proxy of a well-known object may have an adapter id.\<close>

definition object_response ::
    "bool \<Rightarrow> int \<Rightarrow> 'e reference \<times> int \<times> nat option \<Rightarrow> 'e reference option \<Rightarrow> 'e locator \<Rightarrow> 'e locator option" where
  "object_response background now c proxy s =
     (case c of (ref, ttl, cb) \<Rightarrow>
       (case proxy of
          Some r \<Rightarrow>
            if \<not> (isWellKnown ref \<and> \<not> isSupported (r_encoding ref) (r_encoding r)) \<and> isIndirect r \<and> isWellKnown ref \<and> \<not> isWellKnown r
            then resolve_adapter background now r (Some ref) ttl (Callback cb) s
            else adapter_response c proxy s
        | None \<Rightarrow> adapter_response c proxy s))"

text \<open>For a well-known object. The inner \<open>None\<close> is the return while the caller waits.\<close>

definition find_object :: "bool \<Rightarrow> int \<Rightarrow> 'e reference \<Rightarrow> int \<Rightarrow> caller \<Rightarrow> 'e locator \<Rightarrow> ('e reference option \<times> 'e locator) option" where
  "find_object background now ref ttl who s =
     (case getObjectReference now (r_identity ref) ttl s of
        (hit, ro) \<Rightarrow>
          if hit then Some (ro, s)
          else
            (case getObjectRequest ref s of
               None \<Rightarrow> None
             | Some (k, s1) \<Rightarrow>
                 if background \<and> ro \<noteq> None then
                   map_option (\<lambda>s2. (ro, s2)) (addCallback (object_response background now) k ref None ttl None s1)
                 else map_option (\<lambda>s2. (None, s2)) (join_request (object_response background now) k ref None ttl who s1)))"

definition resolve :: "bool \<Rightarrow> int \<Rightarrow> 'e reference \<Rightarrow> int \<Rightarrow> caller \<Rightarrow> 'e locator \<Rightarrow> 'e locator option" where
  "resolve background now ref ttl who s =
     (if \<not> isIndirect ref then None
      else if \<not> isWellKnown ref then resolve_adapter background now ref None ttl who s
      else
        (case find_object background now ref ttl who s of
           None \<Rightarrow> None
         | Some (None, s2) \<Rightarrow> Some s2
         | Some (Some r, s2) \<Rightarrow>
             if \<not> isIndirect r then cached_answer (caller_id who) (r_endpoints r) s2
             else if \<not> isWellKnown r then resolve_adapter background now r (Some ref) ttl who s2
             else cached_answer (caller_id who) [] s2))"

text \<open>The rest of \<^verbatim>\<open>Request::getEndpoints\<close>, when the thread has been woken up.\<close>

definition wake :: "bool \<Rightarrow> int \<Rightarrow> nat \<times> nat \<times> 'e reference \<times> int \<Rightarrow> 'e locator \<Rightarrow> 'e locator option" where
  "wake background now e s =
     (case e of (w, k, ref, ttl) \<Rightarrow>
       (let s1 = s\<lparr>blocked := remove1 e (blocked s)\<rparr>
        in case lr_result (lrequests s ! k) of
             None \<Rightarrow> None
           | Some (Inl ex) \<Rightarrow> callback_exception ex (ref, ttl, Some w) s1
           | Some (Inr None) \<Rightarrow> Some (give_answer (Some w) (Found [] False) s1)
           | Some (Inr (Some r)) \<Rightarrow>
               if \<not> isIndirect r then Some (give_answer (Some w) (Found (r_endpoints r) False) s1)
               else if isWellKnown ref \<and> \<not> isWellKnown r then resolve_adapter background now r (Some ref) ttl (Waits w) s1
               else Some (give_answer (Some w) (Found [] False) s1)))"

section \<open>The outcome of a request\<close>

definition finishRequest :: "int \<Rightarrow> 'e reference \<Rightarrow> 'e reference list \<Rightarrow> 'e reference option \<Rightarrow> bool \<Rightarrow> 'e locator \<Rightarrow> 'e locator option" where
  "finishRequest now ref wellKnownRefs proxy notRegistered s =
     (let s1 = (case proxy of
                  Some r \<Rightarrow> if isIndirect r then fold (\<lambda>q. removeObjectReference (r_identity q)) wellKnownRefs s else s
                | None \<Rightarrow> fold (\<lambda>q. removeObjectReference (r_identity q)) wellKnownRefs s)
      in if \<not> isWellKnown ref then
           (let s2 = (case proxy of
                        Some r \<Rightarrow>
                          if \<not> isIndirect r then addAdapterEndpoints now (r_adapterId ref) (r_endpoints r) s1
                          else if notRegistered then removeAdapterEndpoints (r_adapterId ref) s1 else s1
                      | None \<Rightarrow> if notRegistered then removeAdapterEndpoints (r_adapterId ref) s1 else s1)
            in if adapterRequests s2 (r_adapterId ref) = None then None
               else Some (s2\<lparr>adapterRequests := (adapterRequests s2)(r_adapterId ref := None)\<rparr>))
         else
           (let s2 = (case proxy of
                        Some r \<Rightarrow>
                          if \<not> isWellKnown r then addObjectReference now (r_identity ref) r s1
                          else if notRegistered then removeObjectReference (r_identity ref) s1 else s1
                      | None \<Rightarrow> if notRegistered then removeObjectReference (r_identity ref) s1 else s1)
            in if objectRequests s2 (r_identity ref) = None then None
               else Some (s2\<lparr>objectRequests := (objectRequests s2)(r_identity ref := None)\<rparr>)))"

fun each_callback :: "('c \<Rightarrow> 's \<Rightarrow> 's option) \<Rightarrow> 'c list \<Rightarrow> 's \<Rightarrow> 's option" where
  "each_callback f [] s = Some s"
| "each_callback f (c # cs) s = (case f c s of None \<Rightarrow> None | Some s1 \<Rightarrow> each_callback f cs s1)"

definition set_result :: "nat \<Rightarrow> locator_exception + 'e reference option \<Rightarrow> 'e locator \<Rightarrow> 'e locator" where
  "set_result k x s = s\<lparr>lrequests := (lrequests s)[k := (lrequests s ! k)\<lparr>lr_result := Some x\<rparr>]\<rparr>"

definition request_response :: "bool \<Rightarrow> int \<Rightarrow> nat \<Rightarrow> 'e reference option \<Rightarrow> 'e locator \<Rightarrow> 'e locator option" where
  "request_response background now k proxy s =
     (let q = lrequests s ! k
      in case finishRequest now (lr_ref q) (lr_wellKnownRefs q) proxy False s of
           None \<Rightarrow> None
         | Some s1 \<Rightarrow> each_callback (\<lambda>c. object_response background now c proxy) (lr_callbacks q) (set_result k (Inr proxy) s1))"

text \<open>The two exceptions that are user exceptions mean that the adapter or object is not registered.\<close>

definition request_exception :: "int \<Rightarrow> nat \<Rightarrow> locator_exception \<Rightarrow> 'e locator \<Rightarrow> 'e locator option" where
  "request_exception now k e s =
     (let q = lrequests s ! k
      in case finishRequest now (lr_ref q) (lr_wellKnownRefs q) None (e = AdapterNotFound \<or> e = ObjectNotFound) s of
           None \<Rightarrow> None
         | Some s1 \<Rightarrow> each_callback (callback_exception e) (lr_callbacks q) (set_result k (Inl e) s1))"

definition clearCache :: "'e reference \<Rightarrow> 'e locator \<Rightarrow> 'e locator option" where
  "clearCache ref s =
     (if \<not> isIndirect ref then None
      else if \<not> isWellKnown ref then Some (removeAdapterEndpoints (r_adapterId ref) s)
      else
        (let s1 = removeObjectReference (r_identity ref) s
         in case objectMap s (r_identity ref) of
              None \<Rightarrow> Some s1
            | Some (time, r) \<Rightarrow> if isIndirect r \<and> \<not> isWellKnown r then Some (removeAdapterEndpoints (r_adapterId r) s1) else Some s1))"

definition locator_destroy :: "'e locator \<Rightarrow> 'e locator" where
  "locator_destroy s = s\<lparr>adapterEndpointsMap := Map.empty, objectMap := Map.empty\<rparr>"

section \<open>The system\<close>

text \<open>
  What can happen: a thread or a callback asks for the endpoints of an indirect reference, at some time; a request that has been
  sent is answered, with any proxy, or fails; a thread whose request has an outcome wakes up; a caller that could not
  connect clears the cache. The callers are recorded.
\<close>

datatype 'e locator_event =
    Ask int "'e reference" int caller
  | Answered int nat "'e reference option"
  | Failed int nat locator_exception
  | Wake int "nat \<times> nat \<times> 'e reference \<times> int"
  | Clear "'e reference"
  | DestroyLocator

type_synonym 'e locator_world = "nat list \<times> 'e locator"

definition ask_caller :: "caller \<Rightarrow> nat list" where
  "ask_caller who = (case caller_id who of None \<Rightarrow> [] | Some c \<Rightarrow> [c])"

fun locator_enabled :: "'e locator_event \<Rightarrow> 'e locator_world \<Rightarrow> bool" where
  "locator_enabled (Ask now ref ttl who) w \<longleftrightarrow> isIndirect ref"
| "locator_enabled (Answered now k proxy) w \<longleftrightarrow>
     k < length (lrequests (snd w)) \<and> lr_sent (lrequests (snd w) ! k) \<and> lr_result (lrequests (snd w) ! k) = None"
| "locator_enabled (Failed now k e) w \<longleftrightarrow>
     k < length (lrequests (snd w)) \<and> lr_sent (lrequests (snd w) ! k) \<and> lr_result (lrequests (snd w) ! k) = None"
| "locator_enabled (Wake now e) w \<longleftrightarrow> e \<in> set (blocked (snd w)) \<and> lr_result (lrequests (snd w) ! fst (snd e)) \<noteq> None"
| "locator_enabled (Clear ref) w \<longleftrightarrow> isIndirect ref"
| "locator_enabled DestroyLocator w \<longleftrightarrow> True"

fun locator_step :: "bool \<Rightarrow> 'e locator_event \<Rightarrow> 'e locator_world \<Rightarrow> 'e locator_world option" where
  "locator_step background (Ask now ref ttl who) (asked, s) = map_option (Pair (asked @ ask_caller who)) (resolve background now ref ttl who s)"
| "locator_step background (Answered now k proxy) (asked, s) = map_option (Pair asked) (request_response background now k proxy s)"
| "locator_step background (Failed now k e) (asked, s) = map_option (Pair asked) (request_exception now k e s)"
| "locator_step background (Wake now e) (asked, s) = map_option (Pair asked) (wake background now e s)"
| "locator_step background (Clear ref) (asked, s) = map_option (Pair asked) (clearCache ref s)"
| "locator_step background DestroyLocator (asked, s) = Some (asked, locator_destroy s)"

definition locator_new :: "'e locator" where
  "locator_new = \<lparr>adapterEndpointsMap = Map.empty, objectMap = Map.empty, adapterRequests = Map.empty, objectRequests = Map.empty,
     lrequests = [], answers = [], blocked = []\<rparr>"

end
