(* ===== verification/LocatorProofs.thy ===== *)
theory LocatorProofs
  imports Locator
begin

text \<open>
  No caller of the locator is lost or answered twice, and no assertion of \<^verbatim>\<open>LocatorInfo.cpp\<close> fails, in any order of events. The
  invariant says what the tables and the maps of requests hold; the callers that were answered or wait are counted, and every
  operation accounts for the callers it is given.
\<close>

section \<open>The invariant\<close>

definition pending :: "'e locator \<Rightarrow> nat \<Rightarrow> bool" where
  "pending s k \<longleftrightarrow> k < length (lrequests s) \<and> lr_result (lrequests s ! k) = None"

definition registered :: "'e locator \<Rightarrow> 'e reference \<Rightarrow> nat option" where
  "registered s ref = (if isWellKnown ref then objectRequests s (r_identity ref) else adapterRequests s (r_adapterId ref))"

definition tables_ok :: "'e locator \<Rightarrow> bool" where
  "tables_ok s \<longleftrightarrow> (\<forall>a t es. adapterEndpointsMap s a = Some (t, es) \<longrightarrow> es \<noteq> []) \<and>
     (\<forall>i t r. objectMap s i = Some (t, r) \<longrightarrow> \<not> isWellKnown r)"

text \<open>The requests in \<open>X\<close> may still have to be sent.\<close>

definition requests_ok :: "nat set \<Rightarrow> 'e locator \<Rightarrow> bool" where
  "requests_ok X s \<longleftrightarrow>
     (\<forall>a k. adapterRequests s a = Some k \<longrightarrow> pending s k \<and> \<not> isWellKnown (lr_ref (lrequests s ! k)) \<and> r_adapterId (lr_ref (lrequests s ! k)) = a) \<and>
     (\<forall>i k. objectRequests s i = Some k \<longrightarrow> pending s k \<and> isWellKnown (lr_ref (lrequests s ! k)) \<and> r_identity (lr_ref (lrequests s ! k)) = i) \<and>
     (\<forall>k. pending s k \<longrightarrow> registered s (lr_ref (lrequests s ! k)) = Some k \<and> (lr_sent (lrequests s ! k) \<or> k \<in> X) \<and>
        (\<forall>c \<in> set (lr_callbacks (lrequests s ! k)). isIndirect (fst c))) \<and>
     (\<forall>e \<in> set (blocked s). fst (snd e) < length (lrequests s) \<and> isIndirect (fst (snd (snd e))))"

section \<open>Counting the callers\<close>

definition callback_caller :: "'e reference \<times> int \<times> nat option \<Rightarrow> nat multiset" where
  "callback_caller c = (case snd (snd c) of None \<Rightarrow> {#} | Some w \<Rightarrow> {#w#})"

lemma callback_caller_simps [simp]: "callback_caller (r, t, None) = {#}" "callback_caller (r, t, Some w) = {#w#}"
  by (simp_all add: callback_caller_def)

definition callback_callers :: "('e reference \<times> int \<times> nat option) list \<Rightarrow> nat multiset" where
  "callback_callers cs = sum_list (map callback_caller cs)"

lemma callback_callers_simps [simp]:
  "callback_callers [] = {#}" "callback_callers (c # cs) = callback_caller c + callback_callers cs"
  "callback_callers (cs @ ds) = callback_callers cs + callback_callers ds"
  by (simp_all add: callback_callers_def)

definition request_callers :: "'e lrequest \<Rightarrow> nat multiset" where
  "request_callers q = (if lr_result q = None then callback_callers (lr_callbacks q) else {#})"

definition waiting :: "'e locator \<Rightarrow> nat multiset" where
  "waiting s = sum_list (map request_callers (lrequests s)) + mset (map fst (blocked s))"

definition answered :: "'e locator \<Rightarrow> nat multiset" where
  "answered s = mset (map fst (answers s))"

text \<open>An operation that was given the callers \<open>M\<close>: it does not fail, and they have been answered or wait afterwards.\<close>

definition accounts :: "nat multiset \<Rightarrow> 'e locator \<Rightarrow> 'e locator option \<Rightarrow> bool" where
  "accounts M s r \<longleftrightarrow> (\<exists>s'. r = Some s' \<and> tables_ok s' \<and> requests_ok {} s' \<and> answered s' + waiting s' = answered s + waiting s + M)"

lemma sum_list_replace:
  fixes f :: "'q \<Rightarrow> 'm::comm_monoid_add"
  assumes "k < length xs"
  shows "sum_list (map f (xs[k := x])) + f (xs ! k) = sum_list (map f xs) + f x"
proof -
  have "xs = take k xs @ (xs ! k) # drop (Suc k) xs" using assms by (simp add: id_take_nth_drop)
  moreover have "xs[k := x] = take k xs @ x # drop (Suc k) xs" using assms by (simp add: upd_conv_take_nth_drop)
  ultimately have a: "sum_list (map f xs) = sum_list (map f (take k xs)) + (f (xs ! k) + sum_list (map f (drop (Suc k) xs)))"
    and b: "sum_list (map f (xs[k := x])) = sum_list (map f (take k xs)) + (f x + sum_list (map f (drop (Suc k) xs)))"
    by (metis (no_types) list.simps(9) map_append sum_list.Cons sum_list_append)+
  show ?thesis unfolding a b by (simp add: ac_simps)
qed

text \<open>Fields the invariant does not look at.\<close>

lemma pending_frame [simp]:
  "pending (s\<lparr>answers := as\<rparr>) = pending s" "pending (s\<lparr>blocked := bs\<rparr>) = pending s"
  "pending (s\<lparr>adapterEndpointsMap := am\<rparr>) = pending s" "pending (s\<lparr>objectMap := om\<rparr>) = pending s"
  by (simp_all add: pending_def fun_eq_iff)

lemma registered_frame [simp]:
  "registered (s\<lparr>answers := as\<rparr>) = registered s" "registered (s\<lparr>blocked := bs\<rparr>) = registered s"
  "registered (s\<lparr>adapterEndpointsMap := am\<rparr>) = registered s" "registered (s\<lparr>objectMap := om\<rparr>) = registered s"
  "registered (s\<lparr>lrequests := qs\<rparr>) = registered s"
  by (simp_all add: registered_def fun_eq_iff)

lemma requests_ok_frame [simp]:
  "requests_ok X (s\<lparr>answers := as\<rparr>) = requests_ok X s"
  "requests_ok X (s\<lparr>adapterEndpointsMap := am\<rparr>) = requests_ok X s" "requests_ok X (s\<lparr>objectMap := om\<rparr>) = requests_ok X s"
  by (simp_all add: requests_ok_def)

lemma tables_ok_frame [simp]:
  "tables_ok (s\<lparr>answers := as\<rparr>) = tables_ok s" "tables_ok (s\<lparr>blocked := bs\<rparr>) = tables_ok s"
  "tables_ok (s\<lparr>lrequests := qs\<rparr>) = tables_ok s" "tables_ok (s\<lparr>adapterRequests := ar\<rparr>) = tables_ok s"
  "tables_ok (s\<lparr>objectRequests := orq\<rparr>) = tables_ok s"
  by (simp_all add: tables_ok_def)

lemma counting_frame [simp]:
  "answered (s\<lparr>answers := as\<rparr>) = mset (map fst as)" "waiting (s\<lparr>answers := as\<rparr>) = waiting s"
  "answered (s\<lparr>blocked := bs\<rparr>) = answered s" "answered (s\<lparr>lrequests := qs\<rparr>) = answered s"
  "answered (s\<lparr>adapterEndpointsMap := am\<rparr>) = answered s" "waiting (s\<lparr>adapterEndpointsMap := am\<rparr>) = waiting s"
  "answered (s\<lparr>objectMap := om\<rparr>) = answered s" "waiting (s\<lparr>objectMap := om\<rparr>) = waiting s"
  "answered (s\<lparr>adapterRequests := ar\<rparr>) = answered s" "waiting (s\<lparr>adapterRequests := ar\<rparr>) = waiting s"
  "answered (s\<lparr>objectRequests := orq\<rparr>) = answered s" "waiting (s\<lparr>objectRequests := orq\<rparr>) = waiting s"
  by (simp_all add: answered_def waiting_def)

text \<open>A caller joins request \<open>k\<close>, which has no outcome yet and is then sent.\<close>

lemma pending_update:
  assumes "pending s k" "lr_result q = None"
  shows "pending (s\<lparr>lrequests := (lrequests s)[k := q]\<rparr>) = pending s"
  using assms by (auto simp: pending_def nth_list_update fun_eq_iff)

lemma requests_ok_update:
  assumes ok: "requests_ok {k} s" "pending s k"
    and q: "lr_ref q = lr_ref (lrequests s ! k)" "lr_result q = None" "lr_sent q" "\<forall>c \<in> set (lr_callbacks q). isIndirect (fst c)"
  shows "requests_ok {} (s\<lparr>lrequests := (lrequests s)[k := q]\<rparr>)"
proof -
  have r: "lr_ref ((lrequests s)[k := q] ! j) = lr_ref (lrequests s ! j)" for j
    using q(1) ok(2) by (simp add: nth_list_update pending_def)
  have c: "lr_sent ((lrequests s)[k := q] ! j) \<and> (\<forall>c \<in> set (lr_callbacks ((lrequests s)[k := q] ! j)). isIndirect (fst c))" if "pending s j" for j
    using that ok q by (auto simp: nth_list_update pending_def requests_ok_def)
  show ?thesis using ok(1) c unfolding requests_ok_def pending_update [OF ok(2) q(2)] by (simp add: r)
qed

lemma waiting_update:
  assumes "pending s k" "lr_result q = None"
  shows "waiting (s\<lparr>lrequests := (lrequests s)[k := q]\<rparr>) + callback_callers (lr_callbacks (lrequests s ! k)) =
    waiting s + callback_callers (lr_callbacks q)"
  using sum_list_replace [of k "lrequests s" request_callers q] assms
  by (simp add: waiting_def pending_def request_callers_def add.commute add.left_commute)

lemma accounts_join:
  assumes "tables_ok s" "requests_ok {k} s" "pending s k" "isIndirect (fst c)"
  shows "accounts (callback_caller c) s (Some (s\<lparr>lrequests := (lrequests s)[k := (lrequests s ! k)\<lparr>lr_callbacks := lr_callbacks (lrequests s ! k) @ [c],
     lr_wellKnownRefs := ws, lr_sent := True\<rparr>]\<rparr>))"
proof -
  let ?q = "(lrequests s ! k)\<lparr>lr_callbacks := lr_callbacks (lrequests s ! k) @ [c], lr_wellKnownRefs := ws, lr_sent := True\<rparr>"
  have q: "lr_result ?q = None" using assms by (simp add: pending_def)
  have "\<forall>c \<in> set (lr_callbacks (lrequests s ! k)). isIndirect (fst c)" using assms by (simp add: requests_ok_def)
  then have "requests_ok {} (s\<lparr>lrequests := (lrequests s)[k := ?q]\<rparr>)"
    using assms q by (intro requests_ok_update) auto
  with waiting_update [OF assms(3) q] assms(1) show ?thesis by (simp add: accounts_def)
qed

lemma accounts_block:
  assumes "tables_ok s" "requests_ok {k} s" "pending s k" "isIndirect ref"
  shows "accounts {#w#} s (Some (wait_request k ref wk ttl w s))"
proof -
  define q where "q = (lrequests s ! k)\<lparr>lr_wellKnownRefs := (case wk of None \<Rightarrow> lr_wellKnownRefs (lrequests s ! k) | Some r \<Rightarrow>
    lr_wellKnownRefs (lrequests s ! k) @ [r]), lr_sent := True\<rparr>"
  let ?s = "s\<lparr>lrequests := (lrequests s)[k := q]\<rparr>"
  have s: "wait_request k ref wk ttl w s = ?s\<lparr>blocked := blocked s @ [(w, k, ref, ttl)]\<rparr>"
    using assms by (simp add: wait_request_def pending_def Let_def q_def)
  have q: "lr_result q = None" "lr_ref q = lr_ref (lrequests s ! k)" "lr_sent q" "lr_callbacks q = lr_callbacks (lrequests s ! k)"
    using assms by (simp_all add: pending_def q_def)
  have "\<forall>c \<in> set (lr_callbacks (lrequests s ! k)). isIndirect (fst c)" using assms by (simp add: requests_ok_def)
  then have "requests_ok {} ?s" using assms q by (intro requests_ok_update) simp_all
  moreover have "k < length (lrequests s)" using assms by (simp add: pending_def)
  ultimately have "requests_ok {} (wait_request k ref wk ttl w s)" using assms(4) unfolding s requests_ok_def by auto
  moreover have "waiting (wait_request k ref wk ttl w s) = waiting s + {#w#}"
    using waiting_update [OF assms(3) q(1)] unfolding s q by (simp add: waiting_def)
  ultimately show ?thesis using assms(1) unfolding s by (simp add: accounts_def)
qed

lemma accounts_answer:
  assumes "tables_ok s" "requests_ok {} s"
  shows "accounts (callback_caller (ref, ttl, cb)) s (Some (give_answer cb a s))"
  using assms by (cases cb) (simp_all add: accounts_def give_answer_def answered_def)

section \<open>Requests\<close>

lemma pending_append:
  "pending (s\<lparr>lrequests := lrequests s @ [new_request ref]\<rparr>) j \<longleftrightarrow> pending s j \<or> j = length (lrequests s)"
  by (auto simp: pending_def new_request_def nth_append)

text \<open>A request that has been found or made: it has no outcome, and all requests but it have been sent.\<close>

definition has_request :: "'e locator \<Rightarrow> (nat \<times> 'e locator) option \<Rightarrow> bool" where
  "has_request s r \<longleftrightarrow> (\<exists>k s1. r = Some (k, s1) \<and> tables_ok s1 \<and> requests_ok {k} s1 \<and> pending s1 k \<and> answered s1 = answered s \<and> waiting s1 = waiting s)"

lemma pending_maps_frame [simp]:
  "pending (s\<lparr>adapterRequests := ar\<rparr>) = pending s" "pending (s\<lparr>objectRequests := orq\<rparr>) = pending s"
  by (simp_all add: pending_def fun_eq_iff)

lemma requests_ok_mono: "requests_ok X s \<Longrightarrow> X \<subseteq> Y \<Longrightarrow> requests_ok Y s"
  unfolding requests_ok_def by blast

lemma requests_ok_new:
  assumes ok: "requests_ok {} s" and new: "registered s ref = None"
    and maps: "adapterRequests t = (if isWellKnown ref then adapterRequests s else (adapterRequests s)(r_adapterId ref \<mapsto> length (lrequests s)))"
      "objectRequests t = (if isWellKnown ref then (objectRequests s)(r_identity ref \<mapsto> length (lrequests s)) else objectRequests s)"
    and t: "lrequests t = lrequests s @ [new_request ref]" "blocked t = blocked s"
  shows "requests_ok {length (lrequests s)} t" "pending t (length (lrequests s))"
proof -
  have p: "pending t j \<longleftrightarrow> pending s j \<or> j = length (lrequests s)" for j
    using pending_append [of s ref j] t by (simp add: pending_def)
  have old: "lrequests t ! j = lrequests s ! j" if "pending s j" for j using that t by (simp add: pending_def nth_append)
  have last: "lrequests t ! length (lrequests s) = new_request ref" by (simp add: t nth_append)
  have keys: "registered t (lr_ref (lrequests s ! j)) = Some j" if "pending s j" for j
  proof -
    have "registered s (lr_ref (lrequests s ! j)) = Some j" using ok that by (simp add: requests_ok_def)
    with new maps show ?thesis by (auto simp: registered_def split: if_splits)
  qed
  have reg: "registered t ref = Some (length (lrequests s))" using maps by (simp add: registered_def)
  show "pending t (length (lrequests s))" by (simp add: p)
  have a: "pending t k \<and> \<not> isWellKnown (lr_ref (lrequests t ! k)) \<and> r_adapterId (lr_ref (lrequests t ! k)) = a"
    if "adapterRequests t a = Some k" for a k
    using ok that maps(1) by (auto simp: requests_ok_def p old last new_request_def split: if_splits)
  have o: "pending t k \<and> isWellKnown (lr_ref (lrequests t ! k)) \<and> r_identity (lr_ref (lrequests t ! k)) = i"
    if "objectRequests t i = Some k" for i k
    using ok that maps(2) by (auto simp: requests_ok_def p old last new_request_def split: if_splits)
  have each: "registered t (lr_ref (lrequests t ! k)) = Some k \<and> (lr_sent (lrequests t ! k) \<or> k \<in> {length (lrequests s)}) \<and>
    (\<forall>c \<in> set (lr_callbacks (lrequests t ! k)). isIndirect (fst c))" if "pending t k" for k
  proof (cases "pending s k")
    case True
    then show ?thesis using ok keys [OF True] by (simp add: old requests_ok_def)
  next
    case False
    with that have "k = length (lrequests s)" by (simp add: p)
    then show ?thesis using reg by (simp add: last new_request_def)
  qed
  have b: "\<forall>e \<in> set (blocked t). fst (snd e) < length (lrequests t) \<and> isIndirect (fst (snd (snd e)))"
    using ok t unfolding requests_ok_def by auto
  show "requests_ok {length (lrequests s)} t" unfolding requests_ok_def using a o each b by blast
qed

lemma getAdapterRequest_has_request:
  assumes "tables_ok s" "requests_ok {} s" "isIndirect ref" "\<not> isWellKnown ref"
  shows "has_request s (getAdapterRequest ref s)"
proof (cases "adapterRequests s (r_adapterId ref)")
  case None
  let ?t = "s\<lparr>lrequests := lrequests s @ [new_request ref], adapterRequests := (adapterRequests s)(r_adapterId ref \<mapsto> length (lrequests s))\<rparr>"
  have "getAdapterRequest ref s = Some (length (lrequests s), ?t)" using assms None by (simp add: getAdapterRequest_def)
  moreover have "requests_ok {length (lrequests s)} ?t" "pending ?t (length (lrequests s))"
    using requests_ok_new [of s ref ?t] assms None by (simp_all add: registered_def)
  moreover have "waiting ?t = waiting s" by (simp add: waiting_def request_callers_def new_request_def)
  ultimately show ?thesis using assms(1) by (simp add: has_request_def)
next
  case (Some k)
  then have "pending s k" using assms(2) by (simp add: requests_ok_def)
  with Some assms requests_ok_mono [of "{}" s "{k}"] show ?thesis by (simp add: has_request_def getAdapterRequest_def)
qed

lemma getObjectRequest_has_request:
  assumes "tables_ok s" "requests_ok {} s" "isWellKnown ref"
  shows "has_request s (getObjectRequest ref s)"
proof (cases "objectRequests s (r_identity ref)")
  case None
  let ?t = "s\<lparr>lrequests := lrequests s @ [new_request ref], objectRequests := (objectRequests s)(r_identity ref \<mapsto> length (lrequests s))\<rparr>"
  have "getObjectRequest ref s = Some (length (lrequests s), ?t)" using assms None by (simp add: getObjectRequest_def)
  moreover have "requests_ok {length (lrequests s)} ?t" "pending ?t (length (lrequests s))"
    using requests_ok_new [of s ref ?t] assms None by (simp_all add: registered_def)
  moreover have "waiting ?t = waiting s" by (simp add: waiting_def request_callers_def new_request_def)
  ultimately show ?thesis using assms(1) by (simp add: has_request_def)
next
  case (Some k)
  then have "pending s k" using assms(2) by (simp add: requests_ok_def)
  with Some assms requests_ok_mono [of "{}" s "{k}"] show ?thesis by (simp add: has_request_def getObjectRequest_def)
qed

section \<open>Resolving\<close>

lemma accounts_bind:
  assumes "accounts M s r" "\<And>s'. tables_ok s' \<Longrightarrow> requests_ok {} s' \<Longrightarrow> r = Some s' \<Longrightarrow> accounts N s' (f s')"
  shows "accounts (M + N) s (case r of None \<Rightarrow> None | Some s' \<Rightarrow> f s')"
proof -
  obtain s' where s': "r = Some s'" "tables_ok s'" "requests_ok {} s'" "answered s' + waiting s' = answered s + waiting s + M"
    using assms(1) by (auto simp: accounts_def)
  from assms(2) [OF s'(2,3,1)] show ?thesis using s'(4) by (simp add: accounts_def s'(1) ac_simps)
qed

lemma accounts_has_request:
  assumes "has_request s r" "\<And>k s1. tables_ok s1 \<Longrightarrow> requests_ok {k} s1 \<Longrightarrow> pending s1 k \<Longrightarrow> accounts M s1 (f k s1)"
  shows "accounts M s (case r of None \<Rightarrow> None | Some (k, s1) \<Rightarrow> f k s1)"
proof -
  obtain k s1 where s1: "r = Some (k, s1)" "tables_ok s1" "requests_ok {k} s1" "pending s1 k" "answered s1 = answered s" "waiting s1 = waiting s"
    using assms(1) by (auto simp: has_request_def)
  from assms(2) [OF s1(2-4)] show ?thesis by (simp add: accounts_def s1)
qed

lemma addCallback_accounts:
  assumes "tables_ok s" "requests_ok {k} s" "pending s k" "isIndirect ref"
  shows "accounts (callback_caller (ref, ttl, cb)) s (addCallback respond k ref wk ttl cb s)"
  using accounts_join [OF assms(1-3), of "(ref, ttl, cb)"] assms(3,4) by (simp add: addCallback_def Let_def pending_def)

definition who_callers :: "caller \<Rightarrow> nat multiset" where
  "who_callers who = (case caller_id who of None \<Rightarrow> {#} | Some w \<Rightarrow> {#w#})"

lemma callback_caller_who: "callback_caller (ref, ttl, caller_id who) = who_callers who"
  by (simp add: callback_caller_def who_callers_def)

lemma join_request_accounts:
  assumes "tables_ok s" "requests_ok {k} s" "pending s k" "isIndirect ref"
  shows "accounts (who_callers who) s (join_request respond k ref wk ttl who s)"
  using addCallback_accounts [OF assms, of ttl "caller_id who" respond wk] accounts_block [OF assms]
  by (cases who) (simp_all add: join_request_def who_callers_def callback_caller_def)

lemma cached_answer_accounts:
  assumes "tables_ok s" "requests_ok {} s" "endpoints \<noteq> []"
  shows "accounts (who_callers who) s (cached_answer (caller_id who) endpoints s)"
  using accounts_answer [OF assms(1,2), of undefined undefined "caller_id who" "Found endpoints True"] assms(3)
  by (simp add: cached_answer_def callback_caller_who)

lemma resolve_adapter_accounts:
  assumes "tables_ok s" "requests_ok {} s" "isIndirect ref" "\<not> isWellKnown ref"
  shows "accounts (who_callers who) s (resolve_adapter background now ref wk ttl who s)"
proof -
  obtain hit es where cache: "getAdapterEndpoints now (r_adapterId ref) ttl s = (hit, es)" by force
  show ?thesis
  proof (cases hit)
    case True
    with cache have "es \<noteq> []" using assms(1) by (auto simp: getAdapterEndpoints_def tables_ok_def split: if_splits option.splits)
    with cache True cached_answer_accounts [OF assms(1,2), of es who] show ?thesis by (simp add: resolve_adapter_def)
  next
    case miss: False
    have "accounts (who_callers who) s1
        (if background \<and> es \<noteq> [] then (case addCallback adapter_response k ref wk ttl None s1 of None \<Rightarrow> None
           | Some s2 \<Rightarrow> cached_answer (caller_id who) es s2)
         else join_request adapter_response k ref wk ttl who s1)"
      if s1: "tables_ok s1" "requests_ok {k} s1" "pending s1 k" for k s1
    proof (cases "background \<and> es \<noteq> []")
      case True
      from addCallback_accounts [OF s1 assms(3), of ttl None adapter_response wk]
      have "accounts {#} s1 (addCallback adapter_response k ref wk ttl None s1)" by simp
      from accounts_bind [OF this, of "who_callers who" "cached_answer (caller_id who) es"] cached_answer_accounts [of _ es who] True
      show ?thesis by simp
    qed (use join_request_accounts [OF s1 assms(3)] in auto)
    from accounts_has_request [OF getAdapterRequest_has_request [OF assms], of "who_callers who", OF this] cache miss
    show ?thesis by (simp add: resolve_adapter_def)
  qed
qed

lemma response_accounts:
  assumes "tables_ok s" "requests_ok {} s" "isIndirect (fst c)"
  shows "accounts (callback_caller c) s (object_response background now c proxy s)"
  using accounts_answer [OF assms(1,2)] resolve_adapter_accounts [OF assms(1,2), of _ "Callback (snd (snd c))"] callback_caller_who [of _ _ "Callback (snd (snd c))"]
  by (cases c) (auto simp: object_response_def adapter_response_def who_callers_def callback_caller_def split: option.splits)

lemma exception_accounts:
  assumes "tables_ok s" "requests_ok {} s" "isIndirect (fst c)"
  shows "accounts (callback_caller c) s (callback_exception e c s)"
  using accounts_answer [OF assms(1,2)] assms(3) by (cases c) (simp add: callback_exception_def)

lemma resolve_accounts:
  assumes "tables_ok s" "requests_ok {} s" "isIndirect ref"
  shows "accounts (who_callers who) s (resolve background now ref ttl who s)"
proof (cases "isWellKnown ref")
  case False
  with resolve_adapter_accounts [OF assms False] assms show ?thesis by (simp add: resolve_def)
next
  case wk: True
  obtain hit ro where cache: "getObjectReference now (r_identity ref) ttl s = (hit, ro)" by force
  have nwk: "\<not> isWellKnown r" if "ro = Some r" for r
    using cache that assms(1) by (auto simp: getObjectReference_def tables_ok_def split: if_splits option.splits)
  define go where "go s2 = (case ro of None \<Rightarrow> Some s2 | Some r \<Rightarrow> if \<not> isIndirect r then cached_answer (caller_id who) (r_endpoints r) s2
    else if \<not> isWellKnown r then resolve_adapter background now r (Some ref) ttl who s2 else cached_answer (caller_id who) [] s2)" for s2
  have go: "accounts (who_callers who) s2 (go s2)" if "tables_ok s2" "requests_ok {} s2" "ro = Some r" for s2 r
    using that nwk [OF that(3)] cached_answer_accounts [OF that(1,2), of "r_endpoints r" who] resolve_adapter_accounts [OF that(1,2), of r who]
    by (simp add: go_def isIndirect_def)
  have some: "ro \<noteq> None" if hit using cache that by (auto simp: getObjectReference_def split: if_splits option.splits)
  show ?thesis
  proof (cases hit)
    case True
    with some obtain r where r: "ro = Some r" by blast
    have "resolve background now ref ttl who s = go s" using cache True wk assms(3) r by (simp add: resolve_def find_object_def go_def)
    with go [OF assms(1,2) r] show ?thesis by simp
  next
    case miss: False
    let ?f = "\<lambda>k s1. if background \<and> ro \<noteq> None
      then (case addCallback (object_response background now) k ref None ttl None s1 of None \<Rightarrow> None | Some s2 \<Rightarrow> go s2)
      else join_request (object_response background now) k ref None ttl who s1"
    have "accounts (who_callers who) s1 (?f k s1)" if s1: "tables_ok s1" "requests_ok {k} s1" "pending s1 k" for k s1
    proof (cases "background \<and> ro \<noteq> None")
      case True
      from addCallback_accounts [OF s1 assms(3), of ttl None "object_response background now" None]
      have "accounts {#} s1 (addCallback (object_response background now) k ref None ttl None s1)" by simp
      from accounts_bind [OF this, of "who_callers who" go] go True show ?thesis by force
    qed (use join_request_accounts [OF s1 assms(3)] in auto)
    note this = accounts_has_request [OF getObjectRequest_has_request [OF assms(1,2) wk], of "who_callers who" ?f, OF this]
    moreover have "resolve background now ref ttl who s = (case getObjectRequest ref s of None \<Rightarrow> None | Some (k, s1) \<Rightarrow> ?f k s1)"
      using cache miss wk assms(3) by (auto simp: resolve_def find_object_def go_def split: option.splits)
    ultimately show ?thesis by simp
  qed
qed

section \<open>The outcome of a request\<close>

lemma wake_accounts:
  assumes "tables_ok s" "requests_ok {} s" "e \<in> set (blocked s)" "lr_result (lrequests s ! fst (snd e)) \<noteq> None"
  shows "accounts {#} s (wake background now e s)"
proof -
  obtain w k ref ttl where e: "e = (w, k, ref, ttl)" by (cases e)
  define s1 where "s1 = s\<lparr>blocked := remove1 e (blocked s)\<rparr>"
  have ref: "isIndirect ref" using assms(2,3) unfolding requests_ok_def e by force
  have ok: "tables_ok s1" "requests_ok {} s1"
    using assms set_remove1_subset [of e "blocked s"] unfolding s1_def requests_ok_def by auto
  have "mset (blocked s) = add_mset e (mset (remove1 e (blocked s)))" using assms(3) by simp
  from arg_cong [OF this, of "image_mset fst"]
  have "mset (map fst (blocked s)) = add_mset w (mset (map fst (remove1 e (blocked s))))" by (simp add: e)
  then have count: "waiting s1 + {#w#} = waiting s" "answered s1 = answered s" by (simp_all add: waiting_def s1_def)
  have answer: "accounts {#w#} s1 (Some (give_answer (Some w) a s1))" for a
    using accounts_answer [OF ok, of undefined undefined "Some w"] by simp
  have adapter: "accounts {#w#} s1 (resolve_adapter background now r wk ttl (Waits w) s1)" if "isIndirect r" "\<not> isWellKnown r" for r wk
    using resolve_adapter_accounts [OF ok that, of "Waits w"] by (simp add: who_callers_def)
  have "accounts {#w#} s1 (wake background now e s)"
    using assms(4) ref answer adapter exception_accounts [OF ok, of "(ref, ttl, Some w)"]
    by (auto simp: wake_def Let_def e s1_def [symmetric, unfolded e] split: option.splits sum.splits)
  with count show ?thesis by (simp add: accounts_def ac_simps)
qed

lemma each_callback_accounts:
  assumes "tables_ok s" "requests_ok {} s"
    and "\<And>c s. c \<in> set cs \<Longrightarrow> tables_ok s \<Longrightarrow> requests_ok {} s \<Longrightarrow> accounts (callback_caller c) s (f c s)"
  shows "accounts (callback_callers cs) s (each_callback f cs s)"
  using assms
proof (induction cs arbitrary: s)
  case (Cons c cs)
  have "accounts (callback_caller c) s (f c s)" using Cons.prems by simp
  from accounts_bind [OF this, of "callback_callers cs" "each_callback f cs"] Cons show ?case by simp
qed (simp add: accounts_def)

lemma tables_ok_tables: "tables_ok s \<Longrightarrow> adapterEndpointsMap t = adapterEndpointsMap s \<Longrightarrow> objectMap t \<subseteq>\<^sub>m objectMap s \<Longrightarrow> tables_ok t"
  unfolding tables_ok_def map_le_def dom_def by (metis (mono_tags, lifting) mem_Collect_eq option.distinct(1))

lemma fold_removeObjectReference:
  "\<exists>om. fold (\<lambda>q. removeObjectReference (r_identity q)) ws s = s\<lparr>objectMap := om\<rparr> \<and> om \<subseteq>\<^sub>m objectMap s"
proof (induction ws arbitrary: s)
  case Nil
  have "s = s\<lparr>objectMap := objectMap s\<rparr>" by simp
  then show ?case by (metis fold_simps(1) map_le_refl)
next
  case (Cons q ws)
  from Cons [of "removeObjectReference (r_identity q) s"]
  obtain om where om: "fold (\<lambda>q. removeObjectReference (r_identity q)) ws (removeObjectReference (r_identity q) s) =
      removeObjectReference (r_identity q) s\<lparr>objectMap := om\<rparr>" "om \<subseteq>\<^sub>m objectMap (removeObjectReference (r_identity q) s)"
    by blast
  have "objectMap (removeObjectReference (r_identity q) s) \<subseteq>\<^sub>m objectMap s" by (simp add: removeObjectReference_def map_le_def)
  with om(2) have "om \<subseteq>\<^sub>m objectMap s" by (rule map_le_trans)
  moreover have "removeObjectReference (r_identity q) s\<lparr>objectMap := om\<rparr> = s\<lparr>objectMap := om\<rparr>" by (simp add: removeObjectReference_def)
  ultimately show ?case using om(1) by (intro exI [of _ om]) simp
qed

definition unregister :: "'e reference \<Rightarrow> 'e locator \<Rightarrow> 'e locator" where
  "unregister ref s = (if isWellKnown ref then s\<lparr>objectRequests := (objectRequests s)(r_identity ref := None)\<rparr>
     else s\<lparr>adapterRequests := (adapterRequests s)(r_adapterId ref := None)\<rparr>)"

lemma finishRequest_unregisters:
  assumes ok: "tables_ok s" and ref: "registered s ref = Some k" 
  shows "\<exists>am om. finishRequest now ref ws proxy nr s = Some (unregister ref (s\<lparr>adapterEndpointsMap := am, objectMap := om\<rparr>)) \<and>
    tables_ok (s\<lparr>adapterEndpointsMap := am, objectMap := om\<rparr>)"
proof -
  obtain om where om: "fold (\<lambda>q. removeObjectReference (r_identity q)) ws s = s\<lparr>objectMap := om\<rparr>" "om \<subseteq>\<^sub>m objectMap s"
    using fold_removeObjectReference by blast
  have same: "s = s\<lparr>adapterEndpointsMap := adapterEndpointsMap s, objectMap := objectMap s\<rparr>" by simp
  have less: "tables_ok (s\<lparr>objectMap := om\<rparr>)" using tables_ok_tables [OF ok] om(2) by simp
  define s1 where "s1 = (case proxy of
      Some r \<Rightarrow> if isIndirect r then fold (\<lambda>q. removeObjectReference (r_identity q)) ws s else s
    | None \<Rightarrow> fold (\<lambda>q. removeObjectReference (r_identity q)) ws s)"
  obtain om' where s1: "s1 = s\<lparr>adapterEndpointsMap := adapterEndpointsMap s, objectMap := om'\<rparr>" "tables_ok s1"
  proof (cases "proxy = None \<or> isIndirect (the proxy)")
    case True
    then have "s1 = s\<lparr>objectMap := om\<rparr>" by (auto simp: s1_def om split: option.splits)
    with less that [of om] show ?thesis by simp
  next
    case False
    then have "s1 = s" by (auto simp: s1_def split: option.splits)
    with ok that [of "objectMap s"] show ?thesis by simp
  qed
  have "\<exists>am om. finishRequest now ref ws proxy nr s = Some (unregister ref (s1\<lparr>adapterEndpointsMap := am, objectMap := om\<rparr>)) \<and>
    tables_ok (s1\<lparr>adapterEndpointsMap := am, objectMap := om\<rparr>)"
  proof (cases "isWellKnown ref")
    case True
    define t where "t = (case proxy of Some r \<Rightarrow> if \<not> isWellKnown r then (objectMap s1)(r_identity ref \<mapsto> (now, r))
        else if nr then (objectMap s1)(r_identity ref := None) else objectMap s1
      | None \<Rightarrow> if nr then (objectMap s1)(r_identity ref := None) else objectMap s1)"
    have "objectRequests s1 (r_identity ref) = Some k" using ref True s1(1) by (simp add: registered_def)
    then have "finishRequest now ref ws proxy nr s = Some (unregister ref (s1\<lparr>adapterEndpointsMap := adapterEndpointsMap s1, objectMap := t\<rparr>))"
      unfolding finishRequest_def s1_def [symmetric] Let_def using True
      by (cases proxy) (simp_all add: t_def unregister_def addObjectReference_def removeObjectReference_def)
    moreover have "tables_ok (s1\<lparr>adapterEndpointsMap := adapterEndpointsMap s1, objectMap := t\<rparr>)"
      using s1(2) by (auto simp: t_def tables_ok_def split: option.splits)
    ultimately show ?thesis by blast
  next
    case False
    define t where "t = (case proxy of Some r \<Rightarrow> if \<not> isIndirect r then (adapterEndpointsMap s1)(r_adapterId ref \<mapsto> (now, r_endpoints r))
        else if nr then (adapterEndpointsMap s1)(r_adapterId ref := None) else adapterEndpointsMap s1
      | None \<Rightarrow> if nr then (adapterEndpointsMap s1)(r_adapterId ref := None) else adapterEndpointsMap s1)"
    have "adapterRequests s1 (r_adapterId ref) = Some k" using ref False s1(1) by (simp add: registered_def)
    then have "finishRequest now ref ws proxy nr s = Some (unregister ref (s1\<lparr>adapterEndpointsMap := t, objectMap := objectMap s1\<rparr>))"
      unfolding finishRequest_def s1_def [symmetric] Let_def using False
      by (cases proxy) (simp_all add: t_def unregister_def addAdapterEndpoints_def removeAdapterEndpoints_def)
    moreover have "tables_ok (s1\<lparr>adapterEndpointsMap := t, objectMap := objectMap s1\<rparr>)"
      using s1(2) by (auto simp: t_def tables_ok_def isIndirect_def split: option.splits)
    ultimately show ?thesis by blast
  qed
  then show ?thesis unfolding s1(1) by simp
qed

lemma set_result_requests_ok:
  assumes ok: "requests_ok {} s" and k: "pending s k"
    and u: "u = set_result k x (unregister (lr_ref (lrequests s ! k)) (s\<lparr>adapterEndpointsMap := am, objectMap := om\<rparr>))"
  shows "requests_ok {} u" "answered u = answered s" "waiting u + callback_callers (lr_callbacks (lrequests s ! k)) = waiting s"
proof -
  let ?ref = "\<lambda>j. lr_ref (lrequests s ! j)" and ?q = "(lrequests s ! k)\<lparr>lr_result := Some x\<rparr>"
  have qs: "lrequests u = (lrequests s)[k := ?q]" "blocked u = blocked s" "answers u = answers s"
    by (simp_all add: u set_result_def unregister_def)
  have p: "pending u j \<longleftrightarrow> pending s j \<and> j \<noteq> k" for j using k by (auto simp: pending_def qs nth_list_update)
  have same: "lrequests u ! j = lrequests s ! j" if "j \<noteq> k" for j using that by (simp add: qs)
  have ad: "adapterRequests u a = (if \<not> isWellKnown (?ref k) \<and> a = r_adapterId (?ref k) then None else adapterRequests s a)" for a
    by (simp add: u set_result_def unregister_def)
  have ob: "objectRequests u i = (if isWellKnown (?ref k) \<and> i = r_identity (?ref k) then None else objectRequests s i)" for i
    by (simp add: u set_result_def unregister_def)
  have a: "pending u j \<and> \<not> isWellKnown (lr_ref (lrequests u ! j)) \<and> r_adapterId (lr_ref (lrequests u ! j)) = a" if "adapterRequests u a = Some j" for a j
  proof -
    have "adapterRequests s a = Some j" using that by (auto simp: ad split: if_splits)
    then have "pending s j" "\<not> isWellKnown (?ref j)" "r_adapterId (?ref j) = a" using ok by (simp_all add: requests_ok_def)
    moreover with that have "j \<noteq> k" by (auto simp: ad)
    ultimately show ?thesis by (simp add: p same)
  qed
  have o: "pending u j \<and> isWellKnown (lr_ref (lrequests u ! j)) \<and> r_identity (lr_ref (lrequests u ! j)) = i" if "objectRequests u i = Some j" for i j
  proof -
    have "objectRequests s i = Some j" using that by (auto simp: ob split: if_splits)
    then have "pending s j" "isWellKnown (?ref j)" "r_identity (?ref j) = i" using ok by (simp_all add: requests_ok_def)
    moreover with that have "j \<noteq> k" by (auto simp: ob)
    ultimately show ?thesis by (simp add: p same)
  qed
  have each: "registered u (lr_ref (lrequests u ! j)) = Some j \<and> (lr_sent (lrequests u ! j) \<or> j \<in> {}) \<and>
      (\<forall>c \<in> set (lr_callbacks (lrequests u ! j)). isIndirect (fst c))" if "pending u j" for j
  proof -
    have j: "pending s j" "j \<noteq> k" using that by (simp_all add: p)
    have reg: "registered s (?ref j) = Some j" "registered s (?ref k) = Some k" using ok j(1) k by (simp_all add: requests_ok_def)
    then have "registered u (?ref j) = Some j" using j(2) by (auto simp: registered_def ad ob split: if_splits)
    with ok j show ?thesis by (simp add: same requests_ok_def)
  qed
  have "\<forall>e \<in> set (blocked u). fst (snd e) < length (lrequests u) \<and> isIndirect (fst (snd (snd e)))"
    using ok by (simp add: requests_ok_def qs)
  with a o each show "requests_ok {} u" unfolding requests_ok_def by blast
  show "answered u = answered s" by (simp add: answered_def qs)
  show "waiting u + callback_callers (lr_callbacks (lrequests s ! k)) = waiting s"
    using sum_list_replace [of k "lrequests s" request_callers ?q] k
    by (simp add: waiting_def qs request_callers_def pending_def add.commute add.left_commute)
qed

lemma finish_accounts:
  assumes "tables_ok s" "requests_ok {} s" "pending s k"
    and f: "\<And>c s. tables_ok s \<Longrightarrow> requests_ok {} s \<Longrightarrow> isIndirect (fst c) \<Longrightarrow> accounts (callback_caller c) s (f c s)"
  shows "accounts {#} s (case finishRequest now (lr_ref (lrequests s ! k)) ws proxy nr s of None \<Rightarrow> None
    | Some s1 \<Rightarrow> each_callback f (lr_callbacks (lrequests s ! k)) (set_result k x s1))"
proof -
  let ?cs = "lr_callbacks (lrequests s ! k)"
  have k: "registered s (lr_ref (lrequests s ! k)) = Some k" "\<forall>c \<in> set ?cs. isIndirect (fst c)" using assms(2,3) by (simp_all add: requests_ok_def)
  from finishRequest_unregisters [OF assms(1) k(1)] obtain am om where
    fin: "finishRequest now (lr_ref (lrequests s ! k)) ws proxy nr s = Some (unregister (lr_ref (lrequests s ! k)) (s\<lparr>adapterEndpointsMap := am, objectMap := om\<rparr>))"
      "tables_ok (s\<lparr>adapterEndpointsMap := am, objectMap := om\<rparr>)" by blast
  define u where "u = set_result k x (unregister (lr_ref (lrequests s ! k)) (s\<lparr>adapterEndpointsMap := am, objectMap := om\<rparr>))"
  have "tables_ok u" using fin(2) by (simp add: u_def set_result_def unregister_def)
  with set_result_requests_ok [OF assms(2,3) u_def] each_callback_accounts [of u ?cs f] f k(2)
  have "accounts (callback_callers ?cs) u (each_callback f ?cs u)" by blast
  with set_result_requests_ok [OF assms(2,3) u_def] show ?thesis by (simp add: fin(1) u_def [symmetric] accounts_def ac_simps)
qed

lemma request_response_accounts:
  assumes "tables_ok s" "requests_ok {} s" "pending s k"
  shows "accounts {#} s (request_response background now k proxy s)"
  unfolding request_response_def Let_def by (rule finish_accounts [OF assms]) (rule response_accounts)

lemma request_exception_accounts:
  assumes "tables_ok s" "requests_ok {} s" "pending s k"
  shows "accounts {#} s (request_exception now k e s)"
  unfolding request_exception_def Let_def by (rule finish_accounts [OF assms]) (rule exception_accounts)

lemma tables_ok_remove:
  assumes "tables_ok s"
  shows "tables_ok (s\<lparr>adapterEndpointsMap := (adapterEndpointsMap s)(a := None)\<rparr>)" "tables_ok (s\<lparr>objectMap := (objectMap s)(ident := None)\<rparr>)"
  using assms by (simp_all add: tables_ok_def)

lemma remove_accounts:
  assumes "accounts M s (Some t)"
  shows "accounts M s (Some (removeAdapterEndpoints a t))" "accounts M s (Some (removeObjectReference ident t))"
  using assms by (simp_all add: accounts_def removeAdapterEndpoints_def removeObjectReference_def tables_ok_remove)

lemma clearCache_accounts:
  assumes "tables_ok s" "requests_ok {} s" "isIndirect ref"
  shows "accounts {#} s (clearCache ref s)"
proof -
  have "accounts {#} s (Some s)" using assms by (simp add: accounts_def)
  then show ?thesis using assms(3) by (simp add: clearCache_def Let_def remove_accounts split: option.splits)
qed

section \<open>The system\<close>

definition locator_inv :: "'e locator_world \<Rightarrow> bool" where
  "locator_inv w \<longleftrightarrow> tables_ok (snd w) \<and> requests_ok {} (snd w) \<and> mset (fst w) = answered (snd w) + waiting (snd w)"

lemma locator_new_inv: "locator_inv ([], locator_new)"
  by (simp add: locator_inv_def locator_new_def tables_ok_def requests_ok_def answered_def waiting_def pending_def)

lemma locator_step_inv:
  assumes inv: "locator_inv w" and enabled: "locator_enabled e w"
  shows "\<exists>w'. locator_step background e w = Some w' \<and> locator_inv w'"
proof -
  obtain asked s where w: "w = (asked, s)" by (cases w)
  have ok: "tables_ok s" "requests_ok {} s" "mset asked = answered s + waiting s" using inv by (simp_all add: locator_inv_def w)
  have step: "\<exists>w'. map_option (Pair (asked @ more)) r = Some w' \<and> locator_inv w'" if "accounts (mset more) s r" for more r
  proof -
    obtain s' where s': "r = Some s'" "tables_ok s'" "requests_ok {} s'" "answered s' + waiting s' = answered s + waiting s + mset more"
      using \<open>accounts (mset more) s r\<close> unfolding accounts_def by blast
    have "mset (asked @ more) = answered s' + waiting s'" unfolding s'(4) mset_append ok(3) by (rule refl)
    with s' show ?thesis unfolding locator_inv_def by simp
  qed
  have same: "\<exists>w'. map_option (Pair asked) r = Some w' \<and> locator_inv w'" if "accounts {#} s r" for r
    using step [of "[]" r] that by simp
  show ?thesis
  proof (cases e)
    case (Ask now ref ttl who)
    then have "isIndirect ref" using enabled by simp
    from resolve_accounts [OF ok(1,2) this, of who background now ttl] have "accounts (mset (ask_caller who)) s (resolve background now ref ttl who s)"
      by (simp add: who_callers_def ask_caller_def split: option.splits)
    from step [OF this] show ?thesis unfolding w Ask by simp
  next
    case (Answered now k proxy)
    then show ?thesis using same [OF request_response_accounts [OF ok(1,2)]] enabled w by (simp add: pending_def)
  next
    case (Failed now k ex)
    then show ?thesis using same [OF request_exception_accounts [OF ok(1,2)]] enabled w by (simp add: pending_def)
  next
    case (Wake now b)
    then show ?thesis using same [OF wake_accounts [OF ok(1,2)]] enabled w by simp
  next
    case (Clear ref)
    then show ?thesis using same [OF clearCache_accounts [OF ok(1,2)]] enabled w by simp
  next
    case DestroyLocator
    have "accounts {#} s (Some (locator_destroy s))" using ok by (simp add: accounts_def locator_destroy_def tables_ok_def)
    from same [OF this] show ?thesis unfolding w DestroyLocator by simp
  qed
qed

interpretation lsys: safe_system locator_enabled "locator_step background" locator_inv for background
  by unfold_locales (rule locator_step_inv)

lemma locator_run_inv: "run_events locator_enabled (locator_step background) es ([], locator_new) = Some w \<Longrightarrow> locator_inv w"
  using lsys.run_safe [OF locator_new_inv, of background es] by simp

definition request_key :: "'e lrequest \<Rightarrow> identity + string" where
  "request_key q = (if isWellKnown (lr_ref q) then Inl (r_identity (lr_ref q)) else Inr (r_adapterId (lr_ref q)))"

lemma request_keys_distinct:
  assumes "requests_ok {} s"
  shows "distinct (map request_key (filter (\<lambda>q. lr_result q = None) (lrequests s)))"
proof -
  have key: "registered s (lr_ref q) = (case request_key q of Inl ident \<Rightarrow> objectRequests s ident | Inr a \<Rightarrow> adapterRequests s a)" for q
    by (simp add: request_key_def registered_def)
  have *: "i = j" if "pending s i" "pending s j" "request_key (lrequests s ! i) = request_key (lrequests s ! j)" for i j
  proof -
    have "registered s (lr_ref (lrequests s ! i)) = Some i" "registered s (lr_ref (lrequests s ! j)) = Some j"
      using assms that(1,2) by (simp_all add: requests_ok_def)
    with that(3) show ?thesis by (simp add: key)
  qed
  have "distinct (map (\<lambda>k. request_key (lrequests s ! k)) (filter (pending s) [0..<length (lrequests s)]))"
    unfolding distinct_map by (auto intro!: inj_onI dest: *)
  moreover have "map (\<lambda>k. lrequests s ! k) (filter (pending s) [0..<length (lrequests s)]) = filter (\<lambda>q. lr_result q = None) (lrequests s)"
  proof -
    have "filter (pending s) [0..<length (lrequests s)] = filter (\<lambda>k. lr_result (lrequests s ! k) = None) [0..<length (lrequests s)]"
      by (intro filter_cong) (simp_all add: pending_def)
    moreover have "filter (\<lambda>q. lr_result q = None) (map (\<lambda>k. lrequests s ! k) [0..<length (lrequests s)]) =
      map (\<lambda>k. lrequests s ! k) (filter (\<lambda>k. lr_result (lrequests s ! k) = None) [0..<length (lrequests s)])"
      by (simp add: filter_map o_def)
    ultimately show ?thesis by (simp add: map_nth)
  qed
  from arg_cong [OF this, of "map request_key"]
  have "map (\<lambda>k. request_key (lrequests s ! k)) (filter (pending s) [0..<length (lrequests s)]) = map request_key (filter (\<lambda>q. lr_result q = None) (lrequests s))"
    by (simp add: o_def)
  ultimately show ?thesis by simp
qed

section \<open>Properties\<close>

text \<open>
  C5. In any sequence of requests for endpoints, synchronous or with a callback, answers of the locator, failures, wake-ups, cleared
  caches and a destroyed locator, at any times and with updates in the background or not, no assertion fails; every caller
  has been answered once or waits; and no two requests for the same adapter or object are outstanding.
\<close>

theorem locator_accounts:
  "\<exists>asked s. run_events locator_enabled (locator_step background) es ([], locator_new) = Some (asked, s) \<and>
     mset asked = mset (map fst (answers s)) + waiting s \<and>
     distinct (map request_key (filter (\<lambda>q. lr_result q = None) (lrequests s)))"
proof -
  obtain asked s where run: "run_events locator_enabled (locator_step background) es ([], locator_new) = Some (asked, s)" "locator_inv (asked, s)"
    using lsys.run_safe [OF locator_new_inv, of background es] by auto
  with request_keys_distinct [of s] show ?thesis by (auto simp: locator_inv_def answered_def)
qed

text \<open>
  C6. No caller is forgotten: when no request that was sent lacks an outcome and no thread can be woken up, every caller has been
  answered, as often as it asked.
\<close>

theorem locator_quiescent:
  assumes run: "run_events locator_enabled (locator_step background) es ([], locator_new) = Some (asked, s)"
    and quiet: "\<forall>q \<in> set (lrequests s). lr_sent q \<longrightarrow> lr_result q \<noteq> None" "\<forall>e \<in> set (blocked s). \<not> locator_enabled (Wake now e) (asked, s)"
  shows "mset asked = mset (map fst (answers s))"
proof -
  have inv: "requests_ok {} s" "mset asked = answered s + waiting s" using locator_run_inv [OF run] by (simp_all add: locator_inv_def)
  have none: "\<not> pending s k" for k
  proof
    assume "pending s k"
    moreover from this have "lr_sent (lrequests s ! k)" using inv(1) by (simp add: requests_ok_def)
    ultimately show False using quiet(1) by (auto simp: pending_def)
  qed
  then have "\<forall>q \<in> set (lrequests s). lr_result q \<noteq> None" unfolding pending_def by (metis in_set_conv_nth)
  then have "\<forall>q \<in> set (lrequests s). request_callers q = {#}" by (auto simp: request_callers_def)
  then have "sum_list (map request_callers (lrequests s)) = {#}" using sum_list_0 by (simp cong: map_cong)
  moreover have "blocked s = []"
  proof (rule ccontr)
    assume "blocked s \<noteq> []"
    then obtain e where e: "e \<in> set (blocked s)" by (cases "blocked s") auto
    then have "fst (snd e) < length (lrequests s)" using inv(1) by (simp add: requests_ok_def)
    with none have "lr_result (lrequests s ! fst (snd e)) \<noteq> None" by (auto simp: pending_def)
    with e quiet(2) show False by simp
  qed
  ultimately show ?thesis using inv(2) by (simp add: waiting_def answered_def)
qed

text \<open>Two callers of a well-known object, the second as a thread, whose proxy has an adapter id.\<close>

definition sample_wellKnown :: "nat reference" where
  "sample_wellKnown = \<lparr>r_identity = Identity ''o'' [], r_facet = [], r_mode = ModeTwoway, r_secure = False,
     r_protocol = Protocol_1_0, r_encoding = Encoding_1_1, r_endpoints = [], r_adapterId = []\<rparr>"

definition sample_events :: "nat locator_event list" where
  "sample_events = [Ask 0 sample_wellKnown (-1) (Callback (Some 1)), Ask 0 sample_wellKnown (-1) (Waits 2),
     Answered 0 0 (Some (sample_wellKnown\<lparr>r_adapterId := ''a''\<rparr>)),
     Wake 0 (2, 0, sample_wellKnown, -1), Answered 0 1 (Some (sample_wellKnown\<lparr>r_endpoints := [7]\<rparr>)),
     Wake 0 (2, 1, sample_wellKnown\<lparr>r_adapterId := ''a''\<rparr>, -1)]"

lemmas locator_compute = sample_events_def sample_wellKnown_def resolve_def resolve_adapter_def find_object_def getObjectReference_def getAdapterEndpoints_def
  getObjectRequest_def getAdapterRequest_def join_request_def addCallback_def wait_request_def new_request_def request_response_def finishRequest_def
  object_response_def adapter_response_def response_endpoints_def set_result_def wake_def give_answer_def cached_answer_def isIndirect_def isWellKnown_def
  addObjectReference_def addAdapterEndpoints_def removeObjectReference_def locator_new_def ask_caller_def checkTTL_def isSupported_def Let_def

theorem locator_quiescent_witness:
  "\<exists>s. run_events locator_enabled (locator_step False) sample_events ([], locator_new) = Some ([1, 2], s) \<and>
     answers s = [(1, Found [7] False), (2, Found [7] False)] \<and> mset [1, 2] = mset (map fst (answers s))"
proof -
  obtain s where run: "run_events locator_enabled (locator_step False) sample_events ([], locator_new) = Some ([1, 2], s)"
    and s: "answers s = [(1, Found [7] False), (2, Found [7] False)]" "blocked s = []" "\<forall>q \<in> set (lrequests s). lr_result q \<noteq> None"
    by (simp add: locator_compute)
  from locator_quiescent [OF run] s(2,3) have "mset [1, 2] = mset (map fst (answers s))" by simp
  with run s(1) show ?thesis by blast
qed

text \<open>
  C12. The encoding of the proxy the locator returns for a well-known object is looked at only for callers with a callback:
  a thread that asks for the same reference gets the endpoints of a proxy whose encoding is not supported.
\<close>

theorem locator_encoding_ignored:
  assumes "isWellKnown ref" "\<not> isSupported (r_encoding ref) (r_encoding r)" "\<not> isIndirect r"
  shows "(\<exists>asked s. run_events locator_enabled (locator_step background) [Ask now ref ttl (Callback (Some w)), Answered now 0 (Some r)] ([], locator_new) =
      Some (asked, s) \<and> answers s = [(w, Found [] False)]) \<and>
    (\<exists>asked s. run_events locator_enabled (locator_step background) [Ask now ref ttl (Waits w), Answered now 0 (Some r), Wake now (w, 0, ref, ttl)] ([], locator_new) =
      Some (asked, s) \<and> answers s = [(w, Found (r_endpoints r) False)])"
  using assms by (simp add: locator_compute)

theorem locator_encoding_ignored_witness:
  "\<exists>asked s. run_events locator_enabled (locator_step False)
     [Ask 0 sample_wellKnown (-1) (Waits 1), Answered 0 0 (Some (sample_wellKnown\<lparr>r_encoding := \<lparr>major = 2, minor = 0\<rparr>, r_endpoints := [7]\<rparr>)),
      Wake 0 (1, 0, sample_wellKnown, -1)] ([], locator_new) = Some (asked, s) \<and> answers s = [(1, Found [7] False)]"
proof -
  let ?r = "sample_wellKnown\<lparr>r_encoding := \<lparr>major = 2, minor = 0\<rparr>, r_endpoints := [7]\<rparr>"
  have "isWellKnown sample_wellKnown" "\<not> isSupported (r_encoding sample_wellKnown) (r_encoding ?r)" "\<not> isIndirect ?r" "r_endpoints ?r = [7]"
    by (simp_all add: sample_wellKnown_def isWellKnown_def isIndirect_def isSupported_def Encoding_1_1_def)
  with locator_encoding_ignored [of sample_wellKnown ?r False 0 "-1" 1] show ?thesis by metis
qed

end
