(* ===== verification/Spec2Isabelle.thy ===== *)
theory Spec2Isabelle
  imports InputUtil Base64 Buffer Identity StreamSeq StreamString StreamEncaps Properties ServantManager ConnectionLife ConnectionCompress ClassRoundtrip10 ProxyRoundtrip ProxyStream LocatorProofs
begin

text \<open>
  \<^bold>\<open>Verification of the Ice run time\<close>

  Ice is an object-oriented remote procedure call system; the sources under \<^verbatim>\<open>src/cpp\<close> hold its C++ run time
  (\<^verbatim>\<open>cpp/src/Ice\<close>, \<^verbatim>\<open>cpp/src/IceUtil\<close>), the Slice compilers and some service libraries. A program has a
  communicator, configured by a set of properties. Invocations on proxies are marshalled into a \<^verbatim>\<open>BasicStream\<close>,
  whose bytes are kept by a \<^verbatim>\<open>Buffer\<close>, and sent over a \<^verbatim>\<open>ConnectionI\<close>; on the server side the connection
  reads requests, counts the dispatches and finds the servant through the \<^verbatim>\<open>ServantManager\<close> of an object adapter.
  This development models the parts that carry the data and the protocol, from the string utilities up to the life
  of a connection.

  \<^bold>\<open>Theories and the code they model\<close>

  \<^item> \<open>Prelude\<close>: fallible results (\<open>'e + 'a\<close> with \<open>bindE\<close>, \<open>bindS\<close>), characters and searches of \<^verbatim>\<open>std::string\<close>,
    the machine integers, the collections of simplification rules. \<open>StdMap\<close>: \<^verbatim>\<open>std::map\<close> as an ordered association
    list with iteration, hints and erasure; the locale of its laws is interpreted on it. \<open>Simulation\<close>: the locales for
    objects that answer operations like a specification, and for systems of events with an invariant and an order.
  \<^item> \<open>StringUtil\<close>, \<open>InputUtil\<close> (\<^verbatim>\<open>IceUtil/StringUtil.cpp\<close>, \<^verbatim>\<open>IceUtil/InputUtil.cpp\<close>): escaping and unescaping,
    splitting, joining, trimming, quotes, wildcards, and number parsing.
  \<^item> \<open>Base64\<close>, \<open>Protocol\<close>, \<open>StringConverter\<close>, \<open>Identity\<close> (\<^verbatim>\<open>Ice/Base64.cpp\<close>, \<^verbatim>\<open>Protocol.h\<close> and \<^verbatim>\<open>Protocol.cpp\<close>,
    \<^verbatim>\<open>StringConverter.cpp\<close>, \<^verbatim>\<open>Instance.cpp\<close>): the Base64 codec, protocol constants and versions, conversion to and
    from UTF-8, identities as strings.
  \<^item> \<open>Buffer\<close> (\<^verbatim>\<open>Buffer.h\<close>, \<^verbatim>\<open>Buffer.cpp\<close>): the byte container with its capacity policy, refining an append-only
    vector.
  \<^item> \<open>BasicStream\<close>, \<open>StreamCodec\<close>, \<open>StreamSeq\<close>, \<open>StreamString\<close>, \<open>StreamOptional\<close>, \<open>StreamEncaps\<close>
    (\<^verbatim>\<open>BasicStream.h\<close>, \<^verbatim>\<open>BasicStream.cpp\<close>, \<^verbatim>\<open>StreamHelpers.h\<close>): the state of a stream and its scalar
    operations; the contract of a marshalled type (locale \<open>codec\<close>, interpreted for every built-in type) with the
    generic sequences and dictionaries; the hand-optimised sequences on hosts of every byte order; strings with
    conversion; optional members; encapsulations.
  \<^item> \<open>StreamClass\<close>, \<open>StreamClass10\<close> (\<^verbatim>\<open>BasicStream.h\<close>, \<^verbatim>\<open>BasicStream.cpp\<close>, \<^verbatim>\<open>Object.cpp\<close>, and the code that \<^verbatim>\<open>slice2cpp/Gen.cpp\<close>
    emits for a class): class instances, what the encodings share, and the encoder and decoder of the 1.0 encoding. \<open>ClassGraph10\<close>: the
    bytes of a graph of instances, and that the encoder writes them. \<open>ClassDecode10\<close>: what the decoder does with them, in
    terms of the handles that are stored and those that wait. \<open>ClassRoundtrip10\<close>: the loops over all instances, and the whole
    exchange; the locale \<open>plain_types\<close> is the contract of the members' types.
  \<^item> \<open>Endpoints\<close> (\<^verbatim>\<open>OpaqueEndpointI.cpp\<close>, \<^verbatim>\<open>EndpointFactoryManager.cpp\<close>): opaque endpoints and the choice of a factory; the factories of
    the transports are parameters. \<open>ProxyText\<close> (\<^verbatim>\<open>ReferenceFactory.cpp\<close>, \<^verbatim>\<open>Reference.cpp\<close>): references, the parser of proxy strings and
    the printer. \<open>ProxyRoundtrip\<close>: that the one undoes the other, over any endpoints with a text (locale \<open>endpoint_text\<close>).
    \<open>ProxyStream\<close> (\<^verbatim>\<open>ProxyFactory.cpp\<close> and the same): proxies on a stream, over any endpoints with a wire format (locale \<open>endpoint_wire\<close>). Both
    locales are interpreted on the factory manager with opaque endpoints.
  \<^item> \<open>Locator\<close> (\<^verbatim>\<open>LocatorInfo.h\<close>, \<^verbatim>\<open>LocatorInfo.cpp\<close>): the cache of the locator, its requests and the callers that wait for them, as a
    system of events. \<open>LocatorProofs\<close>: its invariant, and the account of the callers that every operation keeps.
  \<^item> \<open>Properties\<close> (\<^verbatim>\<open>PropertiesI.h\<close>, \<^verbatim>\<open>PropertiesI.cpp\<close>): the property set, configuration lines and files,
    command-line options.
  \<^item> \<open>ServantManager\<close> (\<^verbatim>\<open>ServantManager.h\<close>, \<^verbatim>\<open>ServantManager.cpp\<close>): servants, default servants and locators, with
    the iterator hints of the code.
  \<^item> \<open>Connection\<close> (\<^verbatim>\<open>ConnectionI.h\<close>, \<^verbatim>\<open>ConnectionI.cpp\<close>): the state of a connection and one definition per operation.
    \<open>ConnectionProofs\<close>: its invariant (\<open>control_ok\<close>: exception, dispatch count, shutdown, reaping; \<open>data_ok\<close>: send
    queue, read buffer, request maps) and that each operation keeps it. \<open>ConnectionEvents\<close>: the same for
    establishment, for the event handler \<open>message\<close> and for the end of a connection. \<open>ConnectionSystem\<close>: the
    connection in its environment, as a system of events: calls of application threads, ready operations from the thread
    pool, timeouts, the end of dispatches and of callbacks, in any order and with any outcome of the transport.
    \<open>ConnectionBatch\<close>: the batch requests, and what they add to the invariant. \<open>ConnectionCompress\<close>: compression of messages.
    \<open>ConnectionLife\<close>: the interpretation of the event-system locale on it, and the properties of whole runs.

  \<^bold>\<open>What is shown\<close>

  \<^item> Connection: no assertion of the code fails in any run; the invariant of every reachable state; closing is never
    undone; no accepted request is lost, though one can be completed twice; request ids do not repeat before they wrap;
    batch requests are sent once and in order, unless the connection is closed as idle while one is being added; a compressed
    message is given back by decompression.
  \<^item> Stream: round trips for numbers across hosts, for strings, sequences, dictionaries, optional members and
    encapsulations; the optimised routines equal the generic ones; the size check of sequences is sound where its
    arithmetic does not overflow, and overflows on announced sizes near the maximum; skipping optional members returns on
    well-formed data and diverges on a negative size.
  \<^item> Class instances: a finite graph with sharing and cycles is written and read back as an isomorphic one, by loops that end, with the
    slices cut off that the receiver does not know; an object id without a negation is undefined behaviour.
  \<^item> Properties and servants: refinement of plain maps, invariants of every reachable state, round trips of
    configuration lines and command-line options, and the values for which they fail.
  \<^item> Proxies: a proxy string and the bytes of a proxy give the proxy back; which facets, identities and opaque endpoints have a
    text that does not parse.
  \<^item> Locator: in any run no assertion fails, every caller is answered once, and requests are shared; blocked threads are not protected
    from endpoints with an unsupported encoding.
  \<^item> Utilities: round trips of escaping, Base64, versions and identities; tokenizing against a reference; exactness of number
    parsing on 64 bits and the overflow it misses.

  \<^bold>\<open>Conventions\<close>

  An exception is the left value of a sum; a failed assertion or behaviour that C++ leaves undefined is an error value
  of its own (\<open>AssertFailed\<close>, \<open>CxxUndefined\<close>) or \<open>None\<close>, so that theorems about returning exclude them. A loop that may
  not end is a \<open>partial_function (option)\<close>, where \<open>None\<close> is not returning; all other recursion has a termination
  proof, so no fuel is used. Integers that the code keeps at a width are words, or integers with their range checks and
  wrap-around written out; sizes are those of a 64-bit host. Memory is flat: an iterator is an index, and the
  bytes that \<^verbatim>\<open>realloc\<close> adds are zero. The outcome of a call on the transport (blocked, done, failed, and the bytes
  that arrive) is an argument of the operation that makes the call, with the documented range of a partial read or write
  as hypothesis \<open>transport_fits\<close>. Code outside the repository or supplied by the application is a parameter: string
  converters, servants and locators, object factories, compression, the file system, the allocator. The code generated for a class is
  determined by the slices of its instances; \<^verbatim>\<open>ice_preMarshal\<close> is taken not to change the graph.

  \<^bold>\<open>Not modelled\<close>

  The variant of connections for completion ports and the observers (instrumentation); the transports, the thread pool
  and the factories, whose effect on a connection is the events of \<open>ConnectionSystem\<close>; user exceptions, and class
  instances with the 1.1 encoding (compact ids, indirection tables, preserved slices); the settings of a reference from properties,
  the endpoints of the transports, routers, \<^verbatim>\<open>LocatorManager\<close>; the Slice compilers with their generated
  grammar; IceSSL, Glacier2, IcePatch2; the Objective-C mapping. They are input and output, generated or
  third-party code, or extensions that this library is laid out to take: \<open>StreamClass\<close> for the 1.1 encoding, the event
  systems for object adapters and the thread pool.
\<close>

end
